(* ===== verification/Prelude.thy ===== *)
theory Prelude
  imports Main "HOL-Library.Word" "HOL-Library.While_Combinator"
begin

text \<open>
  Shared vocabulary of the development: the faults a C program can run into, results that
  are either a fault or a value, C arrays with their bounds, heaps of C objects addressed by
  pointers, and the generic lemmas on lists and maps that the component theories use.
\<close>

section \<open>Collections of facts\<close>

named_theorems frame_dests \<open>what a successful operation leaves unchanged, as destruction rules\<close>

section \<open>Faults and results\<close>

text \<open>
  The C code never tests a pointer before following it and never tests an index before using
  it. Following \<open>NULL\<close>, following a pointer to a block that is not allocated (any more) and
  indexing outside an array are the three ways in which it leaves the defined behaviour of C.
  Each of them is a value of \<open>fault\<close>, and so is a loop that does not end; a result is a fault
  (\<open>Inl\<close>) or a value (\<open>Inr\<close>).
\<close>

datatype fault =
    NullDeref
  | WildDeref
  | ArrayBounds
  | Diverge

type_synonym 'a res = "fault + 'a"

abbreviation Ok :: "'a \<Rightarrow> 'a res" where "Ok \<equiv> Inr"
abbreviation Fault :: "fault \<Rightarrow> 'a res" where "Fault \<equiv> Inl"

definition rbind :: "'a res \<Rightarrow> ('a \<Rightarrow> 'b res) \<Rightarrow> 'b res" where
  "rbind r f = (case r of Inl e \<Rightarrow> Inl e | Inr x \<Rightarrow> f x)"

lemma rbind_Ok [simp]: "rbind (Inr x) f = f x"
  by (simp add: rbind_def)

lemma rbind_Fault [simp]: "rbind (Inl e) f = Inl e"
  by (simp add: rbind_def)

lemma rbind_eq_Ok_iff: "rbind r f = Inr y \<longleftrightarrow> (\<exists>x. r = Inr x \<and> f x = Inr y)"
  by (cases r) auto

lemma rbind_OkE:
  assumes "rbind r f = Inr y"
  obtains x where "r = Inr x" "f x = Inr y"
  using assms by (auto simp: rbind_eq_Ok_iff)

section \<open>Pointers, heaps and arrays\<close>

text \<open>
  A pointer is \<open>None\<close> (the C \<open>NULL\<close>) or the address of a block. The blocks of one struct type
  form a heap, a partial map from addresses to contents; an address outside its domain is not
  an allocated block of that type.
\<close>

type_synonym ptr = "nat option"
type_synonym 'a heap = "nat \<Rightarrow> 'a option"

abbreviation NULL :: ptr where "NULL \<equiv> None"

definition hget :: "'a heap \<Rightarrow> ptr \<Rightarrow> 'a res" where
  "hget h p = (case p of None \<Rightarrow> Inl NullDeref
     | Some a \<Rightarrow> (case h a of None \<Rightarrow> Inl WildDeref | Some x \<Rightarrow> Inr x))"

definition hmod :: "'a heap \<Rightarrow> ptr \<Rightarrow> ('a \<Rightarrow> 'a) \<Rightarrow> 'a heap res" where
  "hmod h p f = rbind (hget h p) (\<lambda>x. case p of None \<Rightarrow> Inl NullDeref | Some a \<Rightarrow> Inr (h(a \<mapsto> f x)))"

lemma hget_NULL [simp]: "hget h None = Inl NullDeref"
  by (simp add: hget_def)

lemma hget_Some [simp]: "h a = Some x \<Longrightarrow> hget h (Some a) = Inr x"
  by (simp add: hget_def)

lemma hget_wild [simp]: "h a = None \<Longrightarrow> hget h (Some a) = Inl WildDeref"
  by (simp add: hget_def)

lemma hget_Ok_iff: "hget h p = Inr x \<longleftrightarrow> (\<exists>a. p = Some a \<and> h a = Some x)"
  by (auto simp: hget_def split: option.splits)

lemma hmod_NULL [simp]: "hmod h None f = Inl NullDeref"
  by (simp add: hmod_def)

lemma hmod_Some [simp]: "h a = Some x \<Longrightarrow> hmod h (Some a) f = Inr (h(a \<mapsto> f x))"
  by (simp add: hmod_def)

lemma hmod_Ok_iff:
  "hmod h p f = Inr h' \<longleftrightarrow> (\<exists>a x. p = Some a \<and> h a = Some x \<and> h' = h(a \<mapsto> f x))"
  by (auto simp: hmod_def rbind_eq_Ok_iff hget_Ok_iff split: option.splits)

text \<open>A C array is a list; the index is an \<open>int\<close> and is checked on every access.\<close>

definition aget :: "'a list \<Rightarrow> int \<Rightarrow> 'a res" where
  "aget xs i = (if 0 \<le> i \<and> i < int (length xs) then Inr (xs ! nat i) else Inl ArrayBounds)"

definition aset :: "'a list \<Rightarrow> int \<Rightarrow> 'a \<Rightarrow> 'a list res" where
  "aset xs i v = (if 0 \<le> i \<and> i < int (length xs) then Inr (xs[nat i := v]) else Inl ArrayBounds)"

lemma aget_nat [simp]: "i < length xs \<Longrightarrow> aget xs (int i) = Inr (xs ! i)"
  by (simp add: aget_def)

lemma aset_nat [simp]: "i < length xs \<Longrightarrow> aset xs (int i) v = Inr (xs[i := v])"
  by (simp add: aset_def)

lemma aget_Ok_iff: "aget xs i = Inr v \<longleftrightarrow> 0 \<le> i \<and> i < int (length xs) \<and> v = xs ! nat i"
  by (auto simp: aget_def)

lemma aset_Ok_iff:
  "aset xs i v = Inr ys \<longleftrightarrow> 0 \<le> i \<and> i < int (length xs) \<and> ys = xs[nat i := v]"
  by (auto simp: aset_def)

section \<open>Iterating a fallible operation\<close>

text \<open>\<open>fold_res f xs s\<close> runs \<open>f\<close> on the elements of \<open>xs\<close> in order and stops at the first fault.\<close>

fun fold_res :: "('x \<Rightarrow> 's \<Rightarrow> 's res) \<Rightarrow> 'x list \<Rightarrow> 's \<Rightarrow> 's res" where
  "fold_res f [] s = Inr s"
| "fold_res f (x # xs) s = rbind (f x s) (fold_res f xs)"

lemma fold_res_append: "fold_res f (xs @ ys) s = rbind (fold_res f xs s) (fold_res f ys)"
proof (induction xs arbitrary: s)
  case (Cons x xs)
  then show ?case by (cases "f x s") auto
qed simp

lemma fold_res_cong: "(\<And>x s. x \<in> set xs \<Longrightarrow> f x s = g x s) \<Longrightarrow> fold_res f xs s = fold_res g xs s"
proof (induction xs arbitrary: s)
  case (Cons x xs)
  then show ?case by (cases "g x s") auto
qed simp

lemma fold_res_map: "fold_res f (map g xs) s = fold_res (\<lambda>x. f (g x)) xs s"
proof (induction xs arbitrary: s)
  case (Cons x xs)
  then show ?case by (cases "f (g x) s") auto
qed simp

lemma fold_res_inv:
  assumes "fold_res f xs s = Inr s'" and "P s"
    and "\<And>x s t. x \<in> set xs \<Longrightarrow> P s \<Longrightarrow> f x s = Inr t \<Longrightarrow> P t"
  shows "P s'"
  using assms
proof (induction xs arbitrary: s)
  case (Cons x xs)
  from Cons.prems(1) obtain t where t: "f x s = Inr t" "fold_res f xs t = Inr s'"
    by (auto elim: rbind_OkE)
  have "P t" by (rule Cons.prems(3) [of x s t]) (use Cons.prems(2) t(1) in auto)
  then show ?case
    by (rule Cons.IH [OF t(2)]) (use Cons.prems(3) in auto)
qed simp

text \<open>
  A \<open>while\<close> loop whose body can fault. A loop that never leaves its guard has the value \<open>Diverge\<close>.
\<close>

definition while_res :: "('s \<Rightarrow> bool) \<Rightarrow> ('s \<Rightarrow> 's res) \<Rightarrow> 's \<Rightarrow> 's res" where
  "while_res b c s =
     (case while_option (\<lambda>r. case r of Inl _ \<Rightarrow> False | Inr s \<Rightarrow> b s) (\<lambda>r. rbind r c) (Inr s) of
        None \<Rightarrow> Inl Diverge | Some r \<Rightarrow> r)"

lemma while_res_unfold: "while_res b c s = (if b s then rbind (c s) (while_res b c) else Inr s)"
proof (cases "b s")
  case True
  then show ?thesis
    by (cases "c s") (simp_all add: while_res_def while_option_unfold [of _ _ "Inr s"] while_option_unfold [of _ _ "Inl _"])
next
  case False
  then show ?thesis by (simp add: while_res_def while_option_unfold [of _ _ "Inr s"])
qed

section \<open>Loops over the page-aligned addresses of a range\<close>

text \<open>
  \<open>for (v = a; v < lim; v += d)\<close> visits \<open>addrs d a lim\<close>. The step \<open>d\<close> is a page size, hence
  positive; for \<open>d = 0\<close> the C loop would not end, and the definition gives the empty list only to
  be total.
\<close>

function addrs :: "nat \<Rightarrow> nat \<Rightarrow> nat \<Rightarrow> nat list" where
  "addrs d a lim = (if a < lim \<and> 0 < d then a # addrs d (a + d) lim else [])"
  by pat_completeness auto
termination
  by (relation "measure (\<lambda>(d, a, lim). lim - a)") auto

declare addrs.simps [simp del]

lemma addrs_pages:
  assumes "0 < d" "p \<le> q"
  shows "addrs d (p * d) (q * d) = map (\<lambda>i. i * d) [p..<q]"
  using assms(2)
proof (induction "q - p" arbitrary: p)
  case 0
  then show ?case by (simp add: addrs.simps)
next
  case (Suc n)
  then have "p < q" by simp
  have "n = q - Suc p" "Suc p \<le> q" using Suc(2) \<open>p < q\<close> by simp_all
  then have "addrs d (Suc p * d) (q * d) = map (\<lambda>i. i * d) [Suc p..<q]" by (rule Suc(1))
  with \<open>p < q\<close> assms(1) show ?case
    by (subst addrs.simps) (simp add: upt_conv_Cons add.commute)
qed

lemma addrs_upto:
  assumes "0 < d"
  shows "addrs d (p * d) lim = map (\<lambda>i. i * d) [p..<(lim + d - 1) div d]"
proof (induction "lim - p * d" arbitrary: p rule: less_induct)
  case less
  show ?case
  proof (cases "p * d < lim")
    case True
    then have "Suc p * d \<le> lim + d - 1" by simp
    then have "p < (lim + d - 1) div d" using assms by (metis Suc_le_eq div_le_mono nonzero_mult_div_cancel_right less_not_refl2)
    moreover have "addrs d (Suc p * d) lim = map (\<lambda>i. i * d) [Suc p..<(lim + d - 1) div d]"
      by (rule less) (use True assms in simp)
    ultimately show ?thesis using True assms by (subst addrs.simps) (simp add: upt_conv_Cons add.commute)
  next
    case False
    then have "lim + d - 1 < Suc p * d" using assms by simp
    then have "(lim + d - 1) div d \<le> p" using assms by (simp add: less_mult_imp_div_less flip: less_Suc_eq_le)
    with False show ?thesis by (subst addrs.simps) simp
  qed
qed

section \<open>Lists\<close>

lemma filter_update_count:
  assumes "i < length xs" "P (xs ! i)" "\<not> P v"
  shows "Suc (length (filter P (xs[i := v]))) = length (filter P xs)"
  using assms
proof (induction xs arbitrary: i)
  case (Cons x xs)
  then show ?case by (cases i) auto
qed simp

lemma filter_update_count_inc:
  assumes "i < length xs" "\<not> P (xs ! i)" "P v"
  shows "length (filter P (xs[i := v])) = Suc (length (filter P xs))"
  using assms
proof (induction xs arbitrary: i)
  case (Cons x xs)
  then show ?case by (cases i) auto
qed simp

lemma filter_update_count_same:
  assumes "i < length xs" "P (xs ! i) = P v"
  shows "length (filter P (xs[i := v])) = length (filter P xs)"
  using assms
proof (induction xs arbitrary: i)
  case (Cons x xs)
  then show ?case by (cases i) auto
qed simp

end
