(* ===== verification/Machine.thy ===== *)
theory Machine
  imports Prelude
begin

unbundle bit_operations_syntax

text \<open>
  The data of the kernel (src/sharedvar.c and the file-scope variables of src/yalnix.c and
  src/delay.c), the constants of the simulated hardware as a parameter of the model, and the
  primitive accesses every kernel function is written with.
\<close>

section \<open>Page table entries and exception frames\<close>

text \<open>
  \<open>struct pte\<close> of the hardware header, with the widths recorded in the debug information of the
  binary: a 20-bit frame number, two 3-bit protections and a valid bit. A protection is the set of
  the \<open>PROT_\<close> flags that are or-ed together, \<open>PROT_NONE\<close> is the empty set.
\<close>

datatype prot = PROT_READ | PROT_WRITE | PROT_EXEC

abbreviation PROT_NONE :: "prot set" where "PROT_NONE \<equiv> {}"

record pte =
  pfn :: "20 word"
  uprot :: "prot set"
  kprot :: "prot set"
  valid :: bool

text \<open>
  The \<open>code\<close> field of an \<open>ExceptionInfo\<close>: the kernel call number, the reason of an exception, or
  the terminal that raised an interrupt.
\<close>

datatype trap_code =
    YALNIX_FORK | YALNIX_EXEC | YALNIX_EXIT | YALNIX_WAIT | YALNIX_GETPID | YALNIX_BRK
  | YALNIX_DELAY | YALNIX_TTY_READ | YALNIX_TTY_WRITE
  | TRAP_ILLEGAL_ILLOPC | TRAP_ILLEGAL_ILLOPN | TRAP_ILLEGAL_ILLADR | TRAP_ILLEGAL_ILLTRP
  | TRAP_ILLEGAL_PRVOPC | TRAP_ILLEGAL_PRVREG | TRAP_ILLEGAL_COPROC | TRAP_ILLEGAL_BADSTK
  | TRAP_ILLEGAL_KERNELI | TRAP_ILLEGAL_USERIB | TRAP_ILLEGAL_ADRALN | TRAP_ILLEGAL_ADRERR
  | TRAP_ILLEGAL_OBJERR | TRAP_ILLEGAL_KERNELB
  | TRAP_MEMORY_MAPERR | TRAP_MEMORY_ACCERR | TRAP_MEMORY_KERNEL | TRAP_MEMORY_USER
  | TRAP_MATH_INTDIV | TRAP_MATH_INTOVF | TRAP_MATH_FLTDIV | TRAP_MATH_FLTOVF
  | TRAP_MATH_FLTUND | TRAP_MATH_FLTRES | TRAP_MATH_FLTINV | TRAP_MATH_FLTSUB
  | TRAP_MATH_KERNEL | TRAP_MATH_USER
  | TTY_CODE nat
  | OTHER_CODE int

record exc_info =
  i_code :: trap_code
  i_addr :: "64 word"
  i_psr :: "64 word"
  i_pc :: "64 word"
  i_sp :: "64 word"
  i_regs :: "64 word list"

section \<open>Saved kernel contexts\<close>

text \<open>
  \<open>ContextSwitch\<close> suspends a kernel function in the middle. What it saves is the place where the
  function goes on together with the kernel stack, that is, the function's live local variables and
  the \<open>ExceptionInfo\<close> of the trap. A saved context is therefore one of the places of the source
  at which \<open>ContextSwitch\<close> is called, with these values. \<open>K_none\<close> is a \<open>SavedContext\<close> that has not
  been written since the block that holds it was allocated.
\<close>

datatype kctx =
    K_none
  | K_KernelStart exc_info "string list" ptr         \<comment> \<open>yalnix.c:247; \<open>pcb2\<close> is live\<close>
  | K_DelayFunc exc_info                             \<comment> \<open>delay.c:34\<close>
  | K_ForkFunc exc_info ptr                          \<comment> \<open>fork.c:37; \<open>child\<close> is live\<close>
  | K_WaitFunc exc_info                              \<comment> \<open>wait.c:33\<close>
  | K_ExitFunc                                       \<comment> \<open>exit.c:88\<close>
  | K_TrapClock exc_info ptr                         \<comment> \<open>handlers.c:109; \<open>curr_proc_item\<close> is live\<close>
  | K_TtyWrite exc_info int                          \<comment> \<open>ttywrite.c:78 and 81; \<open>len\<close> is live\<close>
  | K_TtyTransmit_null exc_info                      \<comment> \<open>ttywrite.c:49\<close>
  | K_TtyTransmit exc_info nat                       \<comment> \<open>ttywrite.c:53; \<open>tty\<close> is live\<close>

section \<open>The structures of sharedvar.c\<close>

text \<open>
  \<open>struct pte *\<close>: a process's Region 0 page table is either the static array \<open>region0Pt\<close> or an
  array that starts at the page with index \<open>v\<close> of Region 1, whose address is
  \<open>(PAGE_TABLE_LEN + v) << PAGESHIFT\<close>.
\<close>

datatype ptref = PT_NULL | PT_region0Pt | PT_R1 nat

record pcb =
  process_id :: int
  ctx :: kctx
  brk :: "64 word"
  reg0_pfn :: int
  region0 :: ptref
  free_vpn :: "64 word"
  delay_ticks :: int
  sp :: "64 word"
  parent :: ptr
  children_head :: ptr
  children_tail :: ptr
  next_sibling :: ptr
  prev_sibling :: ptr
  exited_children_head :: ptr
  exited_children_tail :: ptr
  waiting :: bool
  read_q_next :: ptr
  write_q_next :: ptr

record queue_item =
  q_prev :: ptr
  q_proc :: ptr
  ticks_left :: int
  q_next :: ptr

record exitedChild =
  x_prev :: ptr
  x_parent :: ptr
  status :: int
  x_process_id :: int
  x_next :: ptr

text \<open>
  \<open>struct line\<close> keeps a pointer to characters: a user buffer (an address) for output, or what the
  kernel's own pointer variable holds after the receive for input.
\<close>

record line =
  content :: "64 word"
  len :: int
  read_i :: int
  next_line :: ptr

record tty_term =
  tty_id :: int
  read_in :: ptr
  write_out :: ptr
  read_queue :: ptr
  write_queue :: ptr
  mutex :: int

datatype page_status = PAGE_FREE | PAGE_USED

type_synonym page = "8 word list"

section \<open>Program files\<close>

text \<open>
  What the kernel learns of a program file through \<open>open\<close>, \<open>LoadInfo\<close> and \<open>read\<close>: whether its
  header can be interpreted, the sizes in the header, the bytes that follow, and the value that
  \<open>read\<close> returns when it is asked for a number of bytes.
\<close>

datatype li_result = LI_SUCCESS | LI_FORMAT_ERROR | LI_OTHER_ERROR | LI_UNKNOWN

record exe =
  li_status :: li_result
  text_size :: "64 word"
  data_size :: "64 word"
  bss_size :: "64 word"
  li_entry :: "64 word"
  image :: "8 word list"
  read_ret :: "64 word \<Rightarrow> int"

section \<open>The machine\<close>

text \<open>
  The constants of \<open>comp421/hardware.h\<close>, two addresses fixed by the linker, the files, and the
  behaviour of the allocator that C leaves open. None of this is in the repository, so it is a parameter of every
  definition that uses it.

  \<^item> \<open>kbrk_addr\<close> is \<open>&currKernelBrk\<close>, \<open>etext_addr\<close> is \<open>&_etext\<close>.
  \<^item> \<open>fs name\<close> is the file \<open>name\<close>, \<open>None\<close> if it cannot be opened.
  \<^item> \<open>junk_pcb a\<close>, \<open>junk_item a\<close>, \<open>junk_exited a\<close>, \<open>junk_line a\<close>: what a block at address \<open>a\<close>
    contains when \<open>malloc\<close> returns it; C does not initialise it.
  \<^item> \<open>freed_item i\<close>, \<open>freed_exited x\<close>: what can still be read from a block with contents \<open>i\<close> after
    \<open>free\<close>. \<open>None\<close> means that the access faults, which is the strict reading of C; an allocator
    that leaves a freed block mapped gives \<open>Some\<close>.
\<close>

record machine =
  PAGESHIFT :: nat
  PAGE_TABLE_LEN :: nat
  VMEM_0_BASE :: nat
  VMEM_0_LIMIT :: nat
  VMEM_1_BASE :: nat
  VMEM_1_LIMIT :: nat
  KERNEL_STACK_PAGES :: nat
  KERNEL_STACK_BASE :: nat
  KERNEL_STACK_LIMIT :: nat
  USER_STACK_LIMIT :: nat
  MEM_INVALID_PAGES :: nat
  NUM_TERMINALS :: nat
  NUM_REGS :: nat
  TERMINAL_MAX_LINE :: nat
  kbrk_addr :: nat
  etext_addr :: nat
  fs :: "string \<Rightarrow> exe option"
  junk_pcb :: "nat \<Rightarrow> pcb"
  junk_item :: "nat \<Rightarrow> queue_item"
  junk_exited :: "nat \<Rightarrow> exitedChild"
  junk_line :: "nat \<Rightarrow> line"
  freed_item :: "queue_item \<Rightarrow> queue_item option"
  freed_exited :: "exitedChild \<Rightarrow> exitedChild option"

definition PAGESIZE :: "machine \<Rightarrow> nat" where
  "PAGESIZE M = 2 ^ PAGESHIFT M"

lemma PAGESIZE_pos [simp]: "0 < PAGESIZE M"
  by (simp add: PAGESIZE_def)

text \<open>
  The memory map the hardware documents: two regions of \<open>PAGE_TABLE_LEN\<close> pages each, the kernel
  stack in the last pages of Region 0, the user stack below it, and the kernel's own variables in
  Region 1. A page table of \<open>PAGE_TABLE_LEN\<close> entries of four bytes fits into one page.
\<close>

definition hw_layout :: "machine \<Rightarrow> bool" where
  "hw_layout M \<longleftrightarrow>
     VMEM_0_BASE M = 0 \<and> VMEM_0_LIMIT M = PAGE_TABLE_LEN M * PAGESIZE M \<and>
     VMEM_1_BASE M = VMEM_0_LIMIT M \<and> VMEM_1_LIMIT M = 2 * PAGE_TABLE_LEN M * PAGESIZE M \<and>
     KERNEL_STACK_LIMIT M = VMEM_0_LIMIT M \<and>
     KERNEL_STACK_BASE M = (PAGE_TABLE_LEN M - KERNEL_STACK_PAGES M) * PAGESIZE M \<and>
     USER_STACK_LIMIT M = KERNEL_STACK_BASE M \<and>
     KERNEL_STACK_PAGES M + MEM_INVALID_PAGES M < PAGE_TABLE_LEN M \<and> 3 < PAGE_TABLE_LEN M \<and>
     VMEM_1_LIMIT M < 2 ^ 31 \<and> 2 * PAGE_TABLE_LEN M < 2 ^ 20 \<and>
     VMEM_1_BASE M \<le> kbrk_addr M \<and> kbrk_addr M < VMEM_1_LIMIT M"

lemma kernel_stack_below:
  assumes "hw_layout M"
  shows "KERNEL_STACK_BASE M < 2 ^ 31"
proof -
  have "(PAGE_TABLE_LEN M - KERNEL_STACK_PAGES M) * PAGESIZE M \<le> 2 * PAGE_TABLE_LEN M * PAGESIZE M"
    by (intro mult_le_mono) simp_all
  also have "\<dots> < 2 ^ 31" using assms unfolding hw_layout_def by metis
  finally show ?thesis using assms by (simp add: hw_layout_def)
qed

text \<open>The macros \<open>DOWN_TO_PAGE\<close> and \<open>UP_TO_PAGE\<close>, on 64-bit values, and \<open>n >> PAGESHIFT\<close>.\<close>

definition DOWN_TO_PAGE :: "machine \<Rightarrow> 64 word \<Rightarrow> 64 word" where
  "DOWN_TO_PAGE M n = push_bit (PAGESHIFT M) (drop_bit (PAGESHIFT M) n)"

definition UP_TO_PAGE :: "machine \<Rightarrow> 64 word \<Rightarrow> 64 word" where
  "UP_TO_PAGE M n = DOWN_TO_PAGE M (n + (push_bit (PAGESHIFT M) 1 - 1))"

text \<open>Conversion of an \<open>unsigned long\<close> to \<open>int\<close>, and of an \<open>int\<close> to \<open>unsigned long\<close> or a \<open>pfn\<close> field.\<close>

definition c_int :: "64 word \<Rightarrow> int" where
  "c_int w = sint (ucast w :: 32 word)"

abbreviation c_ulong :: "int \<Rightarrow> 64 word" where "c_ulong \<equiv> word_of_int"
abbreviation c_pfn :: "int \<Rightarrow> 20 word" where "c_pfn \<equiv> word_of_int"

lemma c_int_c_ulong:
  assumes "- (2 ^ 31) \<le> r" "r < 2 ^ 31"
  shows "c_int (c_ulong r) = r"
proof -
  have "(ucast (word_of_int r :: 64 word) :: 32 word) = word_of_int r"
    by transfer simp
  moreover have "sint (word_of_int r :: 32 word) = signed_take_bit 31 r" by transfer simp
  moreover have "signed_take_bit 31 r = r" using assms by (simp add: signed_take_bit_int_eq_self)
  ultimately show ?thesis unfolding c_int_def by (simp only:)
qed

text \<open>
  \<open>i++\<close> on an \<open>int\<close>. C leaves the overflow of a signed addition undefined; the definition is what the
  compiled 32-bit addition does, it wraps around.
\<close>

definition int_inc :: "int \<Rightarrow> int" where
  "int_inc i = sint (word_of_int (i + 1) :: 32 word)"

lemma int_inc_eq: "- (2 ^ 31) \<le> i + 1 \<Longrightarrow> i + 1 < 2 ^ 31 \<Longrightarrow> int_inc i = i + 1"
proof -
  assume "- (2 ^ 31) \<le> i + 1" "i + 1 < 2 ^ 31"
  then have "signed_take_bit 31 (i + 1) = i + 1" by (simp add: signed_take_bit_int_eq_self)
  moreover have "sint (word_of_int (i + 1) :: 32 word) = signed_take_bit 31 (i + 1)" by transfer simp
  ultimately show ?thesis by (simp add: int_inc_def)
qed

lemma int_inc_overflow: "int_inc (2 ^ 31 - 1) = - (2 ^ 31)"
  by (simp add: int_inc_def)

definition ERROR :: int where "ERROR = - 1"

section \<open>The kernel state\<close>

text \<open>
  A message the kernel prints when it terminates a process: the process and the reason.
  The arguments the kernel passes to \<open>WriteRegister\<close>. The last table written to \<open>REG_PTR0\<close> is the
  one the hardware translates Region 0 with.
\<close>

text \<open>
  A page table in page \<open>v\<close> of Region 1 lies in the frame \<open>PAGE_TABLE_LEN + v\<close>. From the time \<open>BuildRegion0\<close> sets
  it up, \<open>r1_tables s v\<close> stands for the contents of this frame; \<open>frames\<close> stands for the contents of the frames that
  hold no table. The two agree with physical memory as long as no other page is mapped to the frame of a
  table. The code does not check this when it takes the frame; \<open>Fork_isolates\<close> in theory \<open>Fork\<close> has the conditions
  under which a fork neither puts a table over a frame in use nor a page over a table.
\<close>

datatype message = Report int string | Code_not_found

datatype tlb_flush = TLB_FLUSH_ALL | TLB_FLUSH_0 | TLB_FLUSH_1 | TLB_FLUSH_ADDR "64 word"

datatype reg_write =
    REG_PTR0 ptref | REG_PTR1 | REG_VM_ENABLE | REG_VECTOR_BASE | REG_TLB_FLUSH tlb_flush

record kstate =
  freePages :: "page_status list"
  num_pages :: nat
  num_free_pages :: int
  region0Pt :: "pte list"
  region1Pt :: "pte list"
  r1_tables :: "nat \<Rightarrow> pte list"  \<comment> \<open>the page tables kept in pages of Region 1\<close>
  frames :: "nat \<Rightarrow> page"         \<comment> \<open>physical memory\<close>
  currKernelBrk :: "64 word"
  next_proc_id :: int
  waiting_queue_head :: ptr
  waiting_queue_tail :: ptr
  queue_head :: ptr
  queue_tail :: ptr
  curr_proc :: ptr
  idle_pcb :: ptr
  queue_size :: int
  waiting_queue_size :: int
  terms :: "tty_term list"
  vm_enabled :: bool
  ticks_passed :: int
  pcbs :: "pcb heap"
  items :: "queue_item heap"
  exiteds :: "exitedChild heap"
  lines :: "line heap"
  heap_top :: nat                  \<comment> \<open>\<open>malloc\<close> returns this address next\<close>
  reg_ptr0 :: ptref
  reg_log :: "reg_write list"
  console :: "message list"        \<comment> \<open>what the exception handlers print\<close>
  tty_log :: "(int \<times> 64 word \<times> int) list"  \<comment> \<open>the calls of \<open>TtyTransmit\<close>\<close>

section \<open>Primitive accesses\<close>

definition rd_pcb :: "kstate \<Rightarrow> ptr \<Rightarrow> pcb res" where
  "rd_pcb s p = hget (pcbs s) p"

definition wr_pcb :: "ptr \<Rightarrow> (pcb \<Rightarrow> pcb) \<Rightarrow> kstate \<Rightarrow> kstate res" where
  "wr_pcb p f s = rbind (hmod (pcbs s) p f) (\<lambda>h. Inr (s\<lparr>pcbs := h\<rparr>))"

definition rd_item :: "kstate \<Rightarrow> ptr \<Rightarrow> queue_item res" where
  "rd_item s p = hget (items s) p"

definition wr_item :: "ptr \<Rightarrow> (queue_item \<Rightarrow> queue_item) \<Rightarrow> kstate \<Rightarrow> kstate res" where
  "wr_item p f s = rbind (hmod (items s) p f) (\<lambda>h. Inr (s\<lparr>items := h\<rparr>))"

definition rd_exited :: "kstate \<Rightarrow> ptr \<Rightarrow> exitedChild res" where
  "rd_exited s p = hget (exiteds s) p"

definition wr_exited :: "ptr \<Rightarrow> (exitedChild \<Rightarrow> exitedChild) \<Rightarrow> kstate \<Rightarrow> kstate res" where
  "wr_exited p f s = rbind (hmod (exiteds s) p f) (\<lambda>h. Inr (s\<lparr>exiteds := h\<rparr>))"

definition rd_line :: "kstate \<Rightarrow> ptr \<Rightarrow> line res" where
  "rd_line s p = hget (lines s) p"

definition wr_line :: "ptr \<Rightarrow> (line \<Rightarrow> line) \<Rightarrow> kstate \<Rightarrow> kstate res" where
  "wr_line p f s = rbind (hmod (lines s) p f) (\<lambda>h. Inr (s\<lparr>lines := h\<rparr>))"

text \<open>
  \<open>malloc\<close> returns a block that no earlier call returned, with unspecified contents; that it can
  fail is not modelled, the code never tests its result.
\<close>

definition malloc_pcb :: "machine \<Rightarrow> kstate \<Rightarrow> kstate" where
  "malloc_pcb M s =
     s\<lparr>pcbs := (pcbs s)(heap_top s \<mapsto> junk_pcb M (heap_top s)), heap_top := Suc (heap_top s)\<rparr>"

definition malloc_item :: "machine \<Rightarrow> kstate \<Rightarrow> kstate" where
  "malloc_item M s =
     s\<lparr>items := (items s)(heap_top s \<mapsto> junk_item M (heap_top s)), heap_top := Suc (heap_top s)\<rparr>"

definition malloc_exited :: "machine \<Rightarrow> kstate \<Rightarrow> kstate" where
  "malloc_exited M s =
     s\<lparr>exiteds := (exiteds s)(heap_top s \<mapsto> junk_exited M (heap_top s)),
       heap_top := Suc (heap_top s)\<rparr>"

definition malloc_line :: "machine \<Rightarrow> kstate \<Rightarrow> kstate" where
  "malloc_line M s =
     s\<lparr>lines := (lines s)(heap_top s \<mapsto> junk_line M (heap_top s)), heap_top := Suc (heap_top s)\<rparr>"

definition free_item :: "machine \<Rightarrow> ptr \<Rightarrow> kstate \<Rightarrow> kstate res" where
  "free_item M p s = (case p of None \<Rightarrow> Inr s
     | Some a \<Rightarrow> rbind (rd_item s p) (\<lambda>i. Inr (s\<lparr>items := (items s)(a := freed_item M i)\<rparr>)))"

definition free_exited :: "machine \<Rightarrow> ptr \<Rightarrow> kstate \<Rightarrow> kstate res" where
  "free_exited M p s = (case p of None \<Rightarrow> Inr s
     | Some a \<Rightarrow> rbind (rd_exited s p) (\<lambda>x. Inr (s\<lparr>exiteds := (exiteds s)(a := freed_exited M x)\<rparr>)))"

definition WriteRegister :: "reg_write \<Rightarrow> kstate \<Rightarrow> kstate" where
  "WriteRegister w s =
     (let s' = s\<lparr>reg_log := reg_log s @ [w]\<rparr>
      in case w of REG_PTR0 t \<Rightarrow> s'\<lparr>reg_ptr0 := t\<rparr> | _ \<Rightarrow> s')"

lemma rd_heap [simp]:
  "rd_pcb s None = Inl NullDeref" "pcbs s a = Some x \<Longrightarrow> rd_pcb s (Some a) = Inr x"
  "rd_item s None = Inl NullDeref" "items s a = Some i \<Longrightarrow> rd_item s (Some a) = Inr i"
  "rd_exited s None = Inl NullDeref" "exiteds s a = Some e \<Longrightarrow> rd_exited s (Some a) = Inr e"
  "rd_line s None = Inl NullDeref" "lines s a = Some l \<Longrightarrow> rd_line s (Some a) = Inr l"
  by (simp_all add: rd_pcb_def rd_item_def rd_exited_def rd_line_def)

lemma rd_heap_wild [simp]:
  "pcbs s a = None \<Longrightarrow> rd_pcb s (Some a) = Inl WildDeref"
  "items s a = None \<Longrightarrow> rd_item s (Some a) = Inl WildDeref"
  "exiteds s a = None \<Longrightarrow> rd_exited s (Some a) = Inl WildDeref"
  "lines s a = None \<Longrightarrow> rd_line s (Some a) = Inl WildDeref"
  by (simp_all add: rd_pcb_def rd_item_def rd_exited_def rd_line_def)

lemma wr_heap [simp]:
  "wr_pcb None f1 s = Inl NullDeref"
  "pcbs s a = Some x \<Longrightarrow> wr_pcb (Some a) f1 s = Inr (s\<lparr>pcbs := (pcbs s)(a \<mapsto> f1 x)\<rparr>)"
  "wr_item None f2 s = Inl NullDeref"
  "items s a = Some i \<Longrightarrow> wr_item (Some a) f2 s = Inr (s\<lparr>items := (items s)(a \<mapsto> f2 i)\<rparr>)"
  "wr_exited None f3 s = Inl NullDeref"
  "exiteds s a = Some e \<Longrightarrow> wr_exited (Some a) f3 s = Inr (s\<lparr>exiteds := (exiteds s)(a \<mapsto> f3 e)\<rparr>)"
  "wr_line None f4 s = Inl NullDeref"
  "lines s a = Some l \<Longrightarrow> wr_line (Some a) f4 s = Inr (s\<lparr>lines := (lines s)(a \<mapsto> f4 l)\<rparr>)"
  by (simp_all add: wr_pcb_def wr_item_def wr_exited_def wr_line_def)

lemma free_item_Some [simp]:
  "items s a = Some i \<Longrightarrow> free_item M (Some a) s = Inr (s\<lparr>items := (items s)(a := freed_item M i)\<rparr>)"
  by (simp add: free_item_def)

lemma free_exited_Some [simp]:
  "exiteds s a = Some x \<Longrightarrow>
     free_exited M (Some a) s = Inr (s\<lparr>exiteds := (exiteds s)(a := freed_exited M x)\<rparr>)"
  by (simp add: free_exited_def)

text \<open>
  Reading and writing an entry of a Region 0 page table through its pointer. A table in Region 1 is
  reachable only while its page is mapped.
\<close>

definition tbl :: "kstate \<Rightarrow> ptref \<Rightarrow> pte list res" where
  "tbl s t = (case t of PT_NULL \<Rightarrow> Inl NullDeref
     | PT_region0Pt \<Rightarrow> Inr (region0Pt s)
     | PT_R1 v \<Rightarrow> if v < length (region1Pt s) \<and> valid (region1Pt s ! v)
                  then Inr (r1_tables s v) else Inl WildDeref)"

definition put_tbl :: "ptref \<Rightarrow> pte list \<Rightarrow> kstate \<Rightarrow> kstate" where
  "put_tbl t ps s = (case t of PT_NULL \<Rightarrow> s
     | PT_region0Pt \<Rightarrow> s\<lparr>region0Pt := ps\<rparr>
     | PT_R1 v \<Rightarrow> s\<lparr>r1_tables := (r1_tables s)(v := ps)\<rparr>)"

definition rd_pte :: "kstate \<Rightarrow> ptref \<Rightarrow> int \<Rightarrow> pte res" where
  "rd_pte s t i = rbind (tbl s t) (\<lambda>ps. aget ps i)"

definition wr_pte :: "ptref \<Rightarrow> int \<Rightarrow> (pte \<Rightarrow> pte) \<Rightarrow> kstate \<Rightarrow> kstate res" where
  "wr_pte t i f s =
     rbind (tbl s t) (\<lambda>ps.
     rbind (aget ps i) (\<lambda>e.
     rbind (aset ps i (f e)) (\<lambda>ps'. Inr (put_tbl t ps' s))))"

definition rd_r1 :: "kstate \<Rightarrow> int \<Rightarrow> pte res" where
  "rd_r1 s i = aget (region1Pt s) i"

definition wr_r1 :: "int \<Rightarrow> (pte \<Rightarrow> pte) \<Rightarrow> kstate \<Rightarrow> kstate res" where
  "wr_r1 i f s =
     rbind (aget (region1Pt s) i) (\<lambda>e.
     rbind (aset (region1Pt s) i (f e)) (\<lambda>ps. Inr (s\<lparr>region1Pt := ps\<rparr>)))"

definition set_freePages :: "int \<Rightarrow> page_status \<Rightarrow> kstate \<Rightarrow> kstate res" where
  "set_freePages i v s = rbind (aset (freePages s) i v) (\<lambda>fs. Inr (s\<lparr>freePages := fs\<rparr>))"

section \<open>Memory through the page tables\<close>

text \<open>
  The hardware translates an address of Region 0 with the table in \<open>REG_PTR0\<close> and an address of
  Region 1 with \<open>region1Pt\<close>. A store by the kernel needs a valid entry that lets the kernel write;
  anything else is a memory fault.
\<close>

definition hw_table :: "kstate \<Rightarrow> ptref \<Rightarrow> pte list" where
  "hw_table s t = (case t of PT_NULL \<Rightarrow> [] | PT_region0Pt \<Rightarrow> region0Pt s | PT_R1 v \<Rightarrow> r1_tables s v)"

definition hw_pte :: "machine \<Rightarrow> kstate \<Rightarrow> nat \<Rightarrow> pte res" where
  "hw_pte M s a =
     (if a < VMEM_0_LIMIT M then aget (hw_table s (reg_ptr0 s)) (int (a div PAGESIZE M))
      else aget (region1Pt s) (int (a div PAGESIZE M) - int (PAGE_TABLE_LEN M)))"

definition store_byte :: "machine \<Rightarrow> nat \<Rightarrow> 8 word \<Rightarrow> kstate \<Rightarrow> kstate res" where
  "store_byte M a b s =
     rbind (hw_pte M s a) (\<lambda>e.
     if valid e \<and> PROT_WRITE \<in> kprot e
     then Inr (s\<lparr>frames := (frames s)(unat (pfn e) := (frames s (unat (pfn e)))[a mod PAGESIZE M := b])\<rparr>)
     else Inl WildDeref)"

fun store_bytes :: "machine \<Rightarrow> nat \<Rightarrow> 8 word list \<Rightarrow> kstate \<Rightarrow> kstate res" where
  "store_bytes M a [] s = Inr s"
| "store_bytes M a (b # bs) s = rbind (store_byte M a b s) (store_bytes M (Suc a) bs)"

text \<open>The eight bytes of a pointer or counter in memory, and a C string with its terminating zero.\<close>

definition le_bytes :: "64 word \<Rightarrow> 8 word list" where
  "le_bytes w = map (\<lambda>i. ucast (drop_bit (8 * i) w)) [0..<8]"

definition c_string :: "string \<Rightarrow> 8 word list" where
  "c_string cs = map of_char cs @ [0]"

section \<open>A small machine\<close>

text \<open>
  A machine with regions of eight pages of 64 bytes, used to run the definitions on concrete inputs.
  Its allocator hands out zeroed blocks, and an access to a freed block faults.
\<close>

definition zero_info :: exc_info where
  "zero_info = \<lparr>i_code = OTHER_CODE 0, i_addr = 0, i_psr = 0, i_pc = 0, i_sp = 0, i_regs = replicate 8 0\<rparr>"

definition zero_pcb :: pcb where
  "zero_pcb = \<lparr>process_id = 0, ctx = K_none, brk = 0, reg0_pfn = 0, region0 = PT_NULL, free_vpn = 0,
     delay_ticks = 0, sp = 0, parent = NULL, children_head = NULL, children_tail = NULL,
     next_sibling = NULL, prev_sibling = NULL, exited_children_head = NULL, exited_children_tail = NULL,
     waiting = False, read_q_next = NULL, write_q_next = NULL\<rparr>"

definition zero_item :: queue_item where
  "zero_item = \<lparr>q_prev = NULL, q_proc = NULL, ticks_left = 0, q_next = NULL\<rparr>"

definition zero_exited :: exitedChild where
  "zero_exited = \<lparr>x_prev = NULL, x_parent = NULL, status = 0, x_process_id = 0, x_next = NULL\<rparr>"

definition zero_line :: line where
  "zero_line = \<lparr>content = 0, len = 0, read_i = 0, next_line = NULL\<rparr>"

definition zero_term :: tty_term where
  "zero_term = \<lparr>tty_id = 0, read_in = NULL, write_out = NULL, read_queue = NULL, write_queue = NULL, mutex = 0\<rparr>"

definition zero_pte :: pte where
  "zero_pte = \<lparr>pfn = 0, uprot = {}, kprot = {}, valid = False\<rparr>"

definition tiny_exe :: exe where
  "tiny_exe = \<lparr>li_status = LI_SUCCESS, text_size = 64, data_size = 8, bss_size = 4, li_entry = 64,
     image = replicate 72 7, read_ret = (\<lambda>n. 72)\<rparr>"

definition tiny :: machine where
  "tiny = \<lparr>PAGESHIFT = 6, PAGE_TABLE_LEN = 8, VMEM_0_BASE = 0, VMEM_0_LIMIT = 512, VMEM_1_BASE = 512,
     VMEM_1_LIMIT = 1024, KERNEL_STACK_PAGES = 2, KERNEL_STACK_BASE = 384, KERNEL_STACK_LIMIT = 512,
     USER_STACK_LIMIT = 384, MEM_INVALID_PAGES = 1, NUM_TERMINALS = 2, NUM_REGS = 8,
     TERMINAL_MAX_LINE = 16, kbrk_addr = 600, etext_addr = 560, fs = (\<lambda>n. Some tiny_exe),
     junk_pcb = (\<lambda>_. zero_pcb), junk_item = (\<lambda>_. zero_item), junk_exited = (\<lambda>_. zero_exited),
     junk_line = (\<lambda>_. zero_line), freed_item = (\<lambda>_. None), freed_exited = (\<lambda>_. None)\<rparr>"

lemma hw_layout_tiny: "hw_layout tiny"
  by (simp add: hw_layout_def tiny_def PAGESIZE_def)

text \<open>Memory as it is before the kernel runs, with sixteen free frames and no process.\<close>

definition blank :: kstate where
  "blank = \<lparr>freePages = replicate 16 PAGE_FREE, num_pages = 16, num_free_pages = 16,
     region0Pt = replicate 8 zero_pte, region1Pt = replicate 8 zero_pte,
     r1_tables = (\<lambda>_. replicate 8 zero_pte), frames = (\<lambda>_. replicate 64 0), currKernelBrk = 640,
     next_proc_id = 0, waiting_queue_head = NULL, waiting_queue_tail = NULL, queue_head = NULL,
     queue_tail = NULL, curr_proc = NULL, idle_pcb = NULL, queue_size = 0, waiting_queue_size = 0,
     terms = [zero_term, zero_term], vm_enabled = False, ticks_passed = 0, pcbs = (\<lambda>_. None),
     items = (\<lambda>_. None), exiteds = (\<lambda>_. None), lines = (\<lambda>_. None), heap_top = 1,
     reg_ptr0 = PT_NULL, reg_log = [], console = [], tty_log = []\<rparr>"

end
