(* ===== verification/Frames.thy ===== *)
theory Frames
  imports Machine
begin

text \<open>
  The physical frame allocator: \<open>buildFreePages\<close> (src/yalnix.c) and \<open>findFreePage\<close>,
  \<open>freePage\<close> (src/sharedvar.c), its interface as a locale, and the loops by which the kernel maps a
  run of pages to fresh frames.
\<close>

section \<open>Operations\<close>

definition buildFreePages :: "machine \<Rightarrow> 32 word \<Rightarrow> kstate \<Rightarrow> kstate" where
  "buildFreePages M pmem_size s =
     (let n = unat (drop_bit (PAGESHIFT M) (DOWN_TO_PAGE M (ucast pmem_size)))
      in s\<lparr>num_pages := n, num_free_pages := int n, freePages := replicate n PAGE_FREE\<rparr>)"

fun findFreePage_loop :: "nat list \<Rightarrow> kstate \<Rightarrow> (kstate \<times> int) res" where
  "findFreePage_loop [] s = Inr (s, - 1)"
| "findFreePage_loop (page # rest) s =
     rbind (aget (freePages s) (int page)) (\<lambda>st.
       if st = PAGE_FREE
       then rbind (set_freePages (int page) PAGE_USED s) (\<lambda>s.
            Inr (s\<lparr>num_free_pages := num_free_pages s - 1\<rparr>, int page))
       else findFreePage_loop rest s)"

definition findFreePage :: "kstate \<Rightarrow> (kstate \<times> int) res" where
  "findFreePage s = findFreePage_loop [0..<num_pages s] s"

definition freePage :: "int \<Rightarrow> kstate \<Rightarrow> kstate res" where
  "freePage f s =
     rbind (set_freePages f PAGE_FREE s) (\<lambda>s.
     Inr (s\<lparr>num_free_pages := num_free_pages s + 1\<rparr>))"

section \<open>The frames that are free, in the order in which they are handed out\<close>

definition free_list :: "kstate \<Rightarrow> nat list" where
  "free_list s = filter (\<lambda>p. freePages s ! p = PAGE_FREE) [0..<num_pages s]"

definition frames_wf :: "kstate \<Rightarrow> bool" where
  "frames_wf s \<longleftrightarrow> length (freePages s) = num_pages s"

definition take_frame :: "nat \<Rightarrow> kstate \<Rightarrow> kstate" where
  "take_frame p s = s\<lparr>freePages := (freePages s)[p := PAGE_USED], num_free_pages := num_free_pages s - 1\<rparr>"

text \<open>The counter \<open>num_free_pages\<close> agrees with the table of frames.\<close>

definition frames_counted :: "kstate \<Rightarrow> bool" where
  "frames_counted s \<longleftrightarrow> num_free_pages s = int (length (free_list s))"

lemma distinct_free_list [simp]: "distinct (free_list s)"
  by (simp add: free_list_def)

lemma sorted_free_list [simp]: "sorted (free_list s)"
  by (simp add: free_list_def sorted_wrt_filter)

lemma set_free_list:
  "p \<in> set (free_list s) \<longleftrightarrow> p < num_pages s \<and> freePages s ! p = PAGE_FREE"
  by (auto simp: free_list_def)

lemma findFreePage_loop_eq:
  assumes "\<forall>p\<in>set ps. p < length (freePages s)"
  shows "findFreePage_loop ps s =
    (case filter (\<lambda>p. freePages s ! p = PAGE_FREE) ps of [] \<Rightarrow> Inr (s, - 1)
       | p # _ \<Rightarrow> Inr (take_frame p s, int p))"
  using assms by (induction ps) (auto simp: set_freePages_def take_frame_def)

lemma findFreePage_eq:
  assumes "frames_wf s"
  shows "findFreePage s =
    (case free_list s of [] \<Rightarrow> Inr (s, - 1) | p # _ \<Rightarrow> Inr (take_frame p s, int p))"
  unfolding findFreePage_def free_list_def
  by (rule findFreePage_loop_eq) (use assms in \<open>simp add: frames_wf_def\<close>)

lemma take_frame_wf [simp]: "frames_wf (take_frame p s) = frames_wf s"
  by (simp add: frames_wf_def take_frame_def)

lemma filter_tl_distinct:
  assumes "filter P xs = p # ps" "distinct xs"
  shows "filter (\<lambda>q. q \<noteq> p \<and> P q) xs = ps"
proof -
  have "distinct (p # ps)" using assms by (metis distinct_filter)
  have "filter (\<lambda>q. q \<noteq> p \<and> P q) xs = filter (\<lambda>q. q \<noteq> p) (filter P xs)"
    by (simp add: conj_commute)
  also have "\<dots> = ps"
    using \<open>distinct (p # ps)\<close> by (simp add: assms(1)) (metis (mono_tags, lifting) filter_True)
  finally show ?thesis .
qed

lemma free_list_take_frame:
  assumes "frames_wf s" "free_list s = p # ps"
  shows "free_list (take_frame p s) = ps"
proof -
  have p: "p < length (freePages s)"
    using assms set_free_list [of p s] by (simp add: frames_wf_def)
  have "free_list (take_frame p s)
      = filter (\<lambda>q. q \<noteq> p \<and> freePages s ! q = PAGE_FREE) [0..<num_pages s]"
    unfolding free_list_def take_frame_def
    by (rule filter_cong) (use p assms(1) in \<open>auto simp: nth_list_update frames_wf_def\<close>)
  also have "\<dots> = ps"
    by (rule filter_tl_distinct) (use assms(2) in \<open>simp_all add: free_list_def\<close>)
  finally show ?thesis .
qed

text \<open>Whatever the table looks like, the allocator touches nothing but the table and the counter.\<close>

definition only_frames :: "kstate \<Rightarrow> kstate \<Rightarrow> bool" where
  "only_frames s s' \<longleftrightarrow> s' = s\<lparr>freePages := freePages s', num_free_pages := num_free_pages s'\<rparr>"

lemma findFreePage_loop_only: "findFreePage_loop ps s = Inr (s', p) \<Longrightarrow> only_frames s s'"
  by (induction ps) (auto simp: only_frames_def set_freePages_def elim!: rbind_OkE split: if_splits)

lemma findFreePage_only: "findFreePage s = Inr (s', p) \<Longrightarrow> only_frames s s'"
  by (simp add: findFreePage_def findFreePage_loop_only)

lemma freePage_only: "freePage f s = Inr s' \<Longrightarrow> only_frames s s'"
  by (auto simp: only_frames_def freePage_def set_freePages_def elim!: rbind_OkE)

lemma only_frames_trans: "only_frames s t \<Longrightarrow> only_frames t u \<Longrightarrow> only_frames s u"
proof -
  assume st: "only_frames s t" and tu: "only_frames t u"
  obtain a b where "t = s\<lparr>freePages := a, num_free_pages := b\<rparr>" using st unfolding only_frames_def by blast
  moreover obtain c d where "u = t\<lparr>freePages := c, num_free_pages := d\<rparr>" using tu unfolding only_frames_def by blast
  ultimately show "only_frames s u" by (simp add: only_frames_def)
qed

section \<open>The interface of a frame allocator\<close>

text \<open>
  What the clients of \<open>findFreePage\<close> rely on: it hands out the available frames in a fixed order,
  each of them once, and answers \<open>- 1\<close> without any effect when there is none left.
\<close>

locale frame_allocator =
  fixes alloc :: "'s \<Rightarrow> ('s \<times> int) res"
    and avail :: "'s \<Rightarrow> nat list"
    and inv :: "'s \<Rightarrow> bool"
  assumes alloc_hit:
      "inv s \<Longrightarrow> avail s = p # ps \<Longrightarrow>
         \<exists>s'. alloc s = Inr (s', int p) \<and> avail s' = ps \<and> inv s'"
    and alloc_miss: "inv s \<Longrightarrow> avail s = [] \<Longrightarrow> alloc s = Inr (s, - 1)"
    and avail_distinct: "inv s \<Longrightarrow> distinct (avail s)"
begin

lemma alloc_total: "inv s \<Longrightarrow> \<exists>s' p. alloc s = Inr (s', p) \<and> inv s'"
  by (cases "avail s") (auto dest: alloc_hit alloc_miss)

lemma alloc_fresh:
  assumes "inv s" "alloc s = Inr (s', int p)"
  shows "p \<in> set (avail s) \<and> p \<notin> set (avail s')"
proof (cases "avail s")
  case Nil
  with assms alloc_miss [of s] show ?thesis by simp
next
  case (Cons q qs)
  with assms(1) obtain t where "alloc s = Inr (t, int q)" "avail t = qs"
    using alloc_hit by blast
  with assms Cons avail_distinct [of s] show ?thesis by auto
qed

end

text \<open>
  Mapping one page: a frame is allocated and recorded in entry \<open>i\<close> of a table. A loop that does
  this for a sequence of entries gives them the first available frames in order.
\<close>

locale page_mapper = frame_allocator alloc avail inv
  for alloc :: "'s \<Rightarrow> ('s \<times> int) res" and avail :: "'s \<Rightarrow> nat list" and inv :: "'s \<Rightarrow> bool" +
  fixes put :: "nat \<Rightarrow> int \<Rightarrow> 's \<Rightarrow> 's res"
    and entry :: "'s \<Rightarrow> nat \<Rightarrow> 'e"
    and mk :: "int \<Rightarrow> 'e \<Rightarrow> 'e"
    and len :: nat
  assumes put_ok:
      "inv s \<Longrightarrow> i < len \<Longrightarrow> \<exists>s'. put i p s = Inr s' \<and> inv s' \<and> avail s' = avail s \<and>
         entry s' = (entry s)(i := mk p (entry s i))"
    and alloc_entry: "inv s \<Longrightarrow> alloc s = Inr (s', p) \<Longrightarrow> entry s' = entry s"
begin

definition map_page :: "nat \<Rightarrow> 's \<Rightarrow> 's res" where
  "map_page i s = rbind (alloc s) (\<lambda>(s, p). put i p s)"

lemma map_page_hit:
  assumes "inv s" "avail s = p # ps" "i < len"
  shows "\<exists>s'. map_page i s = Inr s' \<and> inv s' \<and> avail s' = ps \<and>
    entry s' = (entry s)(i := mk (int p) (entry s i))"
proof -
  obtain t where t: "alloc s = Inr (t, int p)" "avail t = ps" "inv t"
    using alloc_hit [OF assms(1,2)] by blast
  moreover have "entry t = entry s" by (rule alloc_entry [OF assms(1) t(1)])
  ultimately show ?thesis using put_ok [OF t(3) assms(3), of "int p"] by (auto simp: map_page_def)
qed

lemma map_page_miss:
  assumes "inv s" "avail s = []" "i < len"
  shows "\<exists>s'. map_page i s = Inr s' \<and> inv s' \<and> avail s' = [] \<and> entry s' = (entry s)(i := mk (- 1) (entry s i))"
  using put_ok [OF assms(1,3), of "- 1"] alloc_miss [OF assms(1,2)] assms(2) by (auto simp: map_page_def)

text \<open>The callers do not test the answer: once no frame is left the entries get the number \<open>- 1\<close>.\<close>

lemma map_pages_any:
  assumes "inv s" "distinct is" "set is \<subseteq> {..<len}"
  shows "\<exists>s'. fold_res map_page is s = Inr s' \<and> inv s' \<and> avail s' = drop (length is) (avail s) \<and>
    (\<forall>k<length is. entry s' (is ! k) = mk (if k < length (avail s) then int (avail s ! k) else - 1) (entry s (is ! k))) \<and>
    (\<forall>i. i \<notin> set is \<longrightarrow> entry s' i = entry s i)"
  using assms
proof (induction "is" arbitrary: s)
  case (Cons i "is")
  obtain t where t: "map_page i s = Inr t" "inv t" "avail t = drop 1 (avail s)"
      "entry t = (entry s)(i := mk (if avail s = [] then - 1 else int (hd (avail s))) (entry s i))"
    using map_page_hit [of s "hd (avail s)" "tl (avail s)" i] map_page_miss [of s i] Cons.prems
    by (cases "avail s") auto
  from Cons.IH [of t] Cons.prems t obtain s' where s': "fold_res map_page is t = Inr s'" "inv s'"
      "avail s' = drop (length is) (avail t)"
      "\<forall>k<length is. entry s' (is ! k) = mk (if k < length (avail t) then int (avail t ! k) else - 1) (entry t (is ! k))"
      "\<forall>j. j \<notin> set is \<longrightarrow> entry s' j = entry t j"
    by auto
  have "entry s' ((i # is) ! k) = mk (if k < length (avail s) then int (avail s ! k) else - 1) (entry s ((i # is) ! k))"
    if "k < length (i # is)" for k
    using that s'(4,5) t(3,4) Cons.prems(2) by (cases k; cases "avail s") auto
  then show ?case using s' t by (intro exI [of _ s']) auto
qed simp

lemma map_pages:
  assumes "inv s" "distinct is" "set is \<subseteq> {..<len}" "length is \<le> length (avail s)"
  shows "\<exists>s'. fold_res map_page is s = Inr s' \<and> inv s' \<and> avail s' = drop (length is) (avail s) \<and>
    (\<forall>k<length is. entry s' (is ! k) = mk (int (avail s ! k)) (entry s (is ! k))) \<and>
    (\<forall>i. i \<notin> set is \<longrightarrow> entry s' i = entry s i)"
  using map_pages_any [OF assms(1-3)] assms(4) by fastforce

end

interpretation findFreePage: frame_allocator findFreePage free_list frames_wf
proof
  fix s p ps
  assume "frames_wf s" "free_list s = p # ps"
  then show "\<exists>s'. findFreePage s = Inr (s', int p) \<and> free_list s' = ps \<and> frames_wf s'"
    by (simp add: findFreePage_eq free_list_take_frame)
qed (simp_all add: findFreePage_eq)

section \<open>Properties of the allocator\<close>

lemma length_free_list_eq:
  assumes "frames_wf s"
  shows "length (free_list s) = length (filter (\<lambda>x. x = PAGE_FREE) (freePages s))"
proof -
  have "free_list s = filter (\<lambda>p. freePages s ! p = PAGE_FREE) [0..<length (freePages s)]"
    using assms by (simp add: free_list_def frames_wf_def)
  moreover have "filter (\<lambda>x. x = PAGE_FREE) (freePages s)
      = map ((!) (freePages s)) (filter (\<lambda>p. freePages s ! p = PAGE_FREE) [0..<length (freePages s)])"
    by (subst (1) map_nth [symmetric]) (simp add: filter_map comp_def)
  ultimately show ?thesis by simp
qed

lemma freePage_Ok:
  assumes "f < length (freePages s)"
  shows "freePage (int f) s =
    Inr (s\<lparr>freePages := (freePages s)[f := PAGE_FREE], num_free_pages := num_free_pages s + 1\<rparr>)"
  using assms by (simp add: freePage_def set_freePages_def)

lemma blank_frames:
  "frames_wf blank" "free_list blank = [0..<16]" "frames_counted blank"
  by (auto simp: frames_wf_def frames_counted_def free_list_def blank_def filter_id_conv)

lemma blank_findFreePage: "findFreePage blank = Inr (take_frame 0 blank, 0)"
  by (simp add: findFreePage_eq blank_frames upt_conv_Cons)

lemma free_list_freed:
  assumes "frames_wf s" "f < num_pages s" "freePages s ! f = PAGE_USED" "freePage (int f) s = Inr s'"
  shows "frames_wf s'" "length (free_list s') = Suc (length (free_list s))"
    "num_free_pages s' = num_free_pages s + 1"
proof -
  have f: "f < length (freePages s)" using assms by (simp add: frames_wf_def)
  have s': "s' = s\<lparr>freePages := (freePages s)[f := PAGE_FREE], num_free_pages := num_free_pages s + 1\<rparr>"
    using freePage_Ok [OF f] assms(4) by simp
  show wf: "frames_wf s'" using assms(1) s' by (simp add: frames_wf_def)
  show "length (free_list s') = Suc (length (free_list s))"
    unfolding length_free_list_eq [OF wf] length_free_list_eq [OF assms(1)]
    using f assms(3) s' filter_update_count_inc [of f "freePages s" "\<lambda>x. x = PAGE_FREE" PAGE_FREE] by simp
  show "num_free_pages s' = num_free_pages s + 1" using s' by simp
qed

lemma findFreePage_counted:
  assumes "frames_wf s" "findFreePage s = Inr (s', p)"
  shows "frames_wf s'" "num_free_pages s' - int (length (free_list s')) = num_free_pages s - int (length (free_list s))"
proof -
  show "frames_wf s'" using assms by (auto simp: findFreePage_eq split: list.splits)
  show "num_free_pages s' - int (length (free_list s')) = num_free_pages s - int (length (free_list s))"
  proof (cases "free_list s")
    case Nil
    with assms show ?thesis by (simp add: findFreePage_eq)
  next
    case (Cons q qs)
    with assms free_list_take_frame [OF assms(1) Cons] have "s' = take_frame q s" "free_list s' = qs"
      by (simp_all add: findFreePage_eq)
    with Cons show ?thesis by (simp add: take_frame_def)
  qed
qed

lemma find_filter: "List.find P xs = (case filter P xs of [] \<Rightarrow> None | x # _ \<Rightarrow> Some x)"
  by (induction xs) auto

text \<open>C20: \<open>findFreePage\<close> is first fit. It returns the lowest free frame, marks exactly this frame used
  and lowers the counter of free frames by one; if every frame is in use it returns -1 and changes
  nothing.\<close>

theorem findFreePage_first_fit:
  assumes "length (freePages s) = num_pages s"
  shows "findFreePage s =
    (case List.find (\<lambda>p. freePages s ! p = PAGE_FREE) [0..<num_pages s] of
       None \<Rightarrow> Inr (s, - 1)
     | Some p \<Rightarrow>
         Inr (s\<lparr>freePages := (freePages s)[p := PAGE_USED], num_free_pages := num_free_pages s - 1\<rparr>, int p))"
proof -
  have "frames_wf s" using assms by (simp add: frames_wf_def)
  then show ?thesis
    by (simp add: findFreePage_eq find_filter free_list_def take_frame_def split: list.split)
qed

theorem findFreePage_first_fit_witness:
  "findFreePage (blank\<lparr>num_pages := 2, freePages := [PAGE_USED, PAGE_FREE]\<rparr>)
     = Inr (blank\<lparr>num_pages := 2, freePages := [PAGE_USED, PAGE_USED], num_free_pages := 15\<rparr>, 1) \<and>
   findFreePage (blank\<lparr>num_pages := 1, freePages := [PAGE_USED]\<rparr>)
     = Inr (blank\<lparr>num_pages := 1, freePages := [PAGE_USED]\<rparr>, - 1)"
  using findFreePage_first_fit [of "blank\<lparr>num_pages := 2, freePages := [PAGE_USED, PAGE_FREE]\<rparr>"]
    findFreePage_first_fit [of "blank\<lparr>num_pages := 1, freePages := [PAGE_USED]\<rparr>"]
  by (simp add: blank_def upt_conv_Cons numeral_2_eq_2)

text \<open>C33: allocating a frame and freeing it again restores the state exactly.\<close>

theorem findFreePage_freePage_roundtrip:
  assumes "length (freePages s) = num_pages s" "findFreePage s = Inr (s', f)" "0 \<le> f"
  shows "freePage f s' = Inr s"
proof -
  have wf: "frames_wf s" using assms(1) by (simp add: frames_wf_def)
  obtain p ps where p: "free_list s = p # ps"
    using assms(2,3) by (cases "free_list s") (auto simp: findFreePage_eq [OF wf])
  then have "s' = take_frame p s" "f = int p" using assms(2) by (simp_all add: findFreePage_eq [OF wf])
  moreover have "p < length (freePages s)" "freePages s ! p = PAGE_FREE"
    using set_free_list [of p s] p assms(1) by simp_all
  ultimately show ?thesis by (simp add: take_frame_def freePage_Ok list_update_same_conv)
qed

theorem findFreePage_freePage_roundtrip_witness:
  "freePage 0 (take_frame 0 blank) = Inr blank"
  by (rule findFreePage_freePage_roundtrip [OF _ blank_findFreePage]) (simp_all add: blank_def)

text \<open>The states of the allocator: it is built, frames are allocated, and frames in use are freed.\<close>

inductive frame_reach :: "machine \<Rightarrow> kstate \<Rightarrow> bool" for M where
  built: "frame_reach M (buildFreePages M n s)"
| allocated: "frame_reach M s \<Longrightarrow> findFreePage s = Inr (s', p) \<Longrightarrow> frame_reach M s'"
| released: "frame_reach M s \<Longrightarrow> f < num_pages s \<Longrightarrow> freePages s ! f = PAGE_USED \<Longrightarrow>
    freePage (int f) s = Inr s' \<Longrightarrow> frame_reach M s'"

lemma buildFreePages_counted: "frames_wf (buildFreePages M n s)" "frames_counted (buildFreePages M n s)"
proof -
  show wf: "frames_wf (buildFreePages M n s)" by (simp add: frames_wf_def buildFreePages_def Let_def)
  show "frames_counted (buildFreePages M n s)"
    unfolding frames_counted_def length_free_list_eq [OF wf] by (simp add: buildFreePages_def Let_def)
qed

text \<open>C17: the frame counter. After \<open>buildFreePages\<close> and any sequence of \<open>findFreePage\<close> and of \<open>freePage\<close>
  on frames in use, the table has an entry for every frame and \<open>num_free_pages\<close> is the number of free
  frames.\<close>

theorem frame_accounting:
  assumes "frame_reach M s"
  shows "length (freePages s) = num_pages s \<and>
    num_free_pages s = int (length (filter (\<lambda>st. st = PAGE_FREE) (freePages s)))"
proof -
  have "frames_wf s \<and> frames_counted s"
    using assms
  proof induction
    case (allocated s s' p)
    then show ?case using findFreePage_counted [of s s' p] by (simp add: frames_counted_def)
  next
    case (released s f s')
    then show ?case using free_list_freed [of s f s'] by (simp add: frames_counted_def)
  qed (simp add: buildFreePages_counted)
  then show ?thesis by (simp add: frames_counted_def length_free_list_eq) (simp add: frames_wf_def)
qed

theorem frame_accounting_witness:
  "\<exists>s'. findFreePage (buildFreePages tiny 1024 blank) = Inr (s', 0) \<and> length (freePages s') = num_pages s' \<and>
    num_free_pages s' = int (length (filter (\<lambda>st. st = PAGE_FREE) (freePages s')))"
proof -
  let ?s = "buildFreePages tiny 1024 blank"
  have f: "freePages ?s = replicate 16 PAGE_FREE" "num_pages ?s = 16"
    by (simp_all add: buildFreePages_def tiny_def DOWN_TO_PAGE_def Let_def)
  then have "free_list ?s = 0 # [1..<16]" by (auto simp: free_list_def filter_id_conv upt_conv_Cons)
  then have "findFreePage ?s = Inr (take_frame 0 ?s, 0)"
    by (simp add: findFreePage_eq buildFreePages_counted)
  with frame_accounting [OF allocated [OF built this]] show ?thesis by blast
qed

text \<open>Freeing a frame that is already free makes the counter exceed the number of free frames by
  one: \<open>freePage\<close> does not look at the status of the frame.\<close>

lemma freePage_double_free:
  assumes "frames_wf s" "frames_counted s" "f < num_pages s" "freePages s ! f = PAGE_FREE"
  shows "\<exists>s'. freePage (int f) s = Inr s' \<and> free_list s' = free_list s \<and>
    num_free_pages s' = int (length (free_list s')) + 1"
proof -
  have f: "f < length (freePages s)" using assms by (simp add: frames_wf_def)
  have "(freePages s)[f := PAGE_FREE] = freePages s" using assms(4) f by (simp add: list_update_same_conv)
  then show ?thesis using assms(2) freePage_Ok [OF f] by (simp add: frames_counted_def free_list_def)
qed

lemma freePage_double_free_witness:
  "\<exists>s'. freePage 3 blank = Inr s' \<and> free_list s' = free_list blank \<and>
     num_free_pages s' = int (length (free_list s')) + 1"
proof -
  have "3 < num_pages blank" "freePages blank ! 3 = PAGE_FREE" by (simp_all add: blank_def)
  from freePage_double_free [OF blank_frames(1,3) this] show ?thesis by simp
qed

end
