(* ===== verification/DLists.thy ===== *)
theory DLists
  imports Prelude
begin

text \<open>
  Linked lists on a heap. The kernel keeps four kinds of them (ready queue, delay queue, children of
  a process, exited children), all with a link to the next and to the previous cell. A cell type
  enters through the two link fields and their updates, whose laws are the assumptions of the locale
  \<open>link_cell\<close>; the lemmas about inserting at the tail and unlinking a cell are proved once here.

  The previous link of the first cell is left open: the kernel does not always write it, and never
  follows it.
\<close>

text \<open>Where a list leads to at its end, and what precedes the cells after it.\<close>

definition lead :: "nat list \<Rightarrow> ptr \<Rightarrow> ptr" where
  "lead as n = (case as of [] \<Rightarrow> n | b # _ \<Rightarrow> Some b)"

definition behind :: "ptr \<Rightarrow> nat list \<Rightarrow> ptr" where
  "behind p as = (if as = [] then p else Some (last as))"

lemma lead_simps [simp]: "lead [] n = n" "lead (b # bs) n = Some b" "lead (as @ bs) n = lead as (lead bs n)"
  by (simp_all add: lead_def split: list.split)

lemma behind_simps [simp]: "behind p [] = p" "behind p (a # as) = behind (Some a) as" "behind p (as @ bs) = behind (behind p as) bs"
  by (simp_all add: behind_def)

locale link_cell =
  fixes nxt :: "'c \<Rightarrow> ptr" and prv :: "'c \<Rightarrow> ptr"
    and set_nxt :: "ptr \<Rightarrow> 'c \<Rightarrow> 'c" and set_prv :: "ptr \<Rightarrow> 'c \<Rightarrow> 'c"
  assumes nxt_set_nxt [simp]: "nxt (set_nxt p c) = p"
    and prv_set_nxt [simp]: "prv (set_nxt p c) = prv c"
    and nxt_set_prv [simp]: "nxt (set_prv p c) = nxt c"
    and prv_set_prv [simp]: "prv (set_prv p c) = p"
begin

text \<open>
  \<open>dseg h p as n\<close>: the cells \<open>as\<close> are linked in this order, the last one leads to \<open>n\<close>, and the first
  one leads back to \<open>p\<close> when \<open>p\<close> is a cell.
\<close>

fun dseg :: "'c heap \<Rightarrow> ptr \<Rightarrow> nat list \<Rightarrow> ptr \<Rightarrow> bool" where
  "dseg h p [] n \<longleftrightarrow> True"
| "dseg h p (a # as) n \<longleftrightarrow>
     (\<exists>c. h a = Some c \<and> (p \<noteq> NULL \<longrightarrow> prv c = p) \<and>
        nxt c = lead as n \<and> dseg h (Some a) as n)"

lemma dseg_append [simp]:
  "dseg h p (as @ bs) n \<longleftrightarrow> dseg h p as (lead bs n) \<and> dseg h (behind p as) bs n"
  by (induction as arbitrary: p) auto

lemma dseg_upd_other [simp]: "a \<notin> set as \<Longrightarrow> dseg (h(a := x)) p as n = dseg h p as n"
  by (induction as arbitrary: p) auto

lemma dseg_cong: "(\<And>a. a \<in> set as \<Longrightarrow> h a = h' a) \<Longrightarrow> dseg h p as n = dseg h' p as n"
  by (induction as arbitrary: p) auto

lemma dseg_links:
  assumes "\<And>a. a \<in> set as \<Longrightarrow> map_option (\<lambda>c. (nxt c, prv c)) (h' a) = map_option (\<lambda>c. (nxt c, prv c)) (h a)"
    and "dseg h p as n"
  shows "dseg h' p as n"
  using assms
proof (induction as arbitrary: p)
  case (Cons a as)
  then obtain c where c: "h a = Some c" "p \<noteq> NULL \<longrightarrow> prv c = p" "nxt c = lead as n" "dseg h (Some a) as n" by auto
  then obtain c' where "h' a = Some c'" "nxt c' = nxt c" "prv c' = prv c"
    using Cons.prems(1) [of a] by auto
  with c Cons show ?case by auto
qed simp

lemma dseg_alloc: "dseg h p as n \<Longrightarrow> a \<in> set as \<Longrightarrow> \<exists>c. h a = Some c"
  by (induction as arbitrary: p) auto

lemma dseg_alloc_bound:
  assumes "dseg h p as n" "\<forall>a\<ge>lim. h a = None"
  shows "lim \<notin> set as"
  using dseg_alloc [OF assms(1), of lim] assms(2) by auto

text \<open>The whole list, from the head to a cell whose next link is \<open>NULL\<close>.\<close>

definition dlist :: "'c heap \<Rightarrow> nat list \<Rightarrow> bool" where
  "dlist h as \<longleftrightarrow> dseg h NULL as NULL \<and> distinct as"

lemma dlist_Nil [simp]: "dlist h []"
  by (simp add: dlist_def)

lemma dlist_next:
  assumes "dlist h (as @ a # bs)" "h a = Some c"
  shows "nxt c = lead bs NULL"
  using assms by (auto simp: dlist_def)

lemma dlist_prev:
  assumes "dlist h (as @ [b, a] @ bs)" "h a = Some c"
  shows "prv c = Some b"
  using assms by (auto simp: dlist_def)

lemma dlist_upd_other [simp]: "a \<notin> set as \<Longrightarrow> dlist (h(a := x)) as = dlist h as"
  by (simp add: dlist_def)

text \<open>Changing the contents of a cell but not its links.\<close>

lemma dseg_upd_same:
  assumes "h a = Some c" "nxt c' = nxt c" "prv c' = prv c"
  shows "dseg (h(a \<mapsto> c')) p as n = dseg h p as n"
  using assms by (induction as arbitrary: p) auto

lemma dlist_upd_same:
  assumes "h a = Some c" "nxt c' = nxt c" "prv c' = prv c"
  shows "dlist (h(a \<mapsto> c')) as = dlist h as"
  unfolding dlist_def using assms by (subst dseg_upd_same [where c = c]) simp_all

section \<open>Insertion at the tail\<close>

lemma dlist_single:
  assumes "h a = Some c" "nxt c = NULL"
  shows "dlist h [a]"
  using assms by (simp add: dlist_def)

lemma dlist_snoc:
  assumes "dlist h (as @ [b])" "h b = Some cb" "h a = Some ca" "nxt ca = NULL" "a \<notin> set (as @ [b])"
  shows "dlist (h(b \<mapsto> set_nxt (Some a) cb, a \<mapsto> set_prv (Some b) ca)) (as @ [b, a])"
  using assms by (auto simp: dlist_def)

section \<open>Unlinking\<close>

lemma dlist_unlink_head:
  assumes "dlist h (a # b # bs)" "h b = Some cb"
  shows "dlist (h(b \<mapsto> set_prv p cb)) (b # bs)"
  using assms by (cases bs) (auto simp: dlist_def)

lemma dlist_unlink_tail:
  assumes "dlist h (as @ [b, a])" "h b = Some cb"
  shows "dlist (h(b \<mapsto> set_nxt NULL cb)) (as @ [b])"
  using assms by (auto simp: dlist_def)

lemma dlist_unlink_middle:
  assumes "dlist h (as @ [b, a, c] @ bs)" "h b = Some cb" "h c = Some cc"
  shows "dlist (h(b \<mapsto> set_nxt (Some c) cb, c \<mapsto> set_prv (Some b) cc)) (as @ [b, c] @ bs)"
  using assms by (auto simp: dlist_def)

end

text \<open>
  A singly linked queue in which the next link of the last cell is open as well: the shape of the
  ready queue, whose cells are linked only when a successor arrives.
\<close>

locale forward_cell =
  fixes fwd :: "'c \<Rightarrow> ptr" and set_fwd :: "ptr \<Rightarrow> 'c \<Rightarrow> 'c"
  assumes fwd_set_fwd [simp]: "fwd (set_fwd p c) = p"
begin

fun fseg :: "'c heap \<Rightarrow> nat list \<Rightarrow> bool" where
  "fseg h [] \<longleftrightarrow> True"
| "fseg h (a # as) \<longleftrightarrow>
     (\<exists>c. h a = Some c \<and> (as \<noteq> [] \<longrightarrow> fwd c = Some (hd as))) \<and> fseg h as"

lemma fseg_upd_other [simp]: "a \<notin> set as \<Longrightarrow> fseg (h(a := x)) as = fseg h as"
  by (induction as) auto

lemma fseg_cong: "(\<And>a. a \<in> set as \<Longrightarrow> h a = h' a) \<Longrightarrow> fseg h as = fseg h' as"
  by (induction as) auto

lemma fseg_alloc: "fseg h as \<Longrightarrow> a \<in> set as \<Longrightarrow> \<exists>c. h a = Some c"
  by (induction as) auto

lemma fseg_append:
  "fseg h (as @ bs) \<longleftrightarrow> fseg h as \<and> fseg h bs \<and>
     (as \<noteq> [] \<and> bs \<noteq> [] \<longrightarrow> (\<exists>c. h (last as) = Some c \<and> fwd c = Some (hd bs)))"
proof (induction as)
  case (Cons a as)
  then show ?case by (cases as) auto
qed simp

lemma fseg_upd_same:
  assumes "h a = Some c" "fwd c' = fwd c"
  shows "fseg (h(a \<mapsto> c')) as = fseg h as"
  using assms by (induction as) auto

lemma fseg_snoc:
  assumes "fseg h (as @ [b])" "h b = Some cb" "h a = Some ca" "distinct (as @ [b, a])"
  shows "fseg (h(b \<mapsto> set_fwd (Some a) cb)) (as @ [b, a])"
proof (cases "as = []")
  case False
  then have "last as \<in> set as" by simp
  with assms have "last as \<noteq> b" by auto
  with assms show ?thesis by (auto simp: fseg_append)
qed (use assms in auto)

end

end
