(* ===== verification/Queues.thy ===== *)
theory Queues
  imports Machine DLists
begin

text \<open>
  The ready queue and the delay ("waiting") queue of src/sharedvar.c as pointer programs on the heap
  of \<open>queue_item\<close> cells, and their refinement of queues that are lists of processes.
\<close>

section \<open>The ready queue\<close>

definition PushProcToQueue :: "machine \<Rightarrow> ptr \<Rightarrow> kstate \<Rightarrow> kstate res" where
  "PushProcToQueue M proc s =
     rbind (rd_pcb s proc) (\<lambda>_.
     let new = Some (heap_top s) in
     rbind (wr_item new (q_proc_update (\<lambda>_. proc)) (malloc_item M s)) (\<lambda>s.
     rbind (if queue_size s = 0
            then Inr (s\<lparr>queue_head := new, queue_tail := new\<rparr>)
            else rbind (wr_item (queue_tail s) (q_next_update (\<lambda>_. new)) s) (\<lambda>s.
                 Inr (s\<lparr>queue_tail := new\<rparr>))) (\<lambda>s.
     Inr (s\<lparr>queue_size := queue_size s + 1\<rparr>))))"

definition RemoveItemFromReadyQueue :: "machine \<Rightarrow> ptr \<Rightarrow> kstate \<Rightarrow> kstate res" where
  "RemoveItemFromReadyQueue M item s =
     rbind (rd_item s item) (\<lambda>i.
     rbind (rd_pcb s (q_proc i)) (\<lambda>_.
     let s = s\<lparr>queue_size := queue_size s - 1\<rparr> in
     rbind (if queue_head s = item \<and> queue_tail s = item
            then Inr (s\<lparr>queue_head := NULL, queue_tail := NULL\<rparr>)
            else if queue_head s = item
            then (let s = s\<lparr>queue_head := q_next i\<rparr>
                  in wr_item (queue_head s) (q_prev_update (\<lambda>_. NULL)) s)
            else if queue_tail s = item
            then (let s = s\<lparr>queue_tail := q_prev i\<rparr>
                  in wr_item (queue_tail s) (q_next_update (\<lambda>_. NULL)) s)
            else rbind (wr_item (q_prev i) (q_next_update (\<lambda>_. q_next i)) s) (\<lambda>s.
                 rbind (rd_item s item) (\<lambda>i.
                 wr_item (q_next i) (q_prev_update (\<lambda>_. q_prev i)) s))) (\<lambda>s.
     free_item M item s)))"

text \<open>
  The loop goes on from the item it has just removed, which \<open>RemoveItemFromReadyQueue\<close> has freed.
\<close>

definition RemoveProcFromReadyQueue :: "machine \<Rightarrow> ptr \<Rightarrow> kstate \<Rightarrow> kstate res" where
  "RemoveProcFromReadyQueue M proc s =
     rbind (rd_pcb s proc) (\<lambda>_.
     rbind (while_res (\<lambda>(s, curr_proc_item). curr_proc_item \<noteq> NULL)
       (\<lambda>(s, curr_proc_item).
          rbind (rd_item s curr_proc_item) (\<lambda>i.
          rbind (rd_pcb s (q_proc i)) (\<lambda>current_proc.
          rbind (rd_pcb s proc) (\<lambda>p.
          rbind (if process_id current_proc = process_id p
                 then RemoveItemFromReadyQueue M curr_proc_item s else Inr s) (\<lambda>s.
          rbind (rd_item s curr_proc_item) (\<lambda>i. Inr (s, q_next i)))))))
       (s, queue_head s)) (\<lambda>(s, _). Inr s))"

definition FindReadyPcb :: "machine \<Rightarrow> kstate \<Rightarrow> (kstate \<times> ptr) res" where
  "FindReadyPcb M s =
     (if queue_size s = 0 then Inr (s, idle_pcb s)
      else rbind (rd_item s (queue_head s)) (\<lambda>i.
           rbind (rd_pcb s (q_proc i)) (\<lambda>_.
           rbind (rd_pcb s (curr_proc s)) (\<lambda>_.
           rbind (RemoveItemFromReadyQueue M (queue_head s) s) (\<lambda>s.
           Inr (s, q_proc i))))))"

definition SetNextProc :: "machine \<Rightarrow> kstate \<Rightarrow> (kstate \<times> int) res" where
  "SetNextProc M s =
     (if queue_size s = 0 then Inr (s, - 1)
      else rbind (rd_item s (queue_head s)) (\<lambda>i.
           rbind (rd_pcb s (q_proc i)) (\<lambda>_.
           rbind (rd_pcb s (curr_proc s)) (\<lambda>_.
           rbind (PushProcToQueue M (curr_proc s) s) (\<lambda>s.
           rbind (rd_item s (queue_head s)) (\<lambda>i.
           Inr (s\<lparr>curr_proc := q_proc i, queue_head := q_next i, queue_size := queue_size s - 1\<rparr>, 1)))))))"

section \<open>The delay queue\<close>

text \<open>
  \<open>PushProcToWaitingQueue\<close> is not called by the kernel. It mixes up the two queues: the tail of the
  delay queue becomes the head of the ready queue, and the previous link the tail of the ready queue.
\<close>

definition PushProcToWaitingQueue :: "machine \<Rightarrow> ptr \<Rightarrow> kstate \<Rightarrow> kstate res" where
  "PushProcToWaitingQueue M proc s =
     rbind (rd_pcb s proc) (\<lambda>p.
     let new = Some (heap_top s) in
     rbind (wr_item new (\<lambda>i. i\<lparr>q_proc := proc, ticks_left := delay_ticks p, q_next := NULL\<rparr>)
              (malloc_item M s)) (\<lambda>s.
     rbind (if waiting_queue_size s = 0
            then Inr (s\<lparr>waiting_queue_head := new, waiting_queue_tail := queue_head s\<rparr>)
            else rbind (wr_item (waiting_queue_tail s) (q_next_update (\<lambda>_. new)) s) (\<lambda>s.
                 rbind (wr_item new (q_prev_update (\<lambda>_. queue_tail s)) s) (\<lambda>s.
                 Inr (s\<lparr>waiting_queue_tail := new\<rparr>)))) (\<lambda>s.
     Inr (s\<lparr>waiting_queue_size := waiting_queue_size s + 1\<rparr>))))"

definition PushItemToWaitingQueue :: "ptr \<Rightarrow> kstate \<Rightarrow> kstate res" where
  "PushItemToWaitingQueue new s =
     rbind (rd_item s new) (\<lambda>i.
     rbind (rd_pcb s (q_proc i)) (\<lambda>_.
     rbind (wr_item new (q_next_update (\<lambda>_. NULL)) s) (\<lambda>s.
     rbind (if waiting_queue_size s = 0
            then Inr (s\<lparr>waiting_queue_head := new, waiting_queue_tail := new\<rparr>)
            else rbind (wr_item (waiting_queue_tail s) (q_next_update (\<lambda>_. new)) s) (\<lambda>s.
                 rbind (wr_item new (q_prev_update (\<lambda>_. waiting_queue_tail s)) s) (\<lambda>s.
                 Inr (s\<lparr>waiting_queue_tail := new\<rparr>)))) (\<lambda>s.
     Inr (s\<lparr>waiting_queue_size := waiting_queue_size s + 1\<rparr>)))))"

definition RemoveItemFromWaitingQueue :: "machine \<Rightarrow> ptr \<Rightarrow> kstate \<Rightarrow> kstate res" where
  "RemoveItemFromWaitingQueue M item s =
     rbind (rd_item s item) (\<lambda>i.
     rbind (rd_pcb s (q_proc i)) (\<lambda>_.
     let s = s\<lparr>waiting_queue_size := waiting_queue_size s - 1\<rparr> in
     rbind (if waiting_queue_head s = item \<and> waiting_queue_tail s = item
            then Inr (s\<lparr>waiting_queue_head := NULL, waiting_queue_tail := NULL\<rparr>)
            else if waiting_queue_head s = item
            then (let s = s\<lparr>waiting_queue_head := q_next i\<rparr>
                  in wr_item (waiting_queue_head s) (q_prev_update (\<lambda>_. NULL)) s)
            else if waiting_queue_tail s = item
            then (let s = s\<lparr>waiting_queue_tail := q_prev i\<rparr>
                  in wr_item (waiting_queue_tail s) (q_next_update (\<lambda>_. NULL)) s)
            else rbind (wr_item (q_prev i) (q_next_update (\<lambda>_. q_next i)) s) (\<lambda>s.
                 rbind (rd_item s item) (\<lambda>i.
                 wr_item (q_next i) (q_prev_update (\<lambda>_. q_prev i)) s))) (\<lambda>s.
     free_item M item s)))"

section \<open>The queues as lists\<close>

interpretation rq: forward_cell q_next "\<lambda>p. q_next_update (\<lambda>_. p)"
  by unfold_locales simp

interpretation wq: link_cell q_next q_prev "\<lambda>p. q_next_update (\<lambda>_. p)" "\<lambda>p. q_prev_update (\<lambda>_. p)"
  by unfold_locales simp_all

definition is_pcb :: "kstate \<Rightarrow> ptr \<Rightarrow> bool" where
  "is_pcb s p \<longleftrightarrow> (\<exists>a. p = Some a \<and> pcbs s a \<noteq> None)"

definition proc_of :: "kstate \<Rightarrow> nat \<Rightarrow> ptr" where
  "proc_of s a = (case items s a of None \<Rightarrow> NULL | Some i \<Rightarrow> q_proc i)"

text \<open>Nothing is allocated at or above the address the next \<open>malloc\<close> returns.\<close>

definition heap_wf :: "kstate \<Rightarrow> bool" where
  "heap_wf s \<longleftrightarrow> (\<forall>a\<ge>heap_top s. pcbs s a = None \<and> items s a = None \<and> exiteds s a = None \<and> lines s a = None)"

definition ready_q :: "kstate \<Rightarrow> nat list \<Rightarrow> bool" where
  "ready_q s as \<longleftrightarrow> rq.fseg (items s) as \<and> distinct as \<and> queue_size s = int (length as) \<and>
     queue_head s = lead as NULL \<and> queue_tail s = behind NULL as \<and>
     (\<forall>a\<in>set as. is_pcb s (proc_of s a))"

definition wait_q :: "kstate \<Rightarrow> nat list \<Rightarrow> bool" where
  "wait_q s as \<longleftrightarrow> wq.dlist (items s) as \<and> waiting_queue_size s = int (length as) \<and>
     waiting_queue_head s = lead as NULL \<and> waiting_queue_tail s = behind NULL as \<and>
     (\<forall>a\<in>set as. is_pcb s (proc_of s a))"

text \<open>The queues as sequences of processes.\<close>

definition ready_procs :: "kstate \<Rightarrow> ptr list \<Rightarrow> bool" where
  "ready_procs s ps \<longleftrightarrow> (\<exists>as. ready_q s as \<and> ps = map (proc_of s) as)"

definition wait_procs :: "kstate \<Rightarrow> ptr list \<Rightarrow> bool" where
  "wait_procs s ps \<longleftrightarrow> (\<exists>as. wait_q s as \<and> ps = map (proc_of s) as)"

section \<open>Enqueueing on the ready queue\<close>

lemma is_pcbE:
  assumes "is_pcb s p"
  obtains a x where "p = Some a" "pcbs s a = Some x"
  using assms by (auto simp: is_pcb_def)

lemma ready_q_alloc: "ready_q s as \<Longrightarrow> a \<in> set as \<Longrightarrow> \<exists>i. items s a = Some i"
  by (auto simp: ready_q_def dest: rq.fseg_alloc)

lemma ready_q_fresh: "ready_q s as \<Longrightarrow> heap_wf s \<Longrightarrow> heap_top s \<notin> set as"
  by (auto simp: heap_wf_def dest: ready_q_alloc)

text \<open>
  What \<open>PushProcToQueue\<close> does to a queue with the cells \<open>as\<close>: one new cell, linked behind the last
  one.
\<close>

definition pushed :: "machine \<Rightarrow> ptr \<Rightarrow> nat list \<Rightarrow> kstate \<Rightarrow> kstate" where
  "pushed M proc as s =
     (let n = heap_top s; new = (junk_item M n)\<lparr>q_proc := proc\<rparr>;
          h = (items s)(n \<mapsto> new)
      in s\<lparr>items := (if as = [] then h
                    else h(last as \<mapsto> (the (items s (last as)))\<lparr>q_next := Some n\<rparr>)),
           heap_top := Suc n, queue_head := lead as (Some n), queue_tail := Some n,
           queue_size := queue_size s + 1\<rparr>)"

lemma PushProcToQueue_eq:
  assumes q: "ready_q s as" and wf: "heap_wf s" and p: "is_pcb s proc"
  shows "PushProcToQueue M proc s = Inr (pushed M proc as s)"
proof -
  obtain a x where a: "proc = Some a" "pcbs s a = Some x" using p by (rule is_pcbE)
  show ?thesis
  proof (cases "as = []")
    case True
    with q a show ?thesis
      by (simp add: PushProcToQueue_def pushed_def malloc_item_def ready_q_def Let_def)
  next
    case False
    then obtain i where i: "items s (last as) = Some i" using q ready_q_alloc by fastforce
    have n: "last as \<noteq> heap_top s" using ready_q_fresh [OF q wf] False by (metis last_in_set)
    from False obtain b bs where "as = b # bs" by (cases as) auto
    with q a i n show ?thesis
      by (simp add: PushProcToQueue_def pushed_def malloc_item_def ready_q_def Let_def behind_def)
  qed
qed

lemma proc_of_pushed:
  assumes "ready_q s as" "heap_wf s" "a \<noteq> heap_top s"
  shows "proc_of (pushed M proc as s) a = proc_of s a"
  using assms ready_q_alloc [OF assms(1), of "last as"]
  by (auto simp: pushed_def proc_of_def Let_def)

lemma proc_of_pushed_new [simp]: "as = [] \<or> last as \<noteq> heap_top s \<Longrightarrow> proc_of (pushed M proc as s) (heap_top s) = proc"
  by (auto simp: pushed_def proc_of_def Let_def)

lemma is_pcb_pushed [simp]: "is_pcb (pushed M proc as s) p = is_pcb s p"
  by (simp add: is_pcb_def pushed_def Let_def)

lemma heap_wf_pushed:
  assumes "ready_q s as" "heap_wf s"
  shows "heap_wf (pushed M proc as s)"
proof -
  have "a < heap_top s" if "a \<in> set as" for a
    using ready_q_alloc [OF assms(1) that] assms(2) by (fastforce simp: heap_wf_def not_le [symmetric])
  then have "as \<noteq> [] \<Longrightarrow> last as < heap_top s" by simp
  with assms(2) show ?thesis by (auto simp: heap_wf_def pushed_def Let_def)
qed

lemma ready_q_pushed:
  assumes q: "ready_q s as" and wf: "heap_wf s" and p: "is_pcb s proc"
  shows "ready_q (pushed M proc as s) (as @ [heap_top s])"
proof -
  have n: "heap_top s \<notin> set as" by (rule ready_q_fresh [OF q wf])
  have procs: "is_pcb (pushed M proc as s) (proc_of (pushed M proc as s) a)" if "a \<in> set (as @ [heap_top s])" for a
  proof (cases "a = heap_top s")
    case True
    have "as = [] \<or> last as \<noteq> heap_top s" using n by (metis last_in_set)
    with True p show ?thesis by simp
  next
    case False
    with that q show ?thesis by (simp add: proc_of_pushed [OF q wf] ready_q_def)
  qed
  have "rq.fseg (items (pushed M proc as s)) (as @ [heap_top s])"
  proof (cases as rule: rev_cases)
    case Nil
    then show ?thesis by (simp add: pushed_def Let_def)
  next
    case (snoc bs b)
    let ?h = "(items s)(heap_top s \<mapsto> (junk_item M (heap_top s))\<lparr>q_proc := proc\<rparr>)"
    obtain i where i: "items s b = Some i" using q ready_q_alloc [of s as b] snoc by auto
    have "rq.fseg ?h (bs @ [b])" using q snoc n by (simp add: ready_q_def)
    moreover have "?h b = Some i" using i n snoc by auto
    ultimately have "rq.fseg (?h(b \<mapsto> i\<lparr>q_next := Some (heap_top s)\<rparr>)) (bs @ [b, heap_top s])"
      by (rule rq.fseg_snoc) (use q snoc n in \<open>auto simp: ready_q_def\<close>)
    with snoc i show ?thesis by (simp add: pushed_def Let_def)
  qed
  moreover have "queue_head (pushed M proc as s) = lead (as @ [heap_top s]) NULL"
    "queue_tail (pushed M proc as s) = behind NULL (as @ [heap_top s])"
    "queue_size (pushed M proc as s) = int (length (as @ [heap_top s]))"
    using q by (simp_all add: pushed_def Let_def ready_q_def)
  ultimately show ?thesis using q n procs by (simp add: ready_q_def)
qed

section \<open>Dequeueing from the ready queue\<close>

definition popped :: "machine \<Rightarrow> nat \<Rightarrow> nat list \<Rightarrow> kstate \<Rightarrow> kstate" where
  "popped M a as s =
     (let h = (case as of [] \<Rightarrow> items s
               | b # _ \<Rightarrow> (items s)(b \<mapsto> (the (items s b))\<lparr>q_prev := NULL\<rparr>))
      in s\<lparr>items := h(a := Option.bind (items s a) (freed_item M)), queue_head := lead as NULL,
           queue_tail := behind NULL as, queue_size := queue_size s - 1\<rparr>)"

lemma ready_q_links:
  assumes "ready_q s (a # as)" "items s a = Some i"
  shows "as = [] \<or> q_next i = Some (hd as)" "a \<notin> set as" "is_pcb s (q_proc i)" "ready_q s (a # as)"
  using assms by (auto simp: ready_q_def proc_of_def)

lemma RemoveItemFromReadyQueue_head:
  assumes q: "ready_q s (a # as)"
  shows "RemoveItemFromReadyQueue M (Some a) s = Inr (popped M a as s)"
proof -
  obtain i where i: "items s a = Some i" using ready_q_alloc [OF q, of a] by auto
  obtain c x where x: "q_proc i = Some c" "pcbs s c = Some x"
    using ready_q_links(3) [OF q i] by (rule is_pcbE)
  have ends: "queue_head s = Some a" "queue_tail s = behind (Some a) as" using q by (simp_all add: ready_q_def)
  show ?thesis
  proof (cases as)
    case Nil
    with i x ends q show ?thesis
      by (simp add: RemoveItemFromReadyQueue_def popped_def Let_def)
  next
    case (Cons b bs)
    then obtain j where j: "items s b = Some j" using ready_q_alloc [OF q, of b] by auto
    have "b \<noteq> a" and tail: "queue_tail s \<noteq> Some a" and nx: "q_next i = Some b"
      using ready_q_links [OF q i] Cons ends by (auto simp: behind_def)
    then show ?thesis using i x j ends Cons
      by (simp add: RemoveItemFromReadyQueue_def popped_def Let_def)
  qed
qed

lemma FindReadyPcb_eq:
  assumes q: "ready_q s (a # as)" and c: "is_pcb s (curr_proc s)"
  shows "FindReadyPcb M s = Inr (popped M a as s, proc_of s a)"
proof -
  obtain i where i: "items s a = Some i" using ready_q_alloc [OF q, of a] by auto
  obtain b x where x: "q_proc i = Some b" "pcbs s b = Some x"
    using ready_q_links(3) [OF q i] by (rule is_pcbE)
  obtain c y where "curr_proc s = Some c" "pcbs s c = Some y" using c by (rule is_pcbE)
  moreover have "queue_head s = Some a" "queue_size s \<noteq> 0" using q by (simp_all add: ready_q_def)
  ultimately show ?thesis using i x RemoveItemFromReadyQueue_head [OF q, of M]
    by (simp add: FindReadyPcb_def proc_of_def)
qed

lemma FindReadyPcb_empty: "ready_q s [] \<Longrightarrow> FindReadyPcb M s = Inr (s, idle_pcb s)"
  by (simp add: FindReadyPcb_def ready_q_def)

lemma popped_frame [simp]:
  "pcbs (popped M a as s) = pcbs s" "heap_top (popped M a as s) = heap_top s"
  "curr_proc (popped M a as s) = curr_proc s" "is_pcb (popped M a as s) p = is_pcb s p"
  by (simp_all add: popped_def is_pcb_def Let_def)

lemma proc_of_popped:
  assumes "ready_q s (a # as)" "c \<noteq> a"
  shows "proc_of (popped M a as s) c = proc_of s c"
  using assms ready_q_alloc [OF assms(1), of "hd as"]
  by (cases as) (auto simp: popped_def proc_of_def Let_def)

lemma ready_q_popped:
  assumes q: "ready_q s (a # as)"
  shows "ready_q (popped M a as s) as"
proof -
  have a: "a \<notin> set as" "distinct as" "rq.fseg (items s) as" "queue_size s = int (Suc (length as))"
    using q by (simp_all add: ready_q_def)
  have "rq.fseg (items (popped M a as s)) as"
  proof (cases as)
    case (Cons b bs)
    then obtain j where j: "items s b = Some j" using ready_q_alloc [OF q, of b] by auto
    have "rq.fseg ((items s)(b \<mapsto> j\<lparr>q_prev := NULL\<rparr>)) as"
      using a(3) rq.fseg_upd_same [of "items s" b j "j\<lparr>q_prev := NULL\<rparr>" as] j by simp
    with Cons j a(1) show ?thesis by (simp add: popped_def Let_def)
  qed (simp add: popped_def)
  moreover have "is_pcb s (proc_of (popped M a as s) c)" if "c \<in> set as" for c
  proof -
    have "c \<noteq> a" using that a(1) by auto
    with that q show ?thesis by (simp add: proc_of_popped [OF q] ready_q_def)
  qed
  ultimately show ?thesis using a q by (simp add: ready_q_def popped_def Let_def is_pcb_def)
qed

lemma heap_wf_popped:
  assumes "ready_q s (a # as)" "heap_wf s"
  shows "heap_wf (popped M a as s)"
proof -
  have b: "c < heap_top s" if "c \<in> set (a # as)" for c
    using ready_q_alloc [OF assms(1) that] assms(2) by (fastforce simp: heap_wf_def not_le [symmetric])
  have "a < heap_top s" "as \<noteq> [] \<Longrightarrow> hd as < heap_top s" using b by simp_all
  with assms(2) show ?thesis by (cases as) (auto simp: heap_wf_def popped_def Let_def)
qed

section \<open>Rotation\<close>

definition rotated :: "machine \<Rightarrow> nat \<Rightarrow> nat list \<Rightarrow> kstate \<Rightarrow> kstate" where
  "rotated M a as s =
     (pushed M (curr_proc s) (a # as) s)
       \<lparr>curr_proc := proc_of s a, queue_head := lead as (Some (heap_top s)), queue_size := queue_size s\<rparr>"

lemma SetNextProc_eq:
  assumes q: "ready_q s (a # as)" and wf: "heap_wf s" and c: "is_pcb s (curr_proc s)"
  shows "SetNextProc M s = Inr (rotated M a as s, 1)"
proof -
  obtain i where i: "items s a = Some i" using ready_q_alloc [OF q, of a] by auto
  obtain b x where x: "q_proc i = Some b" "pcbs s b = Some x"
    using ready_q_links(3) [OF q i] by (rule is_pcbE)
  obtain d y where y: "curr_proc s = Some d" "pcbs s d = Some y" using c by (rule is_pcbE)
  have nx: "as = [] \<or> q_next i = Some (hd as)" "a \<notin> set as" by (rule ready_q_links [OF q i])+
  have n: "a \<noteq> heap_top s" using ready_q_fresh [OF q wf] by auto
  let ?t = "pushed M (curr_proc s) (a # as) s"
  have t: "queue_head ?t = Some a" "queue_size ?t = queue_size s + 1"
    by (simp_all add: pushed_def Let_def)
  have ti: "\<exists>j. items ?t a = Some j \<and> q_proc j = q_proc i \<and> q_next j = lead as (Some (heap_top s))"
  proof (cases as)
    case Nil
    with i n show ?thesis by (simp add: pushed_def Let_def)
  next
    case (Cons e es)
    then have "last as \<noteq> a" using nx(2) by (metis last_in_set list.distinct(1))
    with Cons i n nx show ?thesis by (auto simp: pushed_def Let_def)
  qed
  have "queue_head s = Some a" "queue_size s \<noteq> 0" using q by (simp_all add: ready_q_def)
  with i x y t ti PushProcToQueue_eq [OF q wf c, of M] show ?thesis
    by (auto simp: SetNextProc_def rotated_def proc_of_def)
qed

lemma ready_q_rotated:
  assumes q: "ready_q s (a # as)" and wf: "heap_wf s" and c: "is_pcb s (curr_proc s)"
  shows "ready_q (rotated M a as s) (as @ [heap_top s])"
proof -
  let ?t = "pushed M (curr_proc s) (a # as) s"
  have t: "ready_q ?t ((a # as) @ [heap_top s])" by (rule ready_q_pushed [OF q wf c])
  then have "rq.fseg (items ?t) (as @ [heap_top s])" "distinct (as @ [heap_top s])"
    "queue_tail ?t = behind NULL (as @ [heap_top s])" "queue_size ?t = int (length as) + 2"
    by (simp_all add: ready_q_def)
  moreover have "\<forall>b\<in>set (as @ [heap_top s]). is_pcb ?t (proc_of ?t b)"
    using t by (simp add: ready_q_def)
  moreover have "queue_size s = int (Suc (length as))" using q by (simp add: ready_q_def)
  ultimately show ?thesis by (simp add: ready_q_def rotated_def is_pcb_def proc_of_def)
qed

lemma heap_wf_rotated:
  assumes "ready_q s (a # as)" "heap_wf s"
  shows "heap_wf (rotated M a as s)"
  using heap_wf_pushed [OF assms, of M "curr_proc s"] by (simp add: heap_wf_def rotated_def)

section \<open>The interface of a first-in first-out queue\<close>

text \<open>
  What a client of a queue relies on: \<open>push\<close> appends, \<open>pop\<close> takes the first element away and returns
  it, and neither makes an element unfit for the queue.
\<close>

locale fifo_queue =
  fixes repr :: "'s \<Rightarrow> 'a list \<Rightarrow> bool"
    and ok :: "'s \<Rightarrow> 'a \<Rightarrow> bool"
    and push :: "'a \<Rightarrow> 's \<Rightarrow> 's res"
    and pop :: "'s \<Rightarrow> ('s \<times> 'a) res"
  assumes push_ok: "repr s xs \<Longrightarrow> ok s x \<Longrightarrow> \<exists>s'. push x s = Inr s' \<and> repr s' (xs @ [x]) \<and> (\<forall>y. ok s y \<longrightarrow> ok s' y)"
    and pop_ok: "repr s (x # xs) \<Longrightarrow> \<exists>s'. pop s = Inr (s', x) \<and> repr s' xs \<and> (\<forall>y. ok s y \<longrightarrow> ok s' y)"
begin

lemma push_all:
  assumes "repr s xs" "\<forall>y\<in>set ys. ok s y"
  shows "\<exists>s'. fold_res push ys s = Inr s' \<and> repr s' (xs @ ys)"
  using assms
proof (induction ys arbitrary: s xs)
  case (Cons y ys)
  then obtain t where t: "push y s = Inr t" "repr t (xs @ [y])" "\<forall>z. ok s z \<longrightarrow> ok t z"
    using push_ok [of s xs y] by auto
  with Cons.prems(2) Cons.IH [OF t(2)] show ?case by simp
qed simp

fun pop_n :: "nat \<Rightarrow> 's \<Rightarrow> ('s \<times> 'a list) res" where
  "pop_n 0 s = Inr (s, [])"
| "pop_n (Suc n) s =
     rbind (pop s) (\<lambda>(s, x). rbind (pop_n n s) (\<lambda>(s, xs). Inr (s, x # xs)))"

lemma pop_all: "repr s (xs @ ys) \<Longrightarrow> \<exists>s'. pop_n (length xs) s = Inr (s', xs) \<and> repr s' ys"
proof (induction xs arbitrary: s)
  case (Cons x xs)
  then obtain t where "pop s = Inr (t, x)" "repr t (xs @ ys)"
    using pop_ok [of s x "xs @ ys"] by auto
  with Cons.IH [of t] show ?case by auto
qed simp

text \<open>Elements leave the queue in the order in which they entered it, behind those already there.\<close>

lemma fifo:
  assumes "repr s xs" "\<forall>y\<in>set ys. ok s y"
  shows "\<exists>s' s''. fold_res push ys s = Inr s' \<and> pop_n (length xs + length ys) s' = Inr (s'', xs @ ys) \<and> repr s'' []"
proof -
  obtain s' where s': "fold_res push ys s = Inr s'" "repr s' (xs @ ys)"
    using push_all [OF assms] by blast
  with pop_all [of s' "xs @ ys" "[]"] show ?thesis by auto
qed

end

text \<open>The ready queue, in the states in which the kernel uses it.\<close>

definition ready_repr :: "kstate \<Rightarrow> ptr list \<Rightarrow> bool" where
  "ready_repr s ps \<longleftrightarrow> ready_procs s ps \<and> heap_wf s \<and> is_pcb s (curr_proc s)"

lemma curr_proc_pushed [simp]: "curr_proc (pushed M p as s) = curr_proc s"
  by (simp add: pushed_def Let_def)

lemma ready_repr_push:
  assumes "ready_repr s ps" "is_pcb s p"
  shows "\<exists>s'. PushProcToQueue M p s = Inr s' \<and> ready_repr s' (ps @ [p]) \<and> (\<forall>y. is_pcb s y \<longrightarrow> is_pcb s' y)"
proof -
  obtain as where q: "ready_q s as" and ps: "ps = map (proc_of s) as" and wf: "heap_wf s"
    and c: "is_pcb s (curr_proc s)"
    using assms(1) by (auto simp: ready_repr_def ready_procs_def)
  let ?t = "pushed M p as s"
  have n: "heap_top s \<notin> set as" by (rule ready_q_fresh [OF q wf])
  then have "as = [] \<or> last as \<noteq> heap_top s" by (metis last_in_set)
  moreover have "map (proc_of ?t) as = map (proc_of s) as"
    by (intro map_cong refl proc_of_pushed [OF q wf]) (use n in auto)
  ultimately have "map (proc_of ?t) (as @ [heap_top s]) = ps @ [p]" by (simp add: ps)
  then have "ready_repr ?t (ps @ [p])"
    using ready_q_pushed [OF q wf assms(2), of M] heap_wf_pushed [OF q wf, of M p] c
    unfolding ready_repr_def ready_procs_def by (metis curr_proc_pushed is_pcb_pushed)
  with PushProcToQueue_eq [OF q wf assms(2), of M] show ?thesis by simp
qed

lemma ready_repr_pop:
  assumes "ready_repr s (p # ps)"
  shows "\<exists>s'. FindReadyPcb M s = Inr (s', p) \<and> ready_repr s' ps \<and> (\<forall>y. is_pcb s y \<longrightarrow> is_pcb s' y)"
proof -
  obtain a as where q: "ready_q s (a # as)" and ps: "p = proc_of s a" "ps = map (proc_of s) as"
    and wf: "heap_wf s" and c: "is_pcb s (curr_proc s)"
    using assms by (auto simp: ready_repr_def ready_procs_def)
  have "a \<notin> set as" using q by (simp add: ready_q_def)
  then have "map (proc_of (popped M a as s)) as = ps"
    unfolding ps by (intro map_cong refl proc_of_popped [OF q]) auto
  then have "ready_repr (popped M a as s) ps"
    using ready_q_popped [OF q, of M] heap_wf_popped [OF q wf, of M] c
    by (auto simp: ready_repr_def ready_procs_def)
  with FindReadyPcb_eq [OF q c, of M] ps show ?thesis by simp
qed

interpretation ready: fifo_queue ready_repr is_pcb "PushProcToQueue M" "FindReadyPcb M" for M
  by unfold_locales (simp_all add: ready_repr_push ready_repr_pop)

section \<open>The delay queue\<close>

text \<open>Two states that differ only in the cells and the variables of the delay queue.\<close>

definition same_but_wait :: "kstate \<Rightarrow> kstate \<Rightarrow> bool" where
  "same_but_wait s s' \<longleftrightarrow>
     s' = s\<lparr>items := items s', waiting_queue_head := waiting_queue_head s',
            waiting_queue_tail := waiting_queue_tail s', waiting_queue_size := waiting_queue_size s'\<rparr>"

lemma same_but_waitD:
  assumes "same_but_wait s s'"
  shows "pcbs s' = pcbs s" "heap_top s' = heap_top s" "curr_proc s' = curr_proc s"
    "is_pcb s' p = is_pcb s p" "queue_size s' = queue_size s" "queue_head s' = queue_head s"
    "queue_tail s' = queue_tail s" "idle_pcb s' = idle_pcb s" "exiteds s' = exiteds s"
    "lines s' = lines s" "ticks_passed s' = ticks_passed s" "reg_log s' = reg_log s"
proof -
  obtain h a b c where "s' = s\<lparr>items := h, waiting_queue_head := a, waiting_queue_tail := b, waiting_queue_size := c\<rparr>"
    using assms unfolding same_but_wait_def by blast
  then show "pcbs s' = pcbs s" "heap_top s' = heap_top s" "curr_proc s' = curr_proc s"
    "is_pcb s' p = is_pcb s p" "queue_size s' = queue_size s" "queue_head s' = queue_head s"
    "queue_tail s' = queue_tail s" "idle_pcb s' = idle_pcb s" "exiteds s' = exiteds s"
    "lines s' = lines s" "ticks_passed s' = ticks_passed s" "reg_log s' = reg_log s"
    by (simp_all add: is_pcb_def)
qed

lemma wait_q_alloc: "wait_q s as \<Longrightarrow> a \<in> set as \<Longrightarrow> \<exists>i. items s a = Some i"
  by (auto simp: wait_q_def wq.dlist_def dest: wq.dseg_alloc)

lemma PushItemToWaitingQueue_wait_q:
  assumes q: "wait_q s as" and n: "items s n = Some i" "n \<notin> set as" and p: "is_pcb s (q_proc i)"
  shows "\<exists>s'. PushItemToWaitingQueue (Some n) s = Inr s' \<and> wait_q s' (as @ [n]) \<and> same_but_wait s s' \<and>
    (\<forall>c. proc_of s' c = proc_of s c) \<and> (\<forall>c. c \<notin> set (as @ [n]) \<longrightarrow> items s' c = items s c)"
proof -
  obtain a x where x: "q_proc i = Some a" "pcbs s a = Some x" using p by (rule is_pcbE)
  have pr: "proc_of s n = q_proc i" using n by (simp add: proc_of_def)
  show ?thesis
  proof (cases as rule: rev_cases)
    case Nil
    with q n x p pr show ?thesis
      by (auto simp: PushItemToWaitingQueue_def wait_q_def same_but_wait_def proc_of_def is_pcb_def
          wq.dlist_def)
  next
    case (snoc bs b)
    then obtain j where j: "items s b = Some j" using wait_q_alloc [OF q, of b] by auto
    have bn: "b \<noteq> n" using n(2) snoc by auto
    let ?h = "(items s)(n \<mapsto> i\<lparr>q_next := NULL\<rparr>)"
    let ?h' = "?h(b \<mapsto> j\<lparr>q_next := Some n\<rparr>, n \<mapsto> i\<lparr>q_next := NULL, q_prev := Some b\<rparr>)"
    let ?s = "s\<lparr>items := ?h', waiting_queue_tail := Some n, waiting_queue_size := waiting_queue_size s + 1\<rparr>"
    have step: "PushItemToWaitingQueue (Some n) s = Inr ?s"
      using q n x j bn snoc
      by (simp add: PushItemToWaitingQueue_def wait_q_def Let_def fun_upd_twist)
    have "wq.dlist ?h (bs @ [b])" using q n snoc by (simp add: wait_q_def)
    then have "wq.dlist ?h' (bs @ [b, n])"
      using j bn n(2) snoc wq.dlist_snoc [of ?h bs b j n "i\<lparr>q_next := NULL\<rparr>"] by simp
    then have d: "wq.dlist (items ?s) (as @ [n])" using snoc by simp
    have pr': "proc_of ?s c = proc_of s c" for c using n j by (simp add: proc_of_def)
    then have "wait_q ?s (as @ [n])"
      using q d p pr snoc by (auto simp: wait_q_def is_pcb_def)
    with step pr' snoc show ?thesis by (auto simp: same_but_wait_def)
  qed
qed

text \<open>
  Unlinking any cell of the delay queue: the only cell, the head, the tail, or one in between, which
  are the four cases of the code.
\<close>

definition wait_removed :: "machine \<Rightarrow> nat list \<Rightarrow> nat \<Rightarrow> nat list \<Rightarrow> kstate \<Rightarrow> kstate \<Rightarrow> bool" where
  "wait_removed M as a bs s s' \<longleftrightarrow> wait_q s' (as @ bs) \<and> same_but_wait s s' \<and>
     items s' a = Option.bind (items s a) (freed_item M) \<and> (\<forall>c. c \<noteq> a \<longrightarrow> proc_of s' c = proc_of s c) \<and>
     (\<forall>c. c \<notin> set (as @ a # bs) \<longrightarrow> items s' c = items s c)"

lemma wait_q_cell:
  assumes "wait_q s (as @ a # bs)"
  shows "\<exists>i c x. items s a = Some i \<and> q_next i = lead bs NULL \<and> q_proc i = Some c \<and> pcbs s c = Some x"
proof -
  obtain i where i: "items s a = Some i" using wait_q_alloc [OF assms, of a] by auto
  moreover have "is_pcb s (q_proc i)" using assms i by (auto simp: wait_q_def proc_of_def)
  moreover have "q_next i = lead bs NULL"
    using wq.dlist_next [of "items s" as a bs i] assms i by (simp add: wait_q_def)
  ultimately show ?thesis by (auto elim: is_pcbE)
qed

lemma wait_q_facts:
  assumes "wait_q s (as @ a # bs)"
  shows "wq.dlist (items s) (as @ a # bs)" "distinct (as @ a # bs)"
    "waiting_queue_size s = int (length as) + int (length bs) + 1"
    "waiting_queue_head s = lead as (Some a)" "waiting_queue_tail s = behind (Some a) bs"
    "\<forall>c\<in>set (as @ bs). is_pcb s (proc_of s c)"
  using assms by (simp_all add: wait_q_def wq.dlist_def)

lemma RemoveItemFromWaitingQueue_only:
  assumes q: "wait_q s [a]"
  shows "\<exists>s'. RemoveItemFromWaitingQueue M (Some a) s = Inr s' \<and> wait_removed M [] a [] s s'"
proof -
  obtain i c x where i: "items s a = Some i" "q_proc i = Some c" "pcbs s c = Some x"
    using wait_q_cell [of s "[]" a "[]"] q by auto
  have f: "waiting_queue_head s = Some a" "waiting_queue_tail s = Some a" "waiting_queue_size s = 1"
    using q by (simp_all add: wait_q_def)
  let ?s = "s\<lparr>items := (items s)(a := freed_item M i), waiting_queue_head := NULL,
    waiting_queue_tail := NULL, waiting_queue_size := waiting_queue_size s - 1\<rparr>"
  have "RemoveItemFromWaitingQueue M (Some a) s = Inr ?s"
    using i f by (simp add: RemoveItemFromWaitingQueue_def)
  then show ?thesis using i f by (simp add: wait_removed_def wait_q_def same_but_wait_def proc_of_def)
qed

lemma RemoveItemFromWaitingQueue_head:
  assumes q: "wait_q s (a # b # cs)"
  shows "\<exists>s'. RemoveItemFromWaitingQueue M (Some a) s = Inr s' \<and> wait_removed M [] a (b # cs) s s'"
proof -
  obtain i c x where i: "items s a = Some i" "q_next i = Some b" "q_proc i = Some c" "pcbs s c = Some x"
    using wait_q_cell [of s "[]" a "b # cs"] q by auto
  obtain j where j: "items s b = Some j" using wait_q_alloc [OF q, of b] by auto
  note f = wait_q_facts [of s "[]" a "b # cs", simplified, OF q]
  have b: "b \<noteq> a" "waiting_queue_tail s \<noteq> Some a" using f by (auto simp: behind_def)
  let ?h = "(items s)(b \<mapsto> j\<lparr>q_prev := NULL\<rparr>, a := freed_item M i)"
  let ?s = "s\<lparr>items := ?h, waiting_queue_head := Some b, waiting_queue_size := waiting_queue_size s - 1\<rparr>"
  have "RemoveItemFromWaitingQueue M (Some a) s = Inr ?s"
    using i b j f by (simp add: RemoveItemFromWaitingQueue_def)
  moreover have "wq.dlist ?h (b # cs)"
    using f j wq.dlist_unlink_head [of "items s" a b cs j NULL] by simp
  moreover have "\<forall>c. c \<noteq> a \<longrightarrow> proc_of ?s c = proc_of s c" using j by (simp add: proc_of_def)
  ultimately show ?thesis
    using f i by (auto simp: wait_removed_def wait_q_def same_but_wait_def is_pcb_def)
qed

lemma wait_q_prev:
  assumes "wait_q s (ds @ [e, a] @ bs)" "items s a = Some i"
  shows "q_prev i = Some e" "e \<noteq> a" "waiting_queue_head s \<noteq> Some a"
proof -
  note f = wait_q_facts [of s "ds @ [e]" a bs, simplified]
  show "q_prev i = Some e" using f assms wq.dlist_prev [of "items s" ds e a bs i] by simp
  show "e \<noteq> a" "waiting_queue_head s \<noteq> Some a" using f assms(1) by (cases ds; auto)+
qed

lemma RemoveItemFromWaitingQueue_tail:
  assumes q: "wait_q s (ds @ [e, a])"
  shows "\<exists>s'. RemoveItemFromWaitingQueue M (Some a) s = Inr s' \<and> wait_removed M (ds @ [e]) a [] s s'"
proof -
  obtain i c x where i: "items s a = Some i" "q_proc i = Some c" "pcbs s c = Some x"
    using wait_q_cell [of s "ds @ [e]" a "[]"] q by auto
  obtain k where k: "items s e = Some k" using wait_q_alloc [OF q, of e] by auto
  note f = wait_q_facts [of s "ds @ [e]" a "[]", simplified, OF q]
  note e = wait_q_prev [of s ds e a "[]" i, simplified, OF q i(1)]
  let ?h = "(items s)(e \<mapsto> k\<lparr>q_next := NULL\<rparr>, a := freed_item M i)"
  let ?s = "s\<lparr>items := ?h, waiting_queue_tail := Some e, waiting_queue_size := waiting_queue_size s - 1\<rparr>"
  have "RemoveItemFromWaitingQueue M (Some a) s = Inr ?s"
    using i e k f by (simp add: RemoveItemFromWaitingQueue_def)
  moreover have "wq.dlist ?h (ds @ [e])"
    using f k wq.dlist_unlink_tail [of "items s" ds e a k] by simp
  moreover have "\<forall>c. c \<noteq> a \<longrightarrow> proc_of ?s c = proc_of s c" using k by (simp add: proc_of_def)
  ultimately show ?thesis
    using f i by (auto simp: wait_removed_def wait_q_def same_but_wait_def is_pcb_def)
qed

lemma RemoveItemFromWaitingQueue_middle:
  assumes q: "wait_q s (ds @ [e, a, b] @ cs)"
  shows "\<exists>s'. RemoveItemFromWaitingQueue M (Some a) s = Inr s' \<and> wait_removed M (ds @ [e]) a (b # cs) s s'"
proof -
  obtain i c x where i: "items s a = Some i" "q_next i = Some b" "q_proc i = Some c" "pcbs s c = Some x"
    using wait_q_cell [of s "ds @ [e]" a "b # cs"] q by auto
  obtain j k where jk: "items s b = Some j" "items s e = Some k"
    using wait_q_alloc [OF q, of b] wait_q_alloc [OF q, of e] by auto
  note f = wait_q_facts [of s "ds @ [e]" a "b # cs", simplified, OF q [simplified]]
  note e = wait_q_prev [of s ds e a "b # cs" i, simplified, OF q [simplified] i(1)]
  have b: "b \<noteq> a" "b \<noteq> e" "waiting_queue_tail s \<noteq> Some a" using f by (auto simp: behind_def)
  let ?h = "(items s)(e \<mapsto> k\<lparr>q_next := Some b\<rparr>, b \<mapsto> j\<lparr>q_prev := Some e\<rparr>, a := freed_item M i)"
  let ?s = "s\<lparr>items := ?h, waiting_queue_size := waiting_queue_size s - 1\<rparr>"
  have "RemoveItemFromWaitingQueue M (Some a) s = Inr ?s"
    using i e b jk by (simp add: RemoveItemFromWaitingQueue_def)
  moreover have "wq.dlist ?h (ds @ [e, b] @ cs)"
    using f jk wq.dlist_unlink_middle [of "items s" ds e a b cs k j] by simp
  moreover have "\<forall>c. c \<noteq> a \<longrightarrow> proc_of ?s c = proc_of s c" using jk b by (simp add: proc_of_def)
  ultimately show ?thesis
    using f i by (auto simp: wait_removed_def wait_q_def same_but_wait_def is_pcb_def)
qed

lemma RemoveItemFromWaitingQueue_ok:
  assumes q: "wait_q s (as @ a # bs)"
  shows "\<exists>s'. RemoveItemFromWaitingQueue M (Some a) s = Inr s' \<and> wait_removed M as a bs s s'"
proof (cases as rule: rev_cases)
  case Nil
  with q show ?thesis
    using RemoveItemFromWaitingQueue_only RemoveItemFromWaitingQueue_head by (cases bs) auto
next
  case (snoc ds e)
  with q show ?thesis
    using RemoveItemFromWaitingQueue_tail [of s ds e a M] RemoveItemFromWaitingQueue_middle [of s ds e a _ _ M]
    by (cases bs) auto
qed

section \<open>Searching the ready queue\<close>

text \<open>
  The walk of \<open>RemoveProcFromReadyQueue\<close> ends at a cell whose next link is \<open>NULL\<close>. The kernel never
  writes that link in the last cell, so it is \<open>NULL\<close> only if the allocator returned zeroed memory.
\<close>

definition ready_ends :: "kstate \<Rightarrow> nat list \<Rightarrow> bool" where
  "ready_ends s as \<longleftrightarrow> (as \<noteq> [] \<longrightarrow> (\<exists>i. items s (last as) = Some i \<and> q_next i = NULL))"

definition pid_of :: "kstate \<Rightarrow> ptr \<Rightarrow> int option" where
  "pid_of s p = (case rd_pcb s p of Inl _ \<Rightarrow> None | Inr x \<Rightarrow> Some (process_id x))"

lemma RemoveProc_walk:
  assumes "rq.fseg (items s) as" "ready_ends s as"
    "\<forall>a\<in>set as. is_pcb s (proc_of s a) \<and> pid_of s (proc_of s a) \<noteq> pid_of s proc" "is_pcb s proc"
  shows "while_res (\<lambda>(s, curr_proc_item). curr_proc_item \<noteq> NULL)
       (\<lambda>(s, curr_proc_item).
          rbind (rd_item s curr_proc_item) (\<lambda>i.
          rbind (rd_pcb s (q_proc i)) (\<lambda>current_proc.
          rbind (rd_pcb s proc) (\<lambda>p.
          rbind (if process_id current_proc = process_id p
                 then RemoveItemFromReadyQueue M curr_proc_item s else Inr s) (\<lambda>s.
          rbind (rd_item s curr_proc_item) (\<lambda>i. Inr (s, q_next i)))))))
       (s, lead as NULL) = Inr (s, NULL)"
  using assms
proof (induction as)
  case Nil
  then show ?case by (simp add: while_res_unfold)
next
  case (Cons a as)
  then obtain i where i: "items s a = Some i" "as \<noteq> [] \<longrightarrow> q_next i = Some (hd as)" by auto
  have nx: "q_next i = lead as NULL"
    using i Cons.prems(2) by (cases as) (auto simp: ready_ends_def)
  have "is_pcb s (q_proc i)" using Cons.prems(3) i by (auto simp: proc_of_def)
  then obtain b x where x: "q_proc i = Some b" "pcbs s b = Some x" by (rule is_pcbE)
  obtain c y where y: "proc = Some c" "pcbs s c = Some y" using Cons.prems(4) by (rule is_pcbE)
  have ne: "process_id x \<noteq> process_id y" using Cons.prems(3) i x y by (auto simp: pid_of_def proc_of_def)
  have "ready_ends s as" using Cons.prems(2) by (auto simp: ready_ends_def)
  then show ?case
    using Cons.IH Cons.prems i nx x y ne by (subst while_res_unfold) simp
qed

lemma RemoveProc_absent_ok:
  assumes "ready_q s as" "ready_ends s as" "is_pcb s p" "\<forall>a\<in>set as. pid_of s (proc_of s a) \<noteq> pid_of s p"
  shows "RemoveProcFromReadyQueue M p s = Inr s"
proof -
  obtain c y where y: "p = Some c" "pcbs s c = Some y" using assms(3) by (rule is_pcbE)
  have "queue_head s = lead as NULL" using assms(1) by (simp add: ready_q_def)
  moreover note RemoveProc_walk [of s as p M]
  ultimately show ?thesis using assms y by (simp add: RemoveProcFromReadyQueue_def ready_q_def)
qed

lemma ready_q_cong:
  assumes "ready_q s as" "\<And>a. a \<in> set as \<Longrightarrow> items s' a = items s a" "queue_head s' = queue_head s"
    "queue_tail s' = queue_tail s" "queue_size s' = queue_size s" "\<And>p. is_pcb s p \<Longrightarrow> is_pcb s' p"
  shows "ready_q s' as" "map (proc_of s') as = map (proc_of s) as"
proof -
  have pr: "proc_of s' a = proc_of s a" if "a \<in> set as" for a using assms(2) that by (simp add: proc_of_def)
  then show "map (proc_of s') as = map (proc_of s) as" by simp
  have "rq.fseg (items s') as" using assms(1) rq.fseg_cong [of as "items s'" "items s"] assms(2)
    by (simp add: ready_q_def)
  with assms pr show "ready_q s' as" by (auto simp: ready_q_def)
qed

lemma wait_q_cong:
  assumes "wait_q s as" "\<And>a. a \<in> set as \<Longrightarrow> items s' a = items s a"
    "waiting_queue_head s' = waiting_queue_head s" "waiting_queue_tail s' = waiting_queue_tail s"
    "waiting_queue_size s' = waiting_queue_size s" "\<And>p. is_pcb s p \<Longrightarrow> is_pcb s' p"
  shows "wait_q s' as" "map (proc_of s') as = map (proc_of s) as"
proof -
  have pr: "proc_of s' a = proc_of s a" if "a \<in> set as" for a using assms(2) that by (simp add: proc_of_def)
  then show "map (proc_of s') as = map (proc_of s) as" by simp
  have "wq.dlist (items s') as"
    using assms(1) wq.dseg_cong [of as "items s'" "items s"] assms(2) by (simp add: wait_q_def wq.dlist_def)
  with assms pr show "wait_q s' as" by (auto simp: wait_q_def)
qed

section \<open>The ready queue for its clients\<close>

text \<open>Two states that differ only in the cells and the variables of the ready queue.\<close>

definition only_ready :: "kstate \<Rightarrow> kstate \<Rightarrow> bool" where
  "only_ready s s' \<longleftrightarrow>
     s' = s\<lparr>items := items s', heap_top := heap_top s', queue_head := queue_head s',
            queue_tail := queue_tail s', queue_size := queue_size s'\<rparr>"

lemma only_readyD:
  assumes "only_ready s s'"
  shows "pcbs s' = pcbs s" "exiteds s' = exiteds s" "lines s' = lines s" "curr_proc s' = curr_proc s"
    "idle_pcb s' = idle_pcb s" "is_pcb s' p = is_pcb s p" "pid_of s' p = pid_of s p"
    "waiting_queue_head s' = waiting_queue_head s" "waiting_queue_tail s' = waiting_queue_tail s"
    "waiting_queue_size s' = waiting_queue_size s" "reg_log s' = reg_log s" "reg_ptr0 s' = reg_ptr0 s"
    "terms s' = terms s" "ticks_passed s' = ticks_passed s" "tty_log s' = tty_log s" "region1Pt s' = region1Pt s"
proof -
  obtain h n a b c where "s' = s\<lparr>items := h, heap_top := n, queue_head := a, queue_tail := b, queue_size := c\<rparr>"
    using assms unfolding only_ready_def by blast
  then show "pcbs s' = pcbs s" "exiteds s' = exiteds s" "lines s' = lines s" "curr_proc s' = curr_proc s"
    "idle_pcb s' = idle_pcb s" "is_pcb s' p = is_pcb s p" "pid_of s' p = pid_of s p"
    "waiting_queue_head s' = waiting_queue_head s" "waiting_queue_tail s' = waiting_queue_tail s"
    "waiting_queue_size s' = waiting_queue_size s" "reg_log s' = reg_log s" "reg_ptr0 s' = reg_ptr0 s"
    "terms s' = terms s" "ticks_passed s' = ticks_passed s" "tty_log s' = tty_log s" "region1Pt s' = region1Pt s"
    by (simp_all add: is_pcb_def pid_of_def rd_pcb_def)
qed

lemma only_ready_mem:
  assumes "only_ready s s'"
  shows "region0Pt s' = region0Pt s" "r1_tables s' = r1_tables s" "frames s' = frames s" "freePages s' = freePages s"
    "num_pages s' = num_pages s" "num_free_pages s' = num_free_pages s"
proof -
  obtain h n a b c where "s' = s\<lparr>items := h, heap_top := n, queue_head := a, queue_tail := b, queue_size := c\<rparr>"
    using assms unfolding only_ready_def by blast
  then show "region0Pt s' = region0Pt s" "r1_tables s' = r1_tables s" "frames s' = frames s" "freePages s' = freePages s"
    "num_pages s' = num_pages s" "num_free_pages s' = num_free_pages s"
    by simp_all
qed

lemma only_ready_pushed [simp]: "only_ready s (pushed M p as s)"
  by (simp add: only_ready_def pushed_def Let_def)

lemma only_ready_popped [simp]: "only_ready s (popped M a as s)"
  by (simp add: only_ready_def popped_def Let_def)

text \<open>The process that \<open>FindReadyPcb\<close> returns when the ready queue is \<open>ps\<close>.\<close>

definition next_ready :: "kstate \<Rightarrow> ptr list \<Rightarrow> ptr" where
  "next_ready s ps = (case ps of [] \<Rightarrow> idle_pcb s | p # _ \<Rightarrow> p)"

lemma PushProcToQueue_ok:
  assumes "ready_repr s ps" "is_pcb s p"
  shows "\<exists>s'. PushProcToQueue M p s = Inr s' \<and> ready_repr s' (ps @ [p]) \<and> only_ready s s'"
proof -
  obtain as where "ready_q s as" "heap_wf s" using assms(1) by (auto simp: ready_repr_def ready_procs_def)
  then have "PushProcToQueue M p s = Inr (pushed M p as s)" using assms(2) by (rule PushProcToQueue_eq)
  with ready_repr_push [OF assms, of M] show ?thesis by auto
qed

lemma FindReadyPcb_ok:
  assumes "ready_repr s ps"
  shows "\<exists>s'. FindReadyPcb M s = Inr (s', next_ready s ps) \<and> ready_repr s' (tl ps) \<and> only_ready s s'"
proof (cases ps)
  case Nil
  with assms have "FindReadyPcb M s = Inr (s, idle_pcb s)"
    by (auto simp: ready_repr_def ready_procs_def intro: FindReadyPcb_empty)
  with Nil assms show ?thesis by (simp add: next_ready_def only_ready_def)
next
  case (Cons p qs)
  obtain a as where q: "ready_q s (a # as)" "is_pcb s (curr_proc s)"
    using assms Cons by (auto simp: ready_repr_def ready_procs_def)
  with ready_repr_pop [of s p qs M] FindReadyPcb_eq [OF q, of M] assms Cons show ?thesis
    by (auto simp: next_ready_def)
qed

lemma ready_repr_cong:
  assumes "ready_repr s ps" "items s' = items s" "queue_head s' = queue_head s" "queue_tail s' = queue_tail s"
    "queue_size s' = queue_size s" "curr_proc s' = curr_proc s" "\<And>p. is_pcb s p \<Longrightarrow> is_pcb s' p" "heap_wf s'"
  shows "ready_repr s' ps"
proof -
  have "proc_of s' = proc_of s" using assms(2) by (simp add: proc_of_def fun_eq_iff)
  then show ?thesis using assms by (auto simp: ready_repr_def ready_procs_def ready_q_def)
qed

section \<open>Properties of the queues\<close>

text \<open>Three processes, the second one running, and empty queues.\<close>

definition demo :: kstate where
  "demo = blank\<lparr>pcbs := [1 \<mapsto> zero_pcb, 2 \<mapsto> zero_pcb\<lparr>process_id := 1\<rparr>, 3 \<mapsto> zero_pcb\<lparr>process_id := 2\<rparr>],
     curr_proc := Some 2, idle_pcb := Some 1, heap_top := 10\<rparr>"

lemma demo_facts:
  "ready_q demo []" "wait_q demo []" "heap_wf demo" "is_pcb demo (Some 1)" "is_pcb demo (Some 2)"
  "is_pcb demo (Some 3)" "curr_proc demo = Some 2" "idle_pcb demo = Some 1" "heap_top demo = 10"
  by (auto simp: demo_def blank_def ready_q_def wait_q_def heap_wf_def is_pcb_def)

lemma demo_repr: "ready_repr demo []"
  using demo_facts by (auto simp: ready_repr_def ready_procs_def)

text \<open>Dispatching \<open>n\<close> processes one after the other.\<close>

fun dispatch :: "machine \<Rightarrow> nat \<Rightarrow> kstate \<Rightarrow> (kstate \<times> ptr list) res" where
  "dispatch M 0 s = Inr (s, [])"
| "dispatch M (Suc n) s =
     rbind (FindReadyPcb M s) (\<lambda>(s, p). rbind (dispatch M n s) (\<lambda>(s, ps). Inr (s, p # ps)))"

lemma dispatch_pop_n: "dispatch M n s = ready.pop_n M n s"
  by (induction n arbitrary: s) simp_all

text \<open>C5: the ready queue is first-in first-out. If the queue holds the processes \<open>ps\<close>, then pushing the
  processes \<open>qs\<close> succeeds, and the following calls of \<open>FindReadyPcb\<close> return first \<open>ps\<close> and then \<open>qs\<close>,
  in order, and leave the queue empty.\<close>

theorem ready_queue_fifo:
  assumes "ready_repr s ps" "\<forall>q\<in>set qs. is_pcb s q"
  shows "\<exists>s' s''. fold_res (PushProcToQueue M) qs s = Inr s' \<and>
    dispatch M (length ps + length qs) s' = Inr (s'', ps @ qs) \<and> ready_repr s'' []"
  using ready.fifo [OF assms, of M] by (simp add: dispatch_pop_n)

theorem ready_queue_fifo_witness:
  "\<exists>s' s''. fold_res (PushProcToQueue tiny) [Some 3, Some 1] demo = Inr s' \<and>
    dispatch tiny 2 s' = Inr (s'', [Some 3, Some 1]) \<and> ready_repr s'' []"
  using ready_queue_fifo [OF demo_repr, of "[Some 3, Some 1]" tiny] demo_facts by (simp add: numeral_2_eq_2)

text \<open>\<open>PushProcToQueue\<close> implements appending to the queue of processes, whatever the allocated cell
  contains.\<close>

lemma PushProcToQueue_refines:
  assumes "ready_repr s ps" "is_pcb s p"
  shows "\<exists>s'. PushProcToQueue M p s = Inr s' \<and> ready_repr s' (ps @ [p]) \<and> curr_proc s' = curr_proc s \<and> pcbs s' = pcbs s"
proof -
  obtain as where q: "ready_q s as" "heap_wf s" using assms(1) by (auto simp: ready_repr_def ready_procs_def)
  have "PushProcToQueue M p s = Inr (pushed M p as s)" by (rule PushProcToQueue_eq [OF q assms(2)])
  with ready_repr_push [OF assms, of M] show ?thesis by (auto simp: pushed_def Let_def)
qed

lemma FindReadyPcb_cases:
  "ready_repr s (p # ps) \<Longrightarrow> \<exists>s'. FindReadyPcb M s = Inr (s', p) \<and> ready_repr s' ps \<and> curr_proc s' = curr_proc s"
  "ready_repr s [] \<Longrightarrow> FindReadyPcb M s = Inr (s, idle_pcb s)"
proof -
  assume r: "ready_repr s (p # ps)"
  obtain a as where q: "ready_q s (a # as)" "is_pcb s (curr_proc s)"
    using r by (auto simp: ready_repr_def ready_procs_def)
  with ready_repr_pop [OF r, of M] FindReadyPcb_eq [OF q, of M]
  show "\<exists>s'. FindReadyPcb M s = Inr (s', p) \<and> ready_repr s' ps \<and> curr_proc s' = curr_proc s" by auto
next
  assume "ready_repr s []"
  then show "FindReadyPcb M s = Inr (s, idle_pcb s)"
    by (auto simp: ready_repr_def ready_procs_def intro: FindReadyPcb_empty)
qed

text \<open>\<open>FindReadyPcb\<close> takes the first process off the ready queue, and answers the idle process
  without changing anything when the queue is empty.\<close>

lemma FindReadyPcb_refines:
  assumes "ready_repr s ps"
  shows "case ps of [] \<Rightarrow> FindReadyPcb M s = Inr (s, idle_pcb s)
    | p # qs \<Rightarrow> \<exists>s'. FindReadyPcb M s = Inr (s', p) \<and> ready_repr s' qs \<and> curr_proc s' = curr_proc s"
  using FindReadyPcb_cases [of s] assms by (cases ps) auto

lemma FindReadyPcb_refines_witness:
  "FindReadyPcb tiny demo = Inr (demo, Some 1) \<and>
   (\<exists>t s'. PushProcToQueue tiny (Some 3) demo = Inr t \<and> FindReadyPcb tiny t = Inr (s', Some 3) \<and> ready_repr s' [])"
proof -
  obtain t where t: "PushProcToQueue tiny (Some 3) demo = Inr t" "ready_repr t [Some 3]"
    using ready_repr_push [OF demo_repr demo_facts(6), of tiny] by auto
  show ?thesis
    using FindReadyPcb_refines [OF demo_repr, of tiny] FindReadyPcb_refines [OF t(2), of tiny] t demo_facts
    by auto
qed

lemma SetNextProc_cases:
  "ready_repr s (p # ps) \<Longrightarrow> \<exists>s'. SetNextProc M s = Inr (s', 1) \<and> curr_proc s' = p \<and> ready_repr s' (ps @ [curr_proc s])"
  "ready_repr s [] \<Longrightarrow> SetNextProc M s = Inr (s, - 1)"
proof -
  assume "ready_repr s (p # ps)"
  then obtain a as where q: "ready_q s (a # as)" and ps: "p = proc_of s a" "ps = map (proc_of s) as"
    and wf: "heap_wf s" and c: "is_pcb s (curr_proc s)"
    by (auto simp: ready_repr_def ready_procs_def)
  let ?t = "rotated M a as s"
  have n: "heap_top s \<notin> set (a # as)" by (rule ready_q_fresh [OF q wf])
  then have l: "last (a # as) \<noteq> heap_top s" by (metis last_in_set list.distinct(1))
  have "proc_of ?t b = proc_of s b" if "b \<in> set as" for b
    using that n proc_of_pushed [OF q wf, of b M "curr_proc s"] by (auto simp: rotated_def proc_of_def)
  moreover have "proc_of ?t (heap_top s) = curr_proc s"
    using proc_of_pushed_new [of "a # as" s M "curr_proc s"] l by (simp add: rotated_def proc_of_def)
  ultimately have "map (proc_of ?t) (as @ [heap_top s]) = ps @ [curr_proc s]" by (simp add: ps)
  moreover have "is_pcb ?t (curr_proc ?t)"
    using q ps(1) by (simp add: rotated_def is_pcb_def pushed_def Let_def ready_q_def)
  ultimately have "ready_repr ?t (ps @ [curr_proc s])"
    using ready_q_rotated [OF q wf c, of M] heap_wf_rotated [OF q wf, of M]
    unfolding ready_repr_def ready_procs_def by metis
  then show "\<exists>s'. SetNextProc M s = Inr (s', 1) \<and> curr_proc s' = p \<and> ready_repr s' (ps @ [curr_proc s])"
    using SetNextProc_eq [OF q wf c, of M] ps by (simp add: rotated_def)
next
  assume "ready_repr s []"
  then show "SetNextProc M s = Inr (s, - 1)"
    by (auto simp: ready_repr_def ready_procs_def ready_q_def SetNextProc_def)
qed

lemma SetNextProc_step:
  assumes "ready_repr s (p # ps)"
  shows "\<exists>s'. SetNextProc M s = Inr (s', 1) \<and> curr_proc s' = p \<and> ready_repr s' (ps @ [curr_proc s]) \<and>
    pcbs s' = pcbs s \<and> reg_ptr0 s' = reg_ptr0 s \<and> reg_log s' = reg_log s"
proof -
  obtain a as where q: "ready_q s (a # as)" "heap_wf s" "is_pcb s (curr_proc s)"
    using assms by (auto simp: ready_repr_def ready_procs_def)
  with SetNextProc_cases(1) [OF assms, of M] SetNextProc_eq [OF q, of M] show ?thesis
    by (auto simp: rotated_def pushed_def Let_def)
qed

text \<open>C24: \<open>SetNextProc\<close> implements one step of round robin: the first ready process becomes the
  current one and the current one goes to the end of the queue. On an empty queue it returns -1 and
  changes nothing.\<close>

theorem SetNextProc_rotates:
  assumes "ready_repr s ps"
  shows "case ps of [] \<Rightarrow> SetNextProc M s = Inr (s, - 1)
    | p # qs \<Rightarrow> \<exists>s'. SetNextProc M s = Inr (s', 1) \<and> curr_proc s' = p \<and> ready_repr s' (qs @ [curr_proc s])"
  using SetNextProc_cases [of s] assms by (cases ps) auto

theorem SetNextProc_rotates_witness:
  "SetNextProc tiny demo = Inr (demo, - 1) \<and>
   (\<exists>t s'. PushProcToQueue tiny (Some 3) demo = Inr t \<and> SetNextProc tiny t = Inr (s', 1) \<and>
      curr_proc s' = Some 3 \<and> ready_repr s' [curr_proc t])"
proof -
  obtain t where t: "PushProcToQueue tiny (Some 3) demo = Inr t" "ready_repr t [Some 3]"
    using ready_repr_push [OF demo_repr demo_facts(6), of tiny] by auto
  show ?thesis
    using SetNextProc_rotates [OF demo_repr, of tiny] SetNextProc_rotates [OF t(2), of tiny] t by auto
qed

text \<open>C21: \<open>RemoveItemFromWaitingQueue\<close> takes any item out of the delay queue - the only one, the first,
  the last or one in between - and keeps the other items in order; nothing outside the delay queue
  changes.\<close>

theorem RemoveItemFromWaitingQueue_refines:
  assumes "wait_q s (as @ a # bs)"
  shows "\<exists>s'. RemoveItemFromWaitingQueue M (Some a) s = Inr s' \<and> wait_q s' (as @ bs) \<and> same_but_wait s s' \<and>
    map (proc_of s') (as @ bs) = map (proc_of s) (as @ bs)"
proof -
  obtain s' where s': "RemoveItemFromWaitingQueue M (Some a) s = Inr s'" "wait_removed M as a bs s s'"
    using RemoveItemFromWaitingQueue_ok [OF assms] by blast
  have "a \<notin> set (as @ bs)" using wait_q_facts(2) [OF assms] by simp
  then have "map (proc_of s') (as @ bs) = map (proc_of s) (as @ bs)"
    using s'(2) by (auto simp: wait_removed_def)
  with s' show ?thesis by (auto simp: wait_removed_def)
qed

definition demo_wait :: kstate where
  "demo_wait = demo\<lparr>items := [4 \<mapsto> zero_item\<lparr>q_proc := Some 3, q_next := Some 5\<rparr>,
     5 \<mapsto> zero_item\<lparr>q_proc := Some 1, q_prev := Some 4\<rparr>],
     waiting_queue_head := Some 4, waiting_queue_tail := Some 5, waiting_queue_size := 2\<rparr>"

lemma demo_wait_q: "wait_q demo_wait [4, 5]"
  by (simp add: wait_q_def wq.dlist_def demo_wait_def demo_def zero_item_def is_pcb_def proc_of_def)

theorem RemoveItemFromWaitingQueue_refines_witness:
  "\<exists>s'. RemoveItemFromWaitingQueue tiny (Some 5) demo_wait = Inr s' \<and> wait_q s' [4] \<and> same_but_wait demo_wait s' \<and>
    map (proc_of s') [4] = map (proc_of demo_wait) [4]"
  using RemoveItemFromWaitingQueue_refines [of demo_wait "[4]" 5 "[]" tiny] demo_wait_q by simp

text \<open>\<open>PushItemToWaitingQueue\<close> appends a new item to the delay queue and changes nothing else.\<close>

lemma PushItemToWaitingQueue_refines:
  assumes "wait_q s as" "items s n = Some i" "n \<notin> set as" "is_pcb s (q_proc i)"
  shows "\<exists>s'. PushItemToWaitingQueue (Some n) s = Inr s' \<and> wait_q s' (as @ [n]) \<and> same_but_wait s s' \<and>
    map (proc_of s') (as @ [n]) = map (proc_of s) as @ [q_proc i]"
  using PushItemToWaitingQueue_wait_q [OF assms] assms(2) by (auto simp: proc_of_def)

lemma PushItemToWaitingQueue_refines_witness:
  "\<exists>s'. PushItemToWaitingQueue (Some 6) (demo_wait\<lparr>items := (items demo_wait)(6 \<mapsto> zero_item\<lparr>q_proc := Some 2\<rparr>)\<rparr>) = Inr s' \<and>
    wait_q s' [4, 5, 6] \<and> map (proc_of s') [4, 5, 6] = [Some 3, Some 1, Some 2]"
proof -
  let ?s = "demo_wait\<lparr>items := (items demo_wait)(6 \<mapsto> zero_item\<lparr>q_proc := Some 2\<rparr>)\<rparr>"
  have q: "wait_q ?s [4, 5]"
    by (simp add: wait_q_def wq.dlist_def demo_wait_def demo_def zero_item_def is_pcb_def proc_of_def)
  have "is_pcb ?s (q_proc (zero_item\<lparr>q_proc := Some 2\<rparr>))"
    by (simp add: demo_wait_def demo_def is_pcb_def)
  note push = PushItemToWaitingQueue_refines [OF q _ _ this, of 6]
  have "map (proc_of ?s) [4, 5] @ [Some 2] = [Some 3, Some 1, Some 2]"
    by (simp add: demo_wait_def zero_item_def proc_of_def)
  with push show ?thesis by auto
qed

text \<open>\<open>RemoveProcFromReadyQueue\<close> leaves the ready queue alone when the process is not in it,
  provided the next link of the last cell is \<open>NULL\<close>, so that the walk ends.\<close>

lemma RemoveProcFromReadyQueue_absent:
  assumes "ready_q s as" "ready_ends s as" "is_pcb s p" "\<forall>a\<in>set as. pid_of s (proc_of s a) \<noteq> pid_of s p"
  shows "RemoveProcFromReadyQueue M p s = Inr s"
  by (rule RemoveProc_absent_ok [OF assms])

definition demo_ready :: kstate where
  "demo_ready = demo\<lparr>items := [4 \<mapsto> zero_item\<lparr>q_proc := Some 3\<rparr>], queue_head := Some 4, queue_tail := Some 4,
     queue_size := 1\<rparr>"

lemma demo_ready_q: "ready_q demo_ready [4]" "ready_ends demo_ready [4]" "heap_wf demo_ready"
  "is_pcb demo_ready (Some 2)" "is_pcb demo_ready (Some 3)" "proc_of demo_ready 4 = Some 3"
  by (simp_all add: ready_q_def ready_ends_def demo_ready_def demo_def zero_item_def is_pcb_def proc_of_def
      heap_wf_def blank_def)

lemma demo_ready_pids: "pid_of demo_ready (Some 2) = Some 1" "pid_of demo_ready (Some 3) = Some 2"
  by (simp_all add: pid_of_def demo_ready_def demo_def rd_pcb_def zero_pcb_def)

text \<open>C40: when the process is the only one in the ready queue, \<open>RemoveProcFromReadyQueue\<close> frees its cell
  and then reads the next link of the freed cell; with an allocator that makes freed blocks
  inaccessible this is a fault.\<close>

theorem RemoveProcFromReadyQueue_use_after_free:
  assumes "ready_q s [a]" "proc_of s a = p" "\<forall>i. freed_item M i = None"
  shows "RemoveProcFromReadyQueue M p s = Inl WildDeref"
proof -
  obtain i where i: "items s a = Some i" using ready_q_alloc [OF assms(1), of a] by auto
  have "is_pcb s p" using assms(1,2) by (auto simp: ready_q_def)
  then obtain c y where y: "p = Some c" "pcbs s c = Some y" by (rule is_pcbE)
  have qp: "q_proc i = p" using i assms(2) by (simp add: proc_of_def)
  have "queue_head s = Some a" using assms(1) by (simp add: ready_q_def)
  moreover have "items (popped M a [] s) a = None" using assms(3) i by (simp add: popped_def)
  ultimately show ?thesis
    using i y qp RemoveItemFromReadyQueue_head [OF assms(1), of M]
    by (simp add: RemoveProcFromReadyQueue_def while_res_unfold)
qed

theorem RemoveProcFromReadyQueue_use_after_free_witness:
  "RemoveProcFromReadyQueue tiny (Some 3) demo_ready = Inl WildDeref"
  by (rule RemoveProcFromReadyQueue_use_after_free [OF demo_ready_q(1,6)]) (simp add: tiny_def)

end
