(* ===== verification/Memory.thy ===== *)
theory Memory
  imports Frames Queues
begin

text \<open>
  Page tables: \<open>initPT\<close> and \<open>SetKernelBrk\<close> (src/yalnix.c), \<open>findFreeVirtualPage\<close>, \<open>BorrowR1Page\<close> and
  \<open>BuildRegion0\<close> (src/sharedvar.c), \<open>BrkFunc\<close> (src/brk.c).
\<close>

section \<open>Mapping a page of Region 0\<close>

text \<open>
  The kernel fills a page table entry by assigning its four fields one after the other, the frame
  number from \<open>findFreePage\<close>. No statement in between looks at the entry, so the assignments are
  one update here.
\<close>

definition mk_pte :: "prot set \<Rightarrow> prot set \<Rightarrow> int \<Rightarrow> pte \<Rightarrow> pte" where
  "mk_pte up kp f e = e\<lparr>valid := True, uprot := up, kprot := kp, pfn := c_pfn f\<rparr>"

definition setup_pte :: "ptref \<Rightarrow> prot set \<Rightarrow> prot set \<Rightarrow> int \<Rightarrow> kstate \<Rightarrow> kstate res" where
  "setup_pte t up kp i s =
     rbind (findFreePage s) (\<lambda>(s, f). wr_pte t i (mk_pte up kp f) s)"

section \<open>The initial page tables\<close>

text \<open>The bodies of the two loops, for the kernel stack in Region 0 and for the kernel in Region 1.\<close>

definition init_r0_page :: "machine \<Rightarrow> nat \<Rightarrow> kstate \<Rightarrow> kstate res" where
  "init_r0_page M vaddr s =
     (let page = int (vaddr div PAGESIZE M) in
      rbind (wr_pte PT_region0Pt page (mk_pte PROT_NONE {PROT_READ, PROT_WRITE} page) s) (\<lambda>s.
      rbind (set_freePages page PAGE_USED s) (\<lambda>s.
      Inr (s\<lparr>num_free_pages := num_free_pages s - 1\<rparr>))))"

definition init_r1_page :: "machine \<Rightarrow> nat \<Rightarrow> kstate \<Rightarrow> kstate res" where
  "init_r1_page M vaddr s =
     (let page = int (vaddr div PAGESIZE M) - int (PAGE_TABLE_LEN M);
          kp = (if int (VMEM_1_BASE M) + page * int (PAGESIZE M) <
                   uint (UP_TO_PAGE M (of_nat (etext_addr M)))
                then {PROT_READ, PROT_EXEC} else {PROT_READ, PROT_WRITE}) in
      rbind (wr_r1 page (mk_pte PROT_NONE kp (int (vaddr div PAGESIZE M))) s) (\<lambda>s.
      set_freePages (int (vaddr div PAGESIZE M)) PAGE_USED s))"

definition initPT :: "machine \<Rightarrow> kstate \<Rightarrow> kstate res" where
  "initPT M s =
     rbind (fold_res (init_r0_page M) (addrs (PAGESIZE M) (KERNEL_STACK_BASE M) (KERNEL_STACK_LIMIT M)) s) (\<lambda>s.
     let kbrk = unat (ucast (currKernelBrk s) :: 32 word) in
     rbind (fold_res (init_r1_page M) (addrs (PAGESIZE M) (VMEM_1_BASE M) kbrk) s) (\<lambda>s.
     Inr (WriteRegister REG_PTR1 (WriteRegister (REG_PTR0 PT_region0Pt) s))))"

section \<open>Pages of Region 1\<close>

text \<open>\<open>for (v = a; v > lim; v -= d)\<close> visits \<open>down_addrs d a lim\<close>.\<close>

function down_addrs :: "nat \<Rightarrow> nat \<Rightarrow> nat \<Rightarrow> nat list" where
  "down_addrs d a lim = (if lim < a \<and> 0 < d then a # down_addrs d (a - d) lim else [])"
  by pat_completeness auto
termination
  by (relation "measure (\<lambda>(d, a, lim). a)") auto

declare down_addrs.simps [simp del]

fun findFreeVirtualPage_loop :: "machine \<Rightarrow> nat list \<Rightarrow> kstate \<Rightarrow> (kstate \<times> int) res" where
  "findFreeVirtualPage_loop M [] s = Inr (s, - 1)"
| "findFreeVirtualPage_loop M (vaddr # rest) s =
     (let page = int (vaddr div PAGESIZE M) - int (PAGE_TABLE_LEN M) in
      rbind (rd_r1 s page) (\<lambda>e.
        if \<not> valid e
        then rbind (set_freePages (page + int (PAGE_TABLE_LEN M)) PAGE_USED s) (\<lambda>s. Inr (s, page))
        else findFreeVirtualPage_loop M rest s))"

text \<open>The loop is bounded by the address of the variable \<open>currKernelBrk\<close>, not by its value.\<close>

definition findFreeVirtualPage :: "machine \<Rightarrow> kstate \<Rightarrow> (kstate \<times> int) res" where
  "findFreeVirtualPage M s =
     findFreeVirtualPage_loop M
       (down_addrs (PAGESIZE M) (VMEM_1_LIMIT M - 3 * PAGESIZE M) (kbrk_addr M)) s"

fun BorrowR1Page_loop :: "machine \<Rightarrow> nat list \<Rightarrow> kstate \<Rightarrow> int res" where
  "BorrowR1Page_loop M [] s = Inr (- 1)"
| "BorrowR1Page_loop M (vaddr # rest) s =
     (let page = int (vaddr div PAGESIZE M) - int (PAGE_TABLE_LEN M) in
      rbind (rd_r1 s page) (\<lambda>e. if \<not> valid e then Inr page else BorrowR1Page_loop M rest s))"

definition BorrowR1Page :: "machine \<Rightarrow> kstate \<Rightarrow> int res" where
  "BorrowR1Page M s = BorrowR1Page_loop M (addrs (PAGESIZE M) (VMEM_1_BASE M) (VMEM_1_LIMIT M)) s"

definition kernel_stack_vpns :: "machine \<Rightarrow> int list" where
  "kernel_stack_vpns M =
     map (\<lambda>v. int (v div PAGESIZE M)) (addrs (PAGESIZE M) (KERNEL_STACK_BASE M) (KERNEL_STACK_LIMIT M))"

definition BuildRegion0 :: "machine \<Rightarrow> ptr \<Rightarrow> kstate \<Rightarrow> kstate res" where
  "BuildRegion0 M proc s =
     rbind (rd_pcb s proc) (\<lambda>_.
     rbind (findFreeVirtualPage M s) (\<lambda>(s, vp).
     let virtualPage = c_ulong vp in
     rbind (wr_r1 (uint virtualPage)
              (mk_pte PROT_NONE {PROT_READ, PROT_WRITE} (int (PAGE_TABLE_LEN M) + uint virtualPage)) s) (\<lambda>s.
     rbind (rd_r1 s (uint virtualPage)) (\<lambda>e.
     let s = WriteRegister (REG_TLB_FLUSH (TLB_FLUSH_ADDR (push_bit (PAGESHIFT M) (ucast (pfn e))))) s in
     rbind (wr_pcb proc (\<lambda>p. p\<lparr>region0 := PT_R1 (unat virtualPage), free_vpn := virtualPage\<rparr>) s) (\<lambda>s.
     fold_res (setup_pte (PT_R1 (unat virtualPage)) PROT_NONE {PROT_READ, PROT_WRITE})
       (kernel_stack_vpns M) s)))))"

section \<open>Moving the break of a process\<close>

text \<open>The loops that move the break \<open>b\<close> of a process by \<open>n\<close> pages.\<close>

definition brk_down :: "64 word \<Rightarrow> nat \<Rightarrow> kstate \<Rightarrow> kstate res" where
  "brk_down b n s =
     fold_res (\<lambda>i s.
       rbind (freePage (c_int (b + of_nat i)) s) (\<lambda>s.
       wr_pte PT_region0Pt (uint (b + of_nat i)) (valid_update (\<lambda>_. False)) s))
       [0..<n] s"

definition brk_up :: "64 word \<Rightarrow> nat \<Rightarrow> kstate \<Rightarrow> kstate res" where
  "brk_up b n s =
     fold_res (\<lambda>i. setup_pte PT_region0Pt {PROT_READ, PROT_WRITE} {PROT_READ, PROT_WRITE} (uint (b + of_nat i)))
       [0..<n] s"

definition BrkFunc :: "machine \<Rightarrow> 64 word \<Rightarrow> kstate \<Rightarrow> (kstate \<times> int) res" where
  "BrkFunc M addr s =
     (let roundedBrk = drop_bit (PAGESHIFT M) (UP_TO_PAGE M addr) in
      rbind (rd_pcb s (curr_proc s)) (\<lambda>c.
      if roundedBrk < brk c \<and> of_nat (MEM_INVALID_PAGES M) \<le> roundedBrk
      then rbind (brk_down (brk c) (nat (c_int (brk c - roundedBrk))) s) (\<lambda>s.
           rbind (wr_pcb (curr_proc s) (brk_update (\<lambda>_. roundedBrk)) s) (\<lambda>s.
           Inr (s, 0)))
      else if brk c \<le> roundedBrk
      then rbind (brk_up (brk c) (nat (c_int (roundedBrk - brk c))) s) (\<lambda>s.
           rbind (wr_pcb (curr_proc s) (brk_update (\<lambda>_. roundedBrk)) s) (\<lambda>s.
           Inr (s, 0)))
      else Inr (s, ERROR)))"

section \<open>Moving the break of the kernel\<close>

definition SetKernelBrk :: "machine \<Rightarrow> 64 word \<Rightarrow> kstate \<Rightarrow> (kstate \<times> int) res" where
  "SetKernelBrk M addr s =
     (if \<not> vm_enabled s then Inr (s\<lparr>currKernelBrk := addr\<rparr>, 0)
      else
        let pagesNeeded = c_int (signed_drop_bit (PAGESHIFT M) (UP_TO_PAGE M addr) -
                                 signed_drop_bit (PAGESHIFT M) (DOWN_TO_PAGE M (currKernelBrk s))) in
        if num_free_pages s < pagesNeeded then Inr (s, ERROR)
        else
          let currBrkPg = c_int (signed_drop_bit (PAGESHIFT M) (currKernelBrk s) - of_nat (PAGE_TABLE_LEN M)) in
          rbind (fold_res (\<lambda>page s.
            rbind (findFreePage s) (\<lambda>(s, newPage).
            wr_r1 (currBrkPg + int page) (mk_pte PROT_NONE {PROT_READ, PROT_WRITE} newPage) s))
            [0..<nat pagesNeeded] s) (\<lambda>s.
          let s = WriteRegister (REG_TLB_FLUSH TLB_FLUSH_ALL) s in
          Inr (s\<lparr>currKernelBrk := addr\<rparr>, 0)))"

section \<open>Mapping a run of pages\<close>

lemma mk_pte_eq: "mk_pte up kp f e = \<lparr>pfn = c_pfn f, uprot = up, kprot = kp, valid = True\<rparr>"
  by (cases e) (simp add: mk_pte_def)

definition tbl_len :: "ptref \<Rightarrow> nat \<Rightarrow> kstate \<Rightarrow> bool" where
  "tbl_len t n s \<longleftrightarrow> (\<exists>ps. tbl s t = Inr ps \<and> length ps = n)"

definition entry :: "ptref \<Rightarrow> kstate \<Rightarrow> nat \<Rightarrow> pte option" where
  "entry t s i = (case tbl s t of Inl _ \<Rightarrow> None | Inr ps \<Rightarrow> if i < length ps then Some (ps ! i) else None)"

lemma tbl_take_frame [simp]: "tbl (take_frame p s) t = tbl s t"
  by (simp add: tbl_def take_frame_def split: ptref.splits)

lemma tbl_put_tbl [simp]: "tbl s t = Inr qs \<Longrightarrow> tbl (put_tbl t ps s) t = Inr ps"
  by (auto simp: tbl_def put_tbl_def split: ptref.splits if_splits)

lemma put_tbl_frame [simp]:
  "freePages (put_tbl t ps s) = freePages s" "num_pages (put_tbl t ps s) = num_pages s"
  "num_free_pages (put_tbl t ps s) = num_free_pages s" "free_list (put_tbl t ps s) = free_list s"
  "frames_wf (put_tbl t ps s) = frames_wf s"
  by (simp_all add: put_tbl_def free_list_def frames_wf_def split: ptref.splits)

lemma wr_pte_Ok:
  assumes "tbl s t = Inr ps" "i < length ps"
  shows "wr_pte t (int i) f s = Inr (put_tbl t (ps[i := f (ps ! i)]) s)"
  using assms by (simp add: wr_pte_def)

lemma findFreePage_tbl: "findFreePage s = Inr (s', p) \<Longrightarrow> frames_wf s \<Longrightarrow> tbl s' t = tbl s t"
  by (auto simp: findFreePage_eq split: list.splits)

interpretation ptmap: page_mapper findFreePage free_list "\<lambda>s. frames_wf s \<and> tbl_len t n s"
  "\<lambda>i p. wr_pte t (int i) (mk_pte up kp p)" "entry t" "\<lambda>p. map_option (mk_pte up kp p)" n
  for t n up kp
proof unfold_locales
  fix s p ps assume "frames_wf s \<and> tbl_len t n s" "free_list s = p # ps"
  then show "\<exists>s'. findFreePage s = Inr (s', int p) \<and> free_list s' = ps \<and> frames_wf s' \<and> tbl_len t n s'"
    by (simp add: findFreePage_eq free_list_take_frame tbl_len_def)
next
  fix s i p assume s: "frames_wf s \<and> tbl_len t n s" and i: "i < n"
  then obtain ps where ps: "tbl s t = Inr ps" "length ps = n" by (auto simp: tbl_len_def)
  have "entry t (put_tbl t (ps[i := mk_pte up kp p (ps ! i)]) s)
      = (entry t s)(i := map_option (mk_pte up kp p) (entry t s i))"
    using ps i by (auto simp: entry_def fun_eq_iff nth_list_update)
  with s i ps show "\<exists>s'. wr_pte t (int i) (mk_pte up kp p) s = Inr s' \<and> (frames_wf s' \<and> tbl_len t n s') \<and>
      free_list s' = free_list s \<and> entry t s' = (entry t s)(i := map_option (mk_pte up kp p) (entry t s i))"
    by (simp add: wr_pte_Ok tbl_len_def)
next
  fix s s' p assume "frames_wf s \<and> tbl_len t n s" "findFreePage s = Inr (s', p)"
  then show "entry t s' = entry t s"
    by (simp add: entry_def fun_eq_iff findFreePage_tbl)
qed (simp_all add: findFreePage_eq)

lemma setup_pte_map_page: "setup_pte t up kp (int i) = ptmap.map_page t up kp i"
  by (simp add: setup_pte_def ptmap.map_page_def fun_eq_iff)

lemma hw_table_tbl: "tbl s t = Inr ps \<Longrightarrow> hw_table s t = ps"
  by (auto simp: tbl_def hw_table_def split: ptref.splits if_splits)

section \<open>Arithmetic on page numbers\<close>

lemma c_int_small:
  assumes "unat w < 2 ^ 31"
  shows "c_int w = int (unat w)"
proof -
  have "int (unat w) < int (2 ^ 31)" using assms by (simp only: of_nat_less_iff)
  then have "uint w < 2 ^ 31" by simp
  moreover have "- (2 ^ 31) \<le> uint w" by (rule order_trans [OF _ uint_ge_0]) simp
  ultimately have "signed_take_bit 31 (uint w) = uint w" by (rule signed_take_bit_int_eq_self [rotated])
  with \<open>uint w < 2 ^ 31\<close> show ?thesis
    by (simp add: c_int_def sint_uint unsigned_ucast_eq take_bit_int_eq_self)
qed

lemma uint_plus_small:
  assumes "unat (b :: 64 word) + i < 2 ^ 64"
  shows "uint (b + of_nat i) = int (unat b + i)"
proof -
  have "unat (b + of_nat i) = unat b + i" using assms by (simp add: unat_word_ariths unat_of_nat)
  then show ?thesis by (metis uint_nat)
qed

lemma c_int_diff:
  assumes "a \<le> (b :: 64 word)" "unat b < 2 ^ 31"
  shows "c_int (b - a) = int (unat b - unat a)"
  using assms by (simp add: c_int_small unat_sub)

lemma signed_drop_bit_small:
  assumes "unat (w :: 64 word) < 2 ^ 63"
  shows "signed_drop_bit n w = drop_bit n w"
proof -
  have "unat w div 2 ^ 63 = 0" using assms by simp
  then have "\<not> bit (unat w) 63" by (simp add: bit_iff_odd)
  then have "\<not> bit w 63" by (simp add: bit_unsigned_iff)
  then show ?thesis
    by (intro bit_word_eqI) (auto simp: bit_signed_drop_bit_iff bit_drop_bit_eq dest: bit_imp_le_length)
qed

lemma unat_page: "unat (drop_bit (PAGESHIFT M) w) = unat w div PAGESIZE M"
  by (simp add: unat_drop_bit_eq drop_bit_nat_def PAGESIZE_def)

lemma page_DOWN_TO_PAGE: "drop_bit (PAGESHIFT M) (DOWN_TO_PAGE M w) = drop_bit (PAGESHIFT M) w"
  unfolding DOWN_TO_PAGE_def by (rule bit_word_eqI) (auto simp: bit_simps dest: bit_imp_le_length)

lemma unat_DOWN_TO_PAGE_le: "unat (DOWN_TO_PAGE M w) \<le> unat w"
proof -
  have "DOWN_TO_PAGE M w = w AND NOT (mask (PAGESHIFT M))"
    unfolding DOWN_TO_PAGE_def by (rule bit_word_eqI) (auto simp: bit_simps)
  then show ?thesis by (simp add: word_and_le2 flip: word_le_nat_alt)
qed

lemma unat_PAGEOFFSET:
  assumes "PAGESHIFT M < 31"
  shows "unat (push_bit (PAGESHIFT M) 1 - 1 :: 64 word) = PAGESIZE M - 1"
proof -
  have "(push_bit (PAGESHIFT M) 1 - 1 :: 64 word) = of_nat (2 ^ PAGESHIFT M - 1)"
    by (simp add: push_bit_eq_mult of_nat_diff)
  moreover have "(2::nat) ^ PAGESHIFT M < 2 ^ 64" using assms by (intro power_strict_increasing) simp_all
  then have "(2::nat) ^ PAGESHIFT M - 1 < 2 ^ 64" by (rule le_less_trans [OF diff_le_self])
  ultimately show ?thesis
    by (simp only: unat_of_nat mod_less len_bit0 len_num1 PAGESIZE_def) (simp add: take_bit_nat_eq_self)
qed

lemma unat_UP_TO_PAGE:
  assumes "PAGESHIFT M < 31" "unat w + PAGESIZE M < 2 ^ 63"
  shows "unat (drop_bit (PAGESHIFT M) (UP_TO_PAGE M w)) = (unat w + PAGESIZE M - 1) div PAGESIZE M"
    "unat (UP_TO_PAGE M w) < 2 ^ 63"
proof -
  let ?v = "w + (push_bit (PAGESHIFT M) 1 - 1)"
  have v: "unat ?v = unat w + PAGESIZE M - 1"
    unfolding unat_word_ariths(1) unat_PAGEOFFSET [OF assms(1)]
    using assms(2) Nat.add_diff_assoc [of 1 "PAGESIZE M" "unat w"] PAGESIZE_pos [of M] by (simp add: Suc_le_eq)
  then show "unat (drop_bit (PAGESHIFT M) (UP_TO_PAGE M w)) = (unat w + PAGESIZE M - 1) div PAGESIZE M"
    by (simp add: UP_TO_PAGE_def page_DOWN_TO_PAGE unat_page)
  have "unat (UP_TO_PAGE M w) \<le> unat ?v" unfolding UP_TO_PAGE_def by (rule unat_DOWN_TO_PAGE_le)
  then show "unat (UP_TO_PAGE M w) < 2 ^ 63" using v assms(2) by simp
qed

section \<open>What mapping pages leaves alone\<close>

definition only_maps :: "kstate \<Rightarrow> kstate \<Rightarrow> bool" where
  "only_maps s s' \<longleftrightarrow> s' = s\<lparr>freePages := freePages s', num_free_pages := num_free_pages s',
     region0Pt := region0Pt s', r1_tables := r1_tables s'\<rparr>"

lemma only_maps_refl [simp]: "only_maps s s"
  by (simp add: only_maps_def)

lemma only_maps_trans: "only_maps s t \<Longrightarrow> only_maps t u \<Longrightarrow> only_maps s u"
proof -
  assume st: "only_maps s t" and tu: "only_maps t u"
  obtain a b c d where t: "t = s\<lparr>freePages := a, num_free_pages := b, region0Pt := c, r1_tables := d\<rparr>"
    using st unfolding only_maps_def by blast
  obtain a' b' c' d' where "u = t\<lparr>freePages := a', num_free_pages := b', region0Pt := c', r1_tables := d'\<rparr>"
    using tu unfolding only_maps_def by blast
  with t show "only_maps s u" by (simp add: only_maps_def)
qed

lemma only_mapsD:
  assumes "only_maps s s'"
  shows "pcbs s' = pcbs s" "items s' = items s" "curr_proc s' = curr_proc s" "region1Pt s' = region1Pt s"
    "num_pages s' = num_pages s" "reg_ptr0 s' = reg_ptr0 s" "frames s' = frames s" "reg_log s' = reg_log s"
    "idle_pcb s' = idle_pcb s" "heap_top s' = heap_top s" "console s' = console s"
proof -
  obtain a b c d where "s' = s\<lparr>freePages := a, num_free_pages := b, region0Pt := c, r1_tables := d\<rparr>"
    using assms unfolding only_maps_def by blast
  then show "pcbs s' = pcbs s" "items s' = items s" "curr_proc s' = curr_proc s" "region1Pt s' = region1Pt s"
    "num_pages s' = num_pages s" "reg_ptr0 s' = reg_ptr0 s" "frames s' = frames s" "reg_log s' = reg_log s"
    "idle_pcb s' = idle_pcb s" "heap_top s' = heap_top s" "console s' = console s"
    by simp_all
qed

lemma only_frames_maps: "only_frames s s' \<Longrightarrow> only_maps s s'"
proof -
  assume "only_frames s s'"
  then obtain a b where "s' = s\<lparr>freePages := a, num_free_pages := b\<rparr>" unfolding only_frames_def by blast
  then show ?thesis by (simp add: only_maps_def)
qed

lemma only_frames_tbl: "only_frames s s' \<Longrightarrow> tbl s' t = tbl s t"
proof -
  assume "only_frames s s'"
  then obtain a b where "s' = s\<lparr>freePages := a, num_free_pages := b\<rparr>" unfolding only_frames_def by blast
  then show ?thesis by (simp add: tbl_def split: ptref.split)
qed

lemma wr_pte_only:
  assumes "wr_pte t i f s = Inr s'"
  shows "only_maps s s'" "t' \<noteq> t \<Longrightarrow> tbl s' t' = tbl s t'"
  using assms by (auto simp: wr_pte_def only_maps_def put_tbl_def tbl_def elim!: rbind_OkE split: ptref.splits if_splits)

lemma setup_pte_only:
  assumes "setup_pte t up kp i s = Inr s'"
  shows "only_maps s s'" "t' \<noteq> t \<Longrightarrow> tbl s' t' = tbl s t'"
proof -
  obtain u f where u: "findFreePage s = Inr (u, f)" "wr_pte t i (mk_pte up kp f) u = Inr s'"
    using assms by (auto simp: setup_pte_def elim!: rbind_OkE)
  note o = findFreePage_only [OF u(1)] and w = wr_pte_only [OF u(2)]
  show "only_maps s s'" by (rule only_maps_trans [OF only_frames_maps [OF o] w(1)])
  show "tbl s' t' = tbl s t'" if "t' \<noteq> t" using w(2) [OF that] only_frames_tbl [OF o] by simp
qed

text \<open>A well-formed frame table, with the number of free frames that the counter does not count.\<close>

definition uncounted :: "kstate \<Rightarrow> int" where
  "uncounted s = num_free_pages s - int (length (free_list s))"

lemma setup_pte_frame:
  assumes "frames_wf s" "setup_pte t up kp i s = Inr s'"
  shows "frames_wf s'" "only_maps s s'" "uncounted s' = uncounted s" "t' \<noteq> t \<Longrightarrow> tbl s' t' = tbl s t'"
proof -
  obtain u f where u: "findFreePage s = Inr (u, f)" "wr_pte t i (mk_pte up kp f) u = Inr s'"
    using assms(2) by (auto simp: setup_pte_def elim!: rbind_OkE)
  note c = findFreePage_counted [OF assms(1) u(1)]
  obtain ps where s': "s' = put_tbl t ps u" using u(2) by (auto simp: wr_pte_def elim!: rbind_OkE)
  have o: "only_maps s u"
    using u(1) assms(1) by (auto simp: findFreePage_eq only_maps_def take_frame_def split: list.splits)
  have "only_maps u s'" by (simp add: s' only_maps_def put_tbl_def split: ptref.split)
  with o show "only_maps s s'" by (rule only_maps_trans)
  show "frames_wf s'" "uncounted s' = uncounted s" using c by (simp_all add: s' uncounted_def)
  show "tbl s' t' = tbl s t'" if "t' \<noteq> t"
    using that findFreePage_tbl [OF u(1) assms(1), of t']
    by (auto simp: s' tbl_def put_tbl_def split: ptref.splits)
qed

lemma setup_ptes_frame:
  assumes "frames_wf s" "fold_res (setup_pte t up kp) is s = Inr s'"
  shows "frames_wf s' \<and> only_maps s s' \<and> uncounted s' = uncounted s \<and> (\<forall>t'. t' \<noteq> t \<longrightarrow> tbl s' t' = tbl s t')"
proof (rule fold_res_inv [OF assms(2)])
  fix i u v
  assume u: "frames_wf u \<and> only_maps s u \<and> uncounted u = uncounted s \<and> (\<forall>t'. t' \<noteq> t \<longrightarrow> tbl u t' = tbl s t')"
    and v: "setup_pte t up kp i u = Inr v"
  then have "frames_wf u" by simp
  note f = setup_pte_frame [OF this v]
  show "frames_wf v \<and> only_maps s v \<and> uncounted v = uncounted s \<and> (\<forall>t'. t' \<noteq> t \<longrightarrow> tbl v t' = tbl s t')"
    using u f(1,3,4) only_maps_trans [OF _ f(2)] by simp
qed (simp add: assms(1))

lemma setup_ptes:
  assumes "frames_wf s" "tbl_len t n s" "distinct is" "set is \<subseteq> {..<n}" "length is \<le> length (free_list s)"
  shows "\<exists>s'. fold_res (setup_pte t up kp) (map int is) s = Inr s' \<and> frames_wf s' \<and> tbl_len t n s' \<and>
    free_list s' = drop (length is) (free_list s) \<and>
    (\<forall>k<length is. entry t s' (is ! k) = map_option (mk_pte up kp (int (free_list s ! k))) (entry t s (is ! k))) \<and>
    (\<forall>j. j \<notin> set is \<longrightarrow> entry t s' j = entry t s j)"
  using ptmap.map_pages [of s t n "is" up kp] assms
  by (simp add: fold_res_map setup_pte_map_page)

text \<open>A run of pages is mapped to the first free frames, and nothing else happens to the table.\<close>

definition mapped_run :: "ptref \<Rightarrow> nat \<Rightarrow> prot set \<Rightarrow> prot set \<Rightarrow> nat list \<Rightarrow> kstate \<Rightarrow> kstate \<Rightarrow> bool" where
  "mapped_run pt n up kp is s s' \<longleftrightarrow> frames_wf s' \<and> tbl_len pt n s' \<and> only_maps s s' \<and>
     free_list s' = drop (length is) (free_list s) \<and>
     (\<forall>k<length is. entry pt s' (is ! k) =
        Some \<lparr>pfn = c_pfn (int (free_list s ! k)), uprot = up, kprot = kp, valid = True\<rparr>) \<and>
     (\<forall>j. j \<notin> set is \<longrightarrow> entry pt s' j = entry pt s j)"

lemma setup_run:
  assumes "frames_wf s" "tbl_len pt n s" "distinct is" "set is \<subseteq> {..<n}" "length is \<le> length (free_list s)"
  shows "\<exists>s'. fold_res (setup_pte pt up kp) (map int is) s = Inr s' \<and> mapped_run pt n up kp is s s'"
proof -
  obtain s' where s': "fold_res (setup_pte pt up kp) (map int is) s = Inr s'" "frames_wf s'" "tbl_len pt n s'"
      "free_list s' = drop (length is) (free_list s)"
      "\<forall>k<length is. entry pt s' (is ! k) = map_option (mk_pte up kp (int (free_list s ! k))) (entry pt s (is ! k))"
      "\<forall>j. j \<notin> set is \<longrightarrow> entry pt s' j = entry pt s j"
    using setup_ptes [OF assms, of up kp] by blast
  have "entry pt s' (is ! k) = Some \<lparr>pfn = c_pfn (int (free_list s ! k)), uprot = up, kprot = kp, valid = True\<rparr>"
    if k: "k < length is" for k
  proof -
    have "is ! k < n" using assms(4) k by (meson lessThan_iff nth_mem subsetD)
    then obtain e where "entry pt s (is ! k) = Some e" using assms(2) by (auto simp: tbl_len_def entry_def)
    with s'(5) k show ?thesis by (simp add: mk_pte_eq)
  qed
  with s' setup_ptes_frame [OF assms(1) s'(1)] show ?thesis by (auto simp: mapped_run_def)
qed

section \<open>The frames of a table\<close>

lemma tbl_frame [simp]:
  "tbl (WriteRegister w s) t = tbl s t" "tbl (s\<lparr>pcbs := h\<rparr>) t = tbl s t" "tbl (s\<lparr>curr_proc := p\<rparr>) t = tbl s t"
  by (cases w; cases t; simp add: WriteRegister_def tbl_def)+

lemma entry_frame [simp]: "entry t (WriteRegister w s) = entry t s" "entry t (s\<lparr>pcbs := h\<rparr>) = entry t s"
  by (simp_all add: entry_def fun_eq_iff)

lemma free_list_frame [simp]:
  "free_list (WriteRegister w s) = free_list s" "free_list (s\<lparr>pcbs := h\<rparr>) = free_list s"
  "pcbs (WriteRegister w s) = pcbs s"
  by (simp_all add: free_list_def WriteRegister_def Let_def split: reg_write.split)

lemma freePage_uint:
  assumes "unat p < length (freePages s)"
  shows "freePage (uint (p :: 20 word)) s =
    Inr (s\<lparr>freePages := (freePages s)[unat p := PAGE_FREE], num_free_pages := num_free_pages s + 1\<rparr>)"
  using freePage_Ok [OF assms] by simp

definition owned_frames :: "ptref \<Rightarrow> nat \<Rightarrow> kstate \<Rightarrow> nat set" where
  "owned_frames t k s = {f. \<exists>j<k. \<exists>e. entry t s j = Some e \<and> valid e \<and> unat (pfn e) = f}"

lemma owned_frames_Suc:
  "owned_frames t (Suc k) s = owned_frames t k s \<union> {f. \<exists>e. entry t s k = Some e \<and> valid e \<and> unat (pfn e) = f}"
  by (auto simp: owned_frames_def less_Suc_eq)

lemma tbl_freePages [simp]: "tbl (s\<lparr>freePages := f, num_free_pages := n\<rparr>) t = tbl s t"
  by (cases t) (simp_all add: tbl_def)

section \<open>Properties of the break of a process\<close>

text \<open>
  \<open>BrkFunc\<close> maps and unmaps pages of the static table \<open>region0Pt\<close>. Any run of it is a sequence of
  changes to that table and to the frames.
\<close>

definition only_region0Pt :: "kstate \<Rightarrow> kstate \<Rightarrow> bool" where
  "only_region0Pt s t \<longleftrightarrow> only_maps s t \<and> (\<forall>t'. t' \<noteq> PT_region0Pt \<longrightarrow> tbl t t' = tbl s t')"

lemma brk_up_only:
  assumes "brk_up b n s = Inr t"
  shows "only_region0Pt s t"
proof (rule fold_res_inv [OF assms [unfolded brk_up_def]])
  fix i u v
  assume "only_region0Pt s u"
    and v: "setup_pte PT_region0Pt {PROT_READ, PROT_WRITE} {PROT_READ, PROT_WRITE} (uint (b + of_nat i)) u = Inr v"
  then show "only_region0Pt s v"
    using setup_pte_only [OF v] only_maps_trans by (auto simp: only_region0Pt_def)
qed (simp_all add: only_region0Pt_def)

lemma brk_down_only:
  assumes "brk_down b n s = Inr t"
  shows "only_region0Pt s t"
proof (rule fold_res_inv [OF assms [unfolded brk_down_def]])
  fix i u v
  assume u: "only_region0Pt s u"
    and "rbind (freePage (c_int (b + of_nat i)) u)
      (wr_pte PT_region0Pt (uint (b + of_nat i)) (valid_update (\<lambda>_. False))) = Inr v"
  then obtain w where w: "freePage (c_int (b + of_nat i)) u = Inr w"
      "wr_pte PT_region0Pt (uint (b + of_nat i)) (valid_update (\<lambda>_. False)) w = Inr v"
    by (auto elim!: rbind_OkE)
  note o = freePage_only [OF w(1)] and x = wr_pte_only [OF w(2)]
  have "only_maps u v" by (rule only_maps_trans [OF only_frames_maps [OF o] x(1)])
  then show "only_region0Pt s v"
    using u only_maps_trans x(2) only_frames_tbl [OF o] by (auto simp: only_region0Pt_def)
qed (simp_all add: only_region0Pt_def)

lemma wr_pcb_only: "wr_pcb p f s = Inr s' \<Longrightarrow> \<exists>h. s' = s\<lparr>pcbs := h\<rparr>"
  by (auto simp: wr_pcb_def elim!: rbind_OkE)

lemma BrkFunc_only:
  assumes "BrkFunc M addr s = Inr (s', r)"
  shows "\<exists>t h. only_region0Pt s t \<and> s' = t\<lparr>pcbs := h\<rparr>"
proof -
  let ?r = "drop_bit (PAGESHIFT M) (UP_TO_PAGE M addr)"
  obtain c where c: "rd_pcb s (curr_proc s) = Inr c" using assms by (auto simp: BrkFunc_def Let_def elim!: rbind_OkE)
  consider "?r < brk c \<and> of_nat (MEM_INVALID_PAGES M) \<le> ?r" | "brk c \<le> ?r"
    | "\<not> (?r < brk c \<and> of_nat (MEM_INVALID_PAGES M) \<le> ?r)" "\<not> brk c \<le> ?r" by blast
  then show ?thesis
  proof cases
    case 1
    then obtain t where "brk_down (brk c) (nat (c_int (brk c - ?r))) s = Inr t"
        "wr_pcb (curr_proc t) (brk_update (\<lambda>_. ?r)) t = Inr s'"
      using assms c by (auto simp: BrkFunc_def Let_def elim!: rbind_OkE)
    then show ?thesis using brk_down_only wr_pcb_only by blast
  next
    case 2
    moreover have "\<not> ?r < brk c" using 2 by simp
    ultimately obtain t where "brk_up (brk c) (nat (c_int (?r - brk c))) s = Inr t"
        "wr_pcb (curr_proc t) (brk_update (\<lambda>_. ?r)) t = Inr s'"
      using assms c by (auto simp: BrkFunc_def Let_def elim!: rbind_OkE)
    then show ?thesis using brk_up_only wr_pcb_only by blast
  next
    case 3
    then have "s' = s\<lparr>pcbs := pcbs s\<rparr>" using assms c by (simp add: BrkFunc_def Let_def)
    moreover have "only_region0Pt s s" by (simp add: only_region0Pt_def)
    ultimately show ?thesis by blast
  qed
qed

lemma vpn_run:
  assumes "unat (b :: 64 word) + n < 2 ^ 64"
  shows "map (\<lambda>i. uint (b + of_nat i)) [0..<n] = map int [unat b..<unat b + n]"
proof -
  have "map (\<lambda>i. uint (b + of_nat i)) [0..<n] = map (\<lambda>i. int (i + unat b)) [0..<n]"
    using assms by (auto simp: uint_plus_small)
  also have "\<dots> = map int (map (\<lambda>i. i + unat b) [0..<n])" by simp
  finally show ?thesis by (simp only: map_add_upt add.commute)
qed

lemma brk_up_eq:
  assumes "unat b + n < 2 ^ 64"
  shows "brk_up b n s =
    fold_res (setup_pte PT_region0Pt {PROT_READ, PROT_WRITE} {PROT_READ, PROT_WRITE}) (map int [unat b..<unat b + n]) s"
  unfolding brk_up_def by (simp only: vpn_run [OF assms, symmetric] fold_res_map)

lemma region0Pt_entry: "entry PT_region0Pt s i = (if i < length (region0Pt s) then Some (region0Pt s ! i) else None)"
  by (simp add: entry_def tbl_def)

lemma region0Pt_len: "tbl_len PT_region0Pt n s \<longleftrightarrow> length (region0Pt s) = n"
  by (simp add: tbl_len_def tbl_def)

lemma brk_down_ok:
  assumes "unat b + n \<le> length (region0Pt s)" "unat b + n \<le> length (freePages s)" "unat b + n < 2 ^ 31"
  shows "\<exists>s'. brk_down b n s = Inr s' \<and> length (region0Pt s') = length (region0Pt s) \<and>
    length (freePages s') = length (freePages s) \<and> pcbs s' = pcbs s \<and> curr_proc s' = curr_proc s \<and>
    num_free_pages s' = num_free_pages s + int n \<and>
    (\<forall>j. if unat b \<le> j \<and> j < unat b + n then region0Pt s' ! j = (region0Pt s ! j)\<lparr>valid := False\<rparr> \<and> freePages s' ! j = PAGE_FREE
         else region0Pt s' ! j = region0Pt s ! j \<and> freePages s' ! j = freePages s ! j)"
  using assms
proof (induction n)
  case 0
  then show ?case by (auto simp: brk_down_def)
next
  case (Suc n)
  then obtain u where u: "brk_down b n s = Inr u" "length (region0Pt u) = length (region0Pt s)"
      "length (freePages u) = length (freePages s)" "pcbs u = pcbs s" "curr_proc u = curr_proc s"
      "num_free_pages u = num_free_pages s + int n"
      "\<forall>j. if unat b \<le> j \<and> j < unat b + n then region0Pt u ! j = (region0Pt s ! j)\<lparr>valid := False\<rparr> \<and> freePages u ! j = PAGE_FREE
         else region0Pt u ! j = region0Pt s ! j \<and> freePages u ! j = freePages s ! j"
    by auto
  define j where "j = unat b + n"
  have j: "j < length (region0Pt u)" "j < length (freePages u)" "j < 2 ^ 31"
    using Suc.prems u(2,3) by (simp_all add: j_def)
  let ?v = "u\<lparr>freePages := (freePages u)[j := PAGE_FREE], num_free_pages := num_free_pages u + 1,
      region0Pt := (region0Pt u)[j := (region0Pt u ! j)\<lparr>valid := False\<rparr>]\<rparr>"
  have un: "unat (b + of_nat n) = j" using Suc.prems(3) by (simp add: j_def unat_word_ariths unat_of_nat)
  then have w: "c_int (b + of_nat n) = int j" "uint (b + of_nat n) = int j"
    using j(3) by (simp add: c_int_small) (metis un uint_nat)
  have "brk_down b (Suc n) s = Inr ?v"
    using u(1) j w freePage_Ok [OF j(2)]
    by (simp add: brk_down_def fold_res_append wr_pte_def tbl_def put_tbl_def)
  moreover have "\<forall>i. if unat b \<le> i \<and> i < unat b + Suc n then region0Pt ?v ! i = (region0Pt s ! i)\<lparr>valid := False\<rparr> \<and> freePages ?v ! i = PAGE_FREE
      else region0Pt ?v ! i = region0Pt s ! i \<and> freePages ?v ! i = freePages s ! i"
  proof
    fix i
    show "if unat b \<le> i \<and> i < unat b + Suc n then region0Pt ?v ! i = (region0Pt s ! i)\<lparr>valid := False\<rparr> \<and> freePages ?v ! i = PAGE_FREE
      else region0Pt ?v ! i = region0Pt s ! i \<and> freePages ?v ! i = freePages s ! i"
      using u(7) [rule_format, of i] u(7) [rule_format, of j] j by (cases "i = j") (auto simp: j_def)
  qed
  ultimately show ?case using u(2-6) by (intro exI [of _ ?v]) auto
qed

text \<open>\<open>Brk\<close> never changes a page table in Region 1 and flushes nothing. Every process but the idle
  process has its table there, so the pages of its own address space stay as they are.\<close>

lemma BrkFunc_ignores_process_table:
  assumes "BrkFunc M addr s = Inr (s', r)"
  shows "tbl s' (PT_R1 v) = tbl s (PT_R1 v) \<and> reg_log s' = reg_log s"
proof -
  obtain t h where t: "only_region0Pt s t" "s' = t\<lparr>pcbs := h\<rparr>" using BrkFunc_only [OF assms] by blast
  then have "tbl t (PT_R1 v) = tbl s (PT_R1 v)" "reg_log t = reg_log s"
    using only_mapsD(8) by (auto simp: only_region0Pt_def)
  moreover have "tbl s' (PT_R1 v) = tbl t (PT_R1 v)" "reg_log s' = reg_log t" using t(2) by (simp_all add: tbl_def)
  ultimately show ?thesis by simp
qed

lemma demo_rounding: "drop_bit (PAGESHIFT tiny) (UP_TO_PAGE tiny 200) = 4" "drop_bit (PAGESHIFT tiny) (UP_TO_PAGE tiny 100) = 2"
  by (simp_all add: tiny_def UP_TO_PAGE_def DOWN_TO_PAGE_def)

definition demo_brk :: kstate where
  "demo_brk = blank\<lparr>pcbs := [1 \<mapsto> zero_pcb\<lparr>brk := 3, region0 := PT_R1 2\<rparr>], curr_proc := Some 1\<rparr>"

lemma demo_brk_frames: "frames_wf demo_brk" "free_list demo_brk = [0..<16]" "length (region0Pt demo_brk) = 8"
  using blank_frames by (simp_all add: demo_brk_def frames_wf_def free_list_def blank_def)

text \<open>C35: moving the break up. When the new break is within the table and there are enough free frames,
  \<open>Brk\<close> succeeds, maps each new page of \<open>region0Pt\<close> readable and writable to a frame of its own - the
  lowest free frames in order - and changes no other entry.\<close>

theorem BrkFunc_grows:
  assumes "curr_proc s = Some c" "pcbs s c = Some x" "frames_wf s" "r = drop_bit (PAGESHIFT M) (UP_TO_PAGE M addr)"
    "brk x \<le> r" "unat r \<le> length (region0Pt s)" "length (region0Pt s) < 2 ^ 31"
    "unat r - unat (brk x) \<le> length (free_list s)"
  shows "\<exists>s'. BrkFunc M addr s = Inr (s', 0) \<and> map_option brk (pcbs s' c) = Some r \<and>
    (\<forall>k<unat r - unat (brk x). region0Pt s' ! (unat (brk x) + k) =
       \<lparr>pfn = c_pfn (int (free_list s ! k)), uprot = {PROT_READ, PROT_WRITE}, kprot = {PROT_READ, PROT_WRITE}, valid = True\<rparr>) \<and>
    (\<forall>j<length (region0Pt s). j < unat (brk x) \<or> unat r \<le> j \<longrightarrow> region0Pt s' ! j = region0Pt s ! j)"
proof -
  let ?b = "unat (brk x)" and ?n = "unat r - unat (brk x)"
  have br: "?b \<le> unat r" using assms(5) by (simp add: word_le_nat_alt)
  have n: "nat (c_int (r - brk x)) = ?n" using assms(5-7) by (simp add: c_int_diff)
  have up: "brk_up (brk x) ?n s = fold_res (setup_pte PT_region0Pt {PROT_READ, PROT_WRITE} {PROT_READ, PROT_WRITE})
      (map int [?b..<unat r]) s"
    using br assms(6,7) by (subst brk_up_eq) simp_all
  have sub: "set [?b..<unat r] \<subseteq> {..<length (region0Pt s)}" using assms(6) by auto
  obtain t where t: "brk_up (brk x) ?n s = Inr t" "length (region0Pt t) = length (region0Pt s)"
      "\<forall>k<?n. entry PT_region0Pt t ([?b..<unat r] ! k)
        = map_option (mk_pte {PROT_READ, PROT_WRITE} {PROT_READ, PROT_WRITE} (int (free_list s ! k))) (entry PT_region0Pt s ([?b..<unat r] ! k))"
      "\<forall>j. j \<notin> set [?b..<unat r] \<longrightarrow> entry PT_region0Pt t j = entry PT_region0Pt s j"
    using setup_ptes [OF assms(3), of PT_region0Pt "length (region0Pt s)" "[?b..<unat r]"
        "{PROT_READ, PROT_WRITE}" "{PROT_READ, PROT_WRITE}"] assms(8) sub unfolding up by (auto simp: region0Pt_len)
  have f: "pcbs t = pcbs s" "curr_proc t = curr_proc s"
    using brk_up_only [OF t(1)] only_mapsD by (auto simp: only_region0Pt_def)
  have lt: "\<not> r < brk x" using assms(5) by simp
  let ?s = "t\<lparr>pcbs := (pcbs s)(c \<mapsto> x\<lparr>brk := r\<rparr>)\<rparr>"
  have "BrkFunc M addr s = Inr (?s, 0)"
    using assms(1,2,5) t(1) f n lt by (simp add: BrkFunc_def Let_def flip: assms(4))
  moreover have "region0Pt t ! (?b + k) = \<lparr>pfn = c_pfn (int (free_list s ! k)), uprot = {PROT_READ, PROT_WRITE},
      kprot = {PROT_READ, PROT_WRITE}, valid = True\<rparr>" if k: "k < ?n" for k
    using t(2,3) k br assms(6) by (auto simp: region0Pt_entry mk_pte_eq dest!: spec [of _ k] split: if_splits)
  moreover have "region0Pt t ! j = region0Pt s ! j" if "j < length (region0Pt s)" "j < ?b \<or> unat r \<le> j" for j
    using t(2,4) that by (auto simp: region0Pt_entry dest!: spec [of _ j] split: if_splits)
  ultimately show ?thesis by (intro exI [of _ ?s]) simp
qed

theorem BrkFunc_grows_witness:
  "\<exists>s'. BrkFunc tiny 200 demo_brk = Inr (s', 0) \<and> map_option brk (pcbs s' 1) = Some 4 \<and> valid (region0Pt s' ! 3)"
proof -
  obtain x where x: "pcbs demo_brk 1 = Some x" "brk x = 3" by (simp add: demo_brk_def)
  have "curr_proc demo_brk = Some 1" by (simp add: demo_brk_def)
  from BrkFunc_grows [OF this x(1) demo_brk_frames(1) demo_rounding(1) [symmetric]] show ?thesis
    using x demo_brk_frames by auto
qed

lemma BrkFunc_ignores_process_table_witness:
  "\<exists>s'. BrkFunc tiny 200 demo_brk = Inr (s', 0) \<and> tbl s' (PT_R1 2) = tbl demo_brk (PT_R1 2)"
proof -
  have "brk_up 3 1 demo_brk = Inr (put_tbl PT_region0Pt ((region0Pt demo_brk)[3 := mk_pte {PROT_READ, PROT_WRITE} {PROT_READ, PROT_WRITE} 0 (region0Pt demo_brk ! 3)])
      (take_frame 0 demo_brk))"
    using demo_brk_frames
    by (simp add: brk_up_def setup_pte_def findFreePage_eq upt_conv_Cons wr_pte_def tbl_def put_tbl_def take_frame_def aget_def aset_def)
  then have "\<exists>s'. BrkFunc tiny 200 demo_brk = Inr (s', 0)"
    by (simp add: BrkFunc_def demo_rounding demo_brk_def Let_def c_int_def put_tbl_def take_frame_def)
  then show ?thesis using BrkFunc_ignores_process_table [of tiny 200 demo_brk] by blast
qed

text \<open>C36: moving the break down by \<open>n\<close> pages goes wrong: the pages that should be given back keep their
  entries, the \<open>n\<close> entries above the old break lose their valid bit instead, and it is the frames with
  the numbers of these entries, not the frames of the process, that become free.\<close>

theorem BrkFunc_shrink_frees_wrong_pages:
  assumes "curr_proc s = Some c" "pcbs s c = Some x" "r = drop_bit (PAGESHIFT M) (UP_TO_PAGE M addr)" "r < brk x"
    "of_nat (MEM_INVALID_PAGES M) \<le> r" "n = unat (brk x) - unat r" "unat (brk x) + n \<le> length (region0Pt s)"
    "unat (brk x) + n \<le> length (freePages s)" "unat (brk x) + n < 2 ^ 31"
  shows "\<exists>s'. BrkFunc M addr s = Inr (s', 0) \<and> map_option brk (pcbs s' c) = Some r \<and>
    (\<forall>j<unat (brk x). region0Pt s' ! j = region0Pt s ! j \<and> freePages s' ! j = freePages s ! j) \<and>
    (\<forall>j. unat (brk x) \<le> j \<and> j < unat (brk x) + n \<longrightarrow> \<not> valid (region0Pt s' ! j) \<and> freePages s' ! j = PAGE_FREE)"
proof -
  have n: "nat (c_int (brk x - r)) = n" using assms(4,6,9) by (simp add: c_int_diff)
  obtain t where t: "brk_down (brk x) n s = Inr t" "pcbs t = pcbs s" "curr_proc t = curr_proc s"
      "\<forall>j. if unat (brk x) \<le> j \<and> j < unat (brk x) + n
         then region0Pt t ! j = (region0Pt s ! j)\<lparr>valid := False\<rparr> \<and> freePages t ! j = PAGE_FREE
         else region0Pt t ! j = region0Pt s ! j \<and> freePages t ! j = freePages s ! j"
    using brk_down_ok [OF assms(7-9)] by blast
  let ?s = "t\<lparr>pcbs := (pcbs s)(c \<mapsto> x\<lparr>brk := r\<rparr>)\<rparr>"
  have "BrkFunc M addr s = Inr (?s, 0)"
    using assms(1,2,4,5) t(1-3) n by (simp add: BrkFunc_def Let_def flip: assms(3))
  then show ?thesis using t(4) by (intro exI [of _ ?s]) (auto split: if_splits)
qed

theorem BrkFunc_shrink_frees_wrong_pages_witness:
  "\<exists>s'. BrkFunc tiny 100 demo_brk = Inr (s', 0) \<and> region0Pt s' ! 2 = region0Pt demo_brk ! 2 \<and> freePages s' ! 3 = PAGE_FREE"
proof -
  obtain x where x: "pcbs demo_brk 1 = Some x" "brk x = 3" by (simp add: demo_brk_def)
  have c: "curr_proc demo_brk = Some 1" by (simp add: demo_brk_def)
  have l: "length (region0Pt demo_brk) = 8" "length (freePages demo_brk) = 16" "MEM_INVALID_PAGES tiny = 1"
    by (simp_all add: demo_brk_def blank_def tiny_def)
  from BrkFunc_shrink_frees_wrong_pages [OF c x(1) demo_rounding(2) [symmetric], of 1] show ?thesis
    using x l by auto
qed

section \<open>Properties of the break of the kernel\<close>

definition r1_entry :: "kstate \<Rightarrow> nat \<Rightarrow> pte option" where
  "r1_entry s i = (if i < length (region1Pt s) then Some (region1Pt s ! i) else None)"

lemma region1Pt_take_frame [simp]: "region1Pt (take_frame p s) = region1Pt s"
  by (simp add: take_frame_def)

interpretation r1map: page_mapper findFreePage free_list "\<lambda>s. frames_wf s \<and> length (region1Pt s) = n"
  "\<lambda>i p. wr_r1 (int i) (mk_pte up kp p)" r1_entry "\<lambda>p. map_option (mk_pte up kp p)" n
  for n up kp
proof unfold_locales
  fix s p ps assume "frames_wf s \<and> length (region1Pt s) = n" "free_list s = p # ps"
  then show "\<exists>s'. findFreePage s = Inr (s', int p) \<and> free_list s' = ps \<and> frames_wf s' \<and> length (region1Pt s') = n"
    by (simp add: findFreePage_eq free_list_take_frame)
next
  fix s i p assume s: "frames_wf s \<and> length (region1Pt s) = n" and i: "i < n"
  let ?s = "s\<lparr>region1Pt := (region1Pt s)[i := mk_pte up kp p (region1Pt s ! i)]\<rparr>"
  have "r1_entry ?s = (r1_entry s)(i := map_option (mk_pte up kp p) (r1_entry s i))"
    using s i by (auto simp: r1_entry_def fun_eq_iff nth_list_update)
  moreover have "free_list ?s = free_list s" by (simp add: free_list_def)
  ultimately show "\<exists>s'. wr_r1 (int i) (mk_pte up kp p) s = Inr s' \<and> (frames_wf s' \<and> length (region1Pt s') = n) \<and>
      free_list s' = free_list s \<and> r1_entry s' = (r1_entry s)(i := map_option (mk_pte up kp p) (r1_entry s i))"
    using s i by (simp add: wr_r1_def frames_wf_def)
next
  fix s s' p assume "frames_wf s \<and> length (region1Pt s) = n" "findFreePage s = Inr (s', p)"
  then show "r1_entry s' = r1_entry s"
    by (auto simp: r1_entry_def fun_eq_iff findFreePage_eq split: list.splits)
qed (simp_all add: findFreePage_eq)

lemma kernel_brk_pages:
  assumes "PAGESHIFT M < 31" "unat addr + PAGESIZE M < 2 ^ 31" "unat b \<le> unat addr"
    "k0 = unat b div PAGESIZE M" "k1 = (unat addr + PAGESIZE M - 1) div PAGESIZE M" "n \<le> k0"
  shows "c_int (signed_drop_bit (PAGESHIFT M) (UP_TO_PAGE M addr) - signed_drop_bit (PAGESHIFT M) (DOWN_TO_PAGE M b)) = int (k1 - k0)"
    "c_int (signed_drop_bit (PAGESHIFT M) b - of_nat n) = int (k0 - n)"
proof -
  have a: "unat addr + PAGESIZE M < 2 ^ 63" and b: "unat b < 2 ^ 63" using assms(2,3) by simp_all
  note up = unat_UP_TO_PAGE [OF assms(1) a]
  have db: "unat (DOWN_TO_PAGE M b) < 2 ^ 63" using unat_DOWN_TO_PAGE_le [of M b] b by (rule le_less_trans)
  let ?u = "drop_bit (PAGESHIFT M) (UP_TO_PAGE M addr)" and ?d = "drop_bit (PAGESHIFT M) b"
  have u: "unat ?u = k1" "unat ?d = k0" using up(1) assms(4,5) by (simp_all add: unat_page)
  have "unat b \<le> unat addr + PAGESIZE M - 1" using assms(3) PAGESIZE_pos [of M] by linarith
  then have "k0 \<le> k1" unfolding assms(4,5) by (rule div_le_mono)
  moreover have "k1 \<le> unat addr + PAGESIZE M - 1" unfolding assms(5) by (rule div_le_dividend)
  ultimately have k: "k0 \<le> k1" "k1 < 2 ^ 31" using assms(2) by simp_all
  then have "?d \<le> ?u" by (simp add: word_le_nat_alt u)
  then have "c_int (?u - ?d) = int (k1 - k0)" using c_int_diff [of ?d ?u] u k by simp
  then show "c_int (signed_drop_bit (PAGESHIFT M) (UP_TO_PAGE M addr) - signed_drop_bit (PAGESHIFT M) (DOWN_TO_PAGE M b)) = int (k1 - k0)"
    using signed_drop_bit_small [OF up(2)] signed_drop_bit_small [OF db] by (simp add: page_DOWN_TO_PAGE)
  have n: "unat (of_nat n :: 64 word) = n" using assms(6) k by (simp add: unat_of_nat)
  then have "(of_nat n :: 64 word) \<le> ?d" using assms(6) by (simp add: word_le_nat_alt u)
  then have "c_int (?d - of_nat n) = int (k0 - n)" using c_int_diff [of "of_nat n" ?d] u k n by simp
  then show "c_int (signed_drop_bit (PAGESHIFT M) b - of_nat n) = int (k0 - n)"
    using signed_drop_bit_small [OF b] by simp
qed

definition r0_initial :: "nat \<Rightarrow> pte" where
  "r0_initial i = \<lparr>pfn = c_pfn (int i), uprot = PROT_NONE, kprot = {PROT_READ, PROT_WRITE}, valid = True\<rparr>"

lemma kernel_pages_mapped:
  assumes "frames_wf s" "length (region1Pt s) = n" "a + k \<le> n"
  shows "\<exists>s'. fold_res (\<lambda>page s. rbind (findFreePage s) (\<lambda>(s, newPage).
      wr_r1 (int a + int page) (mk_pte PROT_NONE {PROT_READ, PROT_WRITE} newPage) s)) [0..<k] s = Inr s' \<and>
    length (region1Pt s') = n \<and> free_list s' = drop k (free_list s) \<and>
    (\<forall>i<k. region1Pt s' ! (a + i) = \<lparr>pfn = c_pfn (if i < length (free_list s) then int (free_list s ! i) else - 1),
       uprot = PROT_NONE, kprot = {PROT_READ, PROT_WRITE}, valid = True\<rparr>) \<and>
    (\<forall>j<n. j < a \<or> a + k \<le> j \<longrightarrow> region1Pt s' ! j = region1Pt s ! j)"
proof -
  let ?is = "map (\<lambda>i. a + i) [0..<k]" and ?f = "\<lambda>i. if i < length (free_list s) then int (free_list s ! i) else - 1"
  let ?m = "r1map.map_page PROT_NONE {PROT_READ, PROT_WRITE}"
  have "distinct ?is" "set ?is \<subseteq> {..<n}" using assms(3) by (auto simp: distinct_map)
  then obtain s' where s': "fold_res ?m ?is s = Inr s'" "length (region1Pt s') = n" "free_list s' = drop k (free_list s)"
      "\<forall>i<k. r1_entry s' (?is ! i) = map_option (mk_pte PROT_NONE {PROT_READ, PROT_WRITE} (?f i)) (r1_entry s (?is ! i))"
      "\<forall>j. j \<notin> set ?is \<longrightarrow> r1_entry s' j = r1_entry s j"
    using r1map.map_pages_any [of s n ?is PROT_NONE "{PROT_READ, PROT_WRITE}"] assms(1,2) by auto
  have "fold_res (\<lambda>page s. rbind (findFreePage s) (\<lambda>(s, newPage).
      wr_r1 (int a + int page) (mk_pte PROT_NONE {PROT_READ, PROT_WRITE} newPage) s)) [0..<k] s = fold_res ?m ?is s"
    unfolding fold_res_map by (rule fold_res_cong) (simp add: r1map.map_page_def)
  moreover have "region1Pt s' ! (a + i) =
      \<lparr>pfn = c_pfn (?f i), uprot = PROT_NONE, kprot = {PROT_READ, PROT_WRITE}, valid = True\<rparr>" if "i < k" for i
    using s'(2,4) that assms(2,3) by (auto simp: r1_entry_def mk_pte_eq dest!: spec [of _ i])
  moreover have "region1Pt s' ! j = region1Pt s ! j" if "j < n" "j < a \<or> a + k \<le> j" for j
    using s'(2,5) that assms(2) by (auto simp: r1_entry_def dest!: spec [of _ j])
  ultimately show ?thesis using s'(1-3) by (intro exI [of _ s']) simp
qed

text \<open>C15: once virtual memory is on, \<open>SetKernelBrk\<close> fails without any effect when the counter of free
  frames is smaller than the number of pages from the page of the current break up to the new one. Otherwise it succeeds and
  makes each of these pages valid, readable and writable by the kernel only; no other entry of the Region 1 table
  changes. The pages get the lowest free frames in order, as long as there are any. The counter, which
  \<open>initPT\<close> leaves too high, does not exclude that they run out: the pages that are left over are then
  mapped to frame \<open>- 1\<close>. The first page is the one that contains the current break, also when the break is
  not page-aligned and the page is in use: the page then loses its frame.\<close>

theorem SetKernelBrk_maps_pages:
  assumes "vm_enabled s" "frames_wf s" "length (region1Pt s) = PAGE_TABLE_LEN M" "PAGESHIFT M < 31"
    "unat addr + PAGESIZE M < 2 ^ 31" "unat (currKernelBrk s) \<le> unat addr"
    "k0 = unat (currKernelBrk s) div PAGESIZE M" "k1 = (unat addr + PAGESIZE M - 1) div PAGESIZE M"
    "PAGE_TABLE_LEN M \<le> k0" "k1 \<le> 2 * PAGE_TABLE_LEN M"
  shows "if num_free_pages s < int (k1 - k0) then SetKernelBrk M addr s = Inr (s, ERROR)
    else \<exists>s'. SetKernelBrk M addr s = Inr (s', 0) \<and> currKernelBrk s' = addr \<and> free_list s' = drop (k1 - k0) (free_list s) \<and>
      (\<forall>i<k1 - k0. region1Pt s' ! (k0 - PAGE_TABLE_LEN M + i) =
         \<lparr>pfn = c_pfn (if i < length (free_list s) then int (free_list s ! i) else - 1), uprot = PROT_NONE,
          kprot = {PROT_READ, PROT_WRITE}, valid = True\<rparr>) \<and>
      (\<forall>j<PAGE_TABLE_LEN M. j < k0 - PAGE_TABLE_LEN M \<or> k1 - PAGE_TABLE_LEN M \<le> j \<longrightarrow> region1Pt s' ! j = region1Pt s ! j)"
proof -
  note k = kernel_brk_pages [OF assms(4-9)]
  have k01: "k0 \<le> k1"
    unfolding assms(7,8) by (rule div_le_mono) (use assms(6) PAGESIZE_pos [of M] in linarith)
  have sum: "k0 - PAGE_TABLE_LEN M + (k1 - k0) = k1 - PAGE_TABLE_LEN M" using k01 assms(9) by simp
  show ?thesis
  proof (cases "num_free_pages s < int (k1 - k0)")
    case True
    then show ?thesis using assms(1) k by (simp add: SetKernelBrk_def Let_def)
  next
    case False
    have "k0 - PAGE_TABLE_LEN M + (k1 - k0) \<le> PAGE_TABLE_LEN M" using assms(10) by (simp add: sum)
    then obtain t where t: "fold_res (\<lambda>page s. rbind (findFreePage s) (\<lambda>(s, newPage).
        wr_r1 (int (k0 - PAGE_TABLE_LEN M) + int page) (mk_pte PROT_NONE {PROT_READ, PROT_WRITE} newPage) s)) [0..<k1 - k0] s = Inr t"
        "free_list t = drop (k1 - k0) (free_list s)"
        "\<forall>i<k1 - k0. region1Pt t ! (k0 - PAGE_TABLE_LEN M + i) =
           \<lparr>pfn = c_pfn (if i < length (free_list s) then int (free_list s ! i) else - 1), uprot = PROT_NONE,
            kprot = {PROT_READ, PROT_WRITE}, valid = True\<rparr>"
        "\<forall>j<PAGE_TABLE_LEN M. j < k0 - PAGE_TABLE_LEN M \<or> k1 - PAGE_TABLE_LEN M \<le> j \<longrightarrow> region1Pt t ! j = region1Pt s ! j"
      using kernel_pages_mapped [OF assms(2,3), of "k0 - PAGE_TABLE_LEN M" "k1 - k0"] sum by auto
    let ?s = "t\<lparr>reg_log := reg_log t @ [REG_TLB_FLUSH TLB_FLUSH_ALL], currKernelBrk := addr\<rparr>"
    have "SetKernelBrk M addr s = Inr (?s, 0)"
      using False assms(1) k t(1) by (simp add: SetKernelBrk_def Let_def WriteRegister_def)
    moreover have "free_list ?s = free_list t" by (simp add: free_list_def)
    ultimately show ?thesis using False t(2-4) by (intro if_not_P [THEN iffD2]) auto
  qed
qed

text \<open>One frame is left, the counter says fourteen: of two pages the second gets frame \<open>- 1\<close>.\<close>

theorem SetKernelBrk_maps_pages_witness:
  "\<exists>s'. SetKernelBrk tiny 750 (blank\<lparr>vm_enabled := True, freePages := (replicate 16 PAGE_USED)[3 := PAGE_FREE], num_free_pages := 14\<rparr>)
       = Inr (s', 0) \<and>
     region1Pt s' ! 2 = r0_initial 3 \<and> region1Pt s' ! 3 = (r0_initial 3)\<lparr>pfn := - 1\<rparr>"
proof -
  let ?s = "blank\<lparr>vm_enabled := True, freePages := (replicate 16 PAGE_USED)[3 := PAGE_FREE], num_free_pages := 14\<rparr>"
  have n: "num_pages ?s = 16" by (simp add: blank_def)
  have s: "vm_enabled ?s" "frames_wf ?s" "length (region1Pt ?s) = PAGE_TABLE_LEN tiny"
    by (simp_all add: frames_wf_def n) (simp add: blank_def tiny_def)
  have f: "free_list ?s = [3]" by (simp add: free_list_def n upt_conv_Cons nth_list_update)
  have m: "PAGESHIFT tiny = 6" "PAGESIZE tiny = 64" "PAGE_TABLE_LEN tiny = 8" "currKernelBrk ?s = 640" "num_free_pages ?s = 14"
    by (simp_all add: tiny_def PAGESIZE_def blank_def)
  obtain s' where s': "SetKernelBrk tiny 750 ?s = Inr (s', 0)" "\<And>i. i < 2 \<Longrightarrow> region1Pt s' ! (2 + i) =
      \<lparr>pfn = c_pfn (if i = 0 then 3 else - 1), uprot = PROT_NONE, kprot = {PROT_READ, PROT_WRITE}, valid = True\<rparr>"
    using SetKernelBrk_maps_pages [OF s, of 750 10 12] by (auto simp: m f)
  from s'(2) [of 0] s'(2) [of 1] show ?thesis using s'(1) by (simp add: r0_initial_def)
qed

section \<open>Properties of the initial page tables\<close>

definition r1_initial :: "machine \<Rightarrow> nat \<Rightarrow> pte" where
  "r1_initial M i = \<lparr>pfn = c_pfn (int (PAGE_TABLE_LEN M + i)), uprot = PROT_NONE,
     kprot = (if int (VMEM_1_BASE M + i * PAGESIZE M) < uint (UP_TO_PAGE M (of_nat (etext_addr M)))
              then {PROT_READ, PROT_EXEC} else {PROT_READ, PROT_WRITE}), valid = True\<rparr>"

lemma init_r0_loop:
  assumes "p + n \<le> length (region0Pt s)" "p + n \<le> length (freePages s)"
  shows "\<exists>f r. fold_res (init_r0_page M) (map (\<lambda>i. i * PAGESIZE M) [p..<p + n]) s =
      Inr (s\<lparr>freePages := f, region0Pt := r, num_free_pages := num_free_pages s - int n\<rparr>) \<and>
    length f = length (freePages s) \<and> length r = length (region0Pt s) \<and>
    (\<forall>j. r ! j = (if p \<le> j \<and> j < p + n then r0_initial j else region0Pt s ! j)) \<and>
    (\<forall>j. f ! j = (if p \<le> j \<and> j < p + n then PAGE_USED else freePages s ! j))"
  using assms
proof (induction n)
  case 0
  then show ?case by (intro exI [of _ "freePages s"] exI [of _ "region0Pt s"]) auto
next
  case (Suc n)
  then obtain f r where fr: "fold_res (init_r0_page M) (map (\<lambda>i. i * PAGESIZE M) [p..<p + n]) s =
        Inr (s\<lparr>freePages := f, region0Pt := r, num_free_pages := num_free_pages s - int n\<rparr>)"
      "length f = length (freePages s)" "length r = length (region0Pt s)"
      "\<forall>j. r ! j = (if p \<le> j \<and> j < p + n then r0_initial j else region0Pt s ! j)"
      "\<forall>j. f ! j = (if p \<le> j \<and> j < p + n then PAGE_USED else freePages s ! j)"
    by auto
  define q where "q = p + n"
  have q: "q < length r" "q < length f" using Suc.prems fr(2,3) by (simp_all add: q_def)
  have "init_r0_page M (q * PAGESIZE M) (s\<lparr>freePages := f, region0Pt := r, num_free_pages := num_free_pages s - int n\<rparr>)
    = Inr (s\<lparr>freePages := f[q := PAGE_USED], region0Pt := r[q := r0_initial q], num_free_pages := num_free_pages s - int (Suc n)\<rparr>)"
    using q by (simp add: init_r0_page_def Let_def wr_pte_def tbl_def put_tbl_def set_freePages_def mk_pte_eq r0_initial_def)
  then have "fold_res (init_r0_page M) (map (\<lambda>i. i * PAGESIZE M) [p..<p + Suc n]) s
    = Inr (s\<lparr>freePages := f[q := PAGE_USED], region0Pt := r[q := r0_initial q], num_free_pages := num_free_pages s - int (Suc n)\<rparr>)"
    using fr(1) by (simp add: fold_res_append q_def)
  then show ?case using fr q
    by (intro exI [of _ "f[q := PAGE_USED]"] exI [of _ "r[q := r0_initial q]"])
      (auto simp: nth_list_update q_def less_Suc_eq)
qed

lemma init_r1_loop:
  assumes "n \<le> length (region1Pt s)" "PAGE_TABLE_LEN M + n \<le> length (freePages s)"
  shows "\<exists>f r. fold_res (init_r1_page M) (map (\<lambda>i. i * PAGESIZE M) [PAGE_TABLE_LEN M..<PAGE_TABLE_LEN M + n]) s =
      Inr (s\<lparr>freePages := f, region1Pt := r\<rparr>) \<and>
    length f = length (freePages s) \<and> length r = length (region1Pt s) \<and>
    (\<forall>j. r ! j = (if j < n then r1_initial M j else region1Pt s ! j)) \<and>
    (\<forall>j. f ! j = (if PAGE_TABLE_LEN M \<le> j \<and> j < PAGE_TABLE_LEN M + n then PAGE_USED else freePages s ! j))"
  using assms
proof (induction n)
  case 0
  then show ?case by (intro exI [of _ "freePages s"] exI [of _ "region1Pt s"]) auto
next
  case (Suc n)
  then obtain f r where fr: "fold_res (init_r1_page M) (map (\<lambda>i. i * PAGESIZE M) [PAGE_TABLE_LEN M..<PAGE_TABLE_LEN M + n]) s =
        Inr (s\<lparr>freePages := f, region1Pt := r\<rparr>)"
      "length f = length (freePages s)" "length r = length (region1Pt s)"
      "\<forall>j. r ! j = (if j < n then r1_initial M j else region1Pt s ! j)"
      "\<forall>j. f ! j = (if PAGE_TABLE_LEN M \<le> j \<and> j < PAGE_TABLE_LEN M + n then PAGE_USED else freePages s ! j)"
    by auto
  define q where "q = PAGE_TABLE_LEN M + n"
  have q: "n < length r" "q < length f" "int q - int (PAGE_TABLE_LEN M) = int n"
    using Suc.prems fr(2,3) by (simp_all add: q_def)
  have ri: "r1_initial M n = \<lparr>pfn = c_pfn (int q), uprot = PROT_NONE,
      kprot = (if int (VMEM_1_BASE M) + int n * int (PAGESIZE M) < uint (UP_TO_PAGE M (of_nat (etext_addr M)))
               then {PROT_READ, PROT_EXEC} else {PROT_READ, PROT_WRITE}), valid = True\<rparr>"
    by (simp add: r1_initial_def q_def)
  have "init_r1_page M (q * PAGESIZE M) (s\<lparr>freePages := f, region1Pt := r\<rparr>)
    = Inr (s\<lparr>freePages := f[q := PAGE_USED], region1Pt := r[n := r1_initial M n]\<rparr>)"
    using q by (simp add: init_r1_page_def Let_def wr_r1_def set_freePages_def mk_pte_eq ri)
  then have "fold_res (init_r1_page M) (map (\<lambda>i. i * PAGESIZE M) [PAGE_TABLE_LEN M..<PAGE_TABLE_LEN M + Suc n]) s
    = Inr (s\<lparr>freePages := f[q := PAGE_USED], region1Pt := r[n := r1_initial M n]\<rparr>)"
    using fr(1) by (simp add: fold_res_append q_def)
  then show ?case using fr q
    by (intro exI [of _ "f[q := PAGE_USED]"] exI [of _ "r[n := r1_initial M n]"])
      (auto simp: nth_list_update q_def less_Suc_eq)
qed

lemma unat_ucast32: "unat (w :: 64 word) < 2 ^ 31 \<Longrightarrow> unat (ucast w :: 32 word) = unat w"
  by (simp add: unsigned_ucast_eq take_bit_nat_eq_self)

lemma less_ceil_div: "0 < d \<Longrightarrow> i < (b + d - 1) div d \<longleftrightarrow> i * d < (b :: nat)"
proof -
  assume d: "0 < d"
  have "i < (b + d - 1) div d \<longleftrightarrow> Suc i * d \<le> b + d - 1"
    using d by (metis Suc_le_eq less_eq_div_iff_mult_less_eq)
  also have "\<dots> \<longleftrightarrow> i * d < b" using d by auto
  finally show ?thesis .
qed

lemma initPT_ok:
  assumes "hw_layout M" "length (region0Pt s) = PAGE_TABLE_LEN M" "length (region1Pt s) = PAGE_TABLE_LEN M"
    "2 * PAGE_TABLE_LEN M \<le> length (freePages s)" "b = unat (currKernelBrk s)" "VMEM_1_BASE M \<le> b" "b \<le> VMEM_1_LIMIT M"
    "base = PAGE_TABLE_LEN M - KERNEL_STACK_PAGES M"
  shows "\<exists>g r q. initPT M s = Inr (WriteRegister REG_PTR1 (WriteRegister (REG_PTR0 PT_region0Pt)
      (s\<lparr>region0Pt := r, num_free_pages := num_free_pages s - int (KERNEL_STACK_PAGES M), freePages := g, region1Pt := q\<rparr>))) \<and>
    length g = length (freePages s) \<and> length r = PAGE_TABLE_LEN M \<and> length q = PAGE_TABLE_LEN M \<and>
    (\<forall>i<PAGE_TABLE_LEN M. r ! i = (if base \<le> i then r0_initial i else region0Pt s ! i)) \<and>
    (\<forall>i. q ! i = (if (PAGE_TABLE_LEN M + i) * PAGESIZE M < b then r1_initial M i else region1Pt s ! i)) \<and>
    (\<forall>i. g ! i = (if base \<le> i \<and> i * PAGESIZE M < b then PAGE_USED else freePages s ! i))"
proof -
  let ?L = "PAGE_TABLE_LEN M" and ?P = "PAGESIZE M"
  define top where "top = (b + ?P - 1) div ?P"
  have lay: "KERNEL_STACK_BASE M = base * ?P" "KERNEL_STACK_LIMIT M = ?L * ?P" "VMEM_1_BASE M = ?L * ?P"
      "VMEM_1_LIMIT M = (2 * ?L) * ?P" "KERNEL_STACK_PAGES M \<le> ?L" "b < 2 ^ 31"
    using assms(1,7,8) by (auto simp: hw_layout_def)
  have top: "i < top \<longleftrightarrow> i * ?P < b" for i unfolding top_def by (rule less_ceil_div) simp
  have "\<not> top < ?L" using top [of top] assms(6) lay(3)
    by (metis PAGESIZE_pos less_imp_not_less less_le_trans mult_less_cancel2 not_less)
  moreover have "\<not> 2 * ?L < top" using top [of "2 * ?L"] assms(7) lay(4) by simp
  ultimately have bounds: "?L \<le> top" "top \<le> 2 * ?L" by simp_all
  have base: "base + KERNEL_STACK_PAGES M = ?L" using lay(5) assms(8) by simp
  obtain f r where fr: "fold_res (init_r0_page M) (map (\<lambda>i. i * ?P) [base..<?L]) s =
        Inr (s\<lparr>freePages := f, region0Pt := r, num_free_pages := num_free_pages s - int (KERNEL_STACK_PAGES M)\<rparr>)"
      "length f = length (freePages s)" "length r = length (region0Pt s)" "\<forall>j. r ! j = (if base \<le> j \<and> j < ?L then r0_initial j else region0Pt s ! j)"
      "\<forall>j. f ! j = (if base \<le> j \<and> j < ?L then PAGE_USED else freePages s ! j)"
    using init_r0_loop [of base "KERNEL_STACK_PAGES M" s M] assms(2,4) by (auto simp: base)
  let ?t = "s\<lparr>freePages := f, region0Pt := r, num_free_pages := num_free_pages s - int (KERNEL_STACK_PAGES M)\<rparr>"
  have tl: "top - ?L \<le> ?L" using bounds by simp
  obtain g q where gq: "fold_res (init_r1_page M) (map (\<lambda>i. i * ?P) [?L..<top]) ?t = Inr (?t\<lparr>freePages := g, region1Pt := q\<rparr>)"
      "length g = length f" "length q = length (region1Pt s)"
      "\<forall>j. q ! j = (if j < top - ?L then r1_initial M j else region1Pt s ! j)"
      "\<forall>j. g ! j = (if ?L \<le> j \<and> j < top then PAGE_USED else f ! j)"
    using init_r1_loop [of "top - ?L" ?t M] assms(3,4) bounds fr(2) tl by (auto cong: if_cong)
  have a: "addrs ?P (KERNEL_STACK_BASE M) (KERNEL_STACK_LIMIT M) = map (\<lambda>i. i * ?P) [base..<?L]"
    "addrs ?P (VMEM_1_BASE M) b = map (\<lambda>i. i * ?P) [?L..<top]"
    using addrs_pages [of ?P base ?L] addrs_upto [of ?P ?L b] base by (simp_all add: lay top_def)
  have kb: "unat (ucast (currKernelBrk s) :: 32 word) = b" using assms(5) lay(6) by (simp add: unat_ucast32)
  have init: "initPT M s = Inr (WriteRegister REG_PTR1 (WriteRegister (REG_PTR0 PT_region0Pt) (?t\<lparr>freePages := g, region1Pt := q\<rparr>)))"
    using fr(1) gq(1) kb by (simp add: initPT_def Let_def a)
  have ga: "g ! i = (if base \<le> i \<and> i * ?P < b then PAGE_USED else freePages s ! i)" for i
    using gq(5) fr(5) bounds base top [of i] by auto
  have qa: "q ! i = (if (?L + i) * ?P < b then r1_initial M i else region1Pt s ! i)" for i
    using gq(4) top [of "?L + i"] by (auto simp: less_diff_conv add.commute)
  show ?thesis
    by (rule exI [of _ g], rule exI [of _ r], rule exI [of _ q]) (use init fr(2-4) gq(2,3) ga qa assms(2,3) in simp)
qed

text \<open>C16: the initial page tables. \<open>initPT\<close> maps exactly the kernel stack in Region 0 and exactly the pages
  of the kernel below its break in Region 1, every page to the frame with the same number, never
  accessible to the user and with the kernel text not writable; it marks these frames used and points
  the hardware to \<open>region0Pt\<close>. The counter of free frames is lowered for the kernel stack only.\<close>

theorem initPT_identity_map:
  assumes "hw_layout M" "length (region0Pt s) = PAGE_TABLE_LEN M" "length (region1Pt s) = PAGE_TABLE_LEN M"
    "2 * PAGE_TABLE_LEN M \<le> length (freePages s)" "b = unat (currKernelBrk s)" "VMEM_1_BASE M \<le> b" "b \<le> VMEM_1_LIMIT M"
    "base = PAGE_TABLE_LEN M - KERNEL_STACK_PAGES M"
  shows "\<exists>s'. initPT M s = Inr s' \<and> reg_ptr0 s' = PT_region0Pt \<and>
    (\<forall>i<PAGE_TABLE_LEN M. region0Pt s' ! i = (if base \<le> i then r0_initial i else region0Pt s ! i)) \<and>
    (\<forall>i<PAGE_TABLE_LEN M. region1Pt s' ! i =
       (if (PAGE_TABLE_LEN M + i) * PAGESIZE M < b then r1_initial M i else region1Pt s ! i)) \<and>
    (\<forall>f<2 * PAGE_TABLE_LEN M. freePages s' ! f =
       (if base \<le> f \<and> f * PAGESIZE M < b then PAGE_USED else freePages s ! f)) \<and>
    num_free_pages s' = num_free_pages s - int (KERNEL_STACK_PAGES M)"
  using initPT_ok [OF assms] by (elim exE conjE) (simp add: WriteRegister_def)

theorem initPT_identity_map_witness:
  "\<exists>s'. initPT tiny (blank\<lparr>currKernelBrk := 700\<rparr>) = Inr s' \<and> region0Pt s' ! 7 = r0_initial 7 \<and>
    region1Pt s' ! 2 = r1_initial tiny 2 \<and> num_free_pages s' = 14"
proof -
  let ?s = "blank\<lparr>currKernelBrk := 700\<rparr>"
  have s: "length (region0Pt ?s) = PAGE_TABLE_LEN tiny" "length (region1Pt ?s) = PAGE_TABLE_LEN tiny"
    "2 * PAGE_TABLE_LEN tiny \<le> length (freePages ?s)" "700 = unat (currKernelBrk ?s)" "VMEM_1_BASE tiny \<le> 700"
    "700 \<le> VMEM_1_LIMIT tiny" "6 = PAGE_TABLE_LEN tiny - KERNEL_STACK_PAGES tiny"
    by (simp_all add: blank_def tiny_def)
  have m: "PAGE_TABLE_LEN tiny = 8" "PAGESIZE tiny = 64" "KERNEL_STACK_PAGES tiny = 2" "num_free_pages blank = 16"
    by (simp_all add: blank_def tiny_def PAGESIZE_def)
  from initPT_identity_map [OF hw_layout_tiny s] show ?thesis
    by (elim ex_forward) (auto simp: m dest!: spec [of _ 7] spec [of _ 2])
qed

section \<open>Building the Region 0 of a new process\<close>

lemma findFreeVirtualPage_loop_Ok:
  assumes "findFreeVirtualPage_loop M vs s = Inr (s', p)" "0 \<le> p"
  shows "\<exists>k. p = int k \<and> k < length (region1Pt s) \<and> \<not> valid (region1Pt s ! k) \<and>
    k + PAGE_TABLE_LEN M < length (freePages s) \<and> s' = s\<lparr>freePages := (freePages s)[k + PAGE_TABLE_LEN M := PAGE_USED]\<rparr>"
  using assms
proof (induction vs)
  case (Cons a vs)
  show ?case
  proof (cases "rd_r1 s (int (a div PAGESIZE M) - int (PAGE_TABLE_LEN M))")
    case (Inr e)
    define k where "k = nat (int (a div PAGESIZE M) - int (PAGE_TABLE_LEN M))"
    with Inr have k: "int (a div PAGESIZE M) - int (PAGE_TABLE_LEN M) = int k" "k < length (region1Pt s)" "e = region1Pt s ! k"
      by (auto simp: rd_r1_def aget_Ok_iff)
    from k(1) have "int (a div PAGESIZE M) = int k + int (PAGE_TABLE_LEN M)" by simp
    with Cons k Inr show ?thesis
      by (auto simp: Let_def set_freePages_def aset_Ok_iff nat_add_distrib rbind_eq_Ok_iff split: if_splits)
  qed (use Cons.prems in simp)
qed simp

lemma free_list_reserved:
  "free_list (s\<lparr>freePages := (freePages s)[f := PAGE_USED]\<rparr>) = removeAll f (free_list s)" if "f < length (freePages s)"
  using that by (auto simp: free_list_def removeAll_filter_not_eq intro!: filter_cong simp: nth_list_update)

lemma kernel_stack_vpns_eq:
  assumes "hw_layout M" "base = PAGE_TABLE_LEN M - KERNEL_STACK_PAGES M"
  shows "kernel_stack_vpns M = map int [base..<PAGE_TABLE_LEN M]"
  using addrs_pages [of "PAGESIZE M" base "PAGE_TABLE_LEN M"] assms by (simp add: kernel_stack_vpns_def hw_layout_def comp_def)

text \<open>What building and copying an address space leaves alone.\<close>

definition only_mem :: "kstate \<Rightarrow> kstate \<Rightarrow> bool" where
  "only_mem s s' \<longleftrightarrow> s' = s\<lparr>freePages := freePages s', num_free_pages := num_free_pages s', region0Pt := region0Pt s',
     region1Pt := region1Pt s', r1_tables := r1_tables s', frames := frames s', reg_log := reg_log s'\<rparr>"

lemma only_memE:
  assumes "only_mem s s'"
  obtains a b c d e f g where "s' = s\<lparr>freePages := a, num_free_pages := b, region0Pt := c, region1Pt := d,
    r1_tables := e, frames := f, reg_log := g\<rparr>"
  using assms unfolding only_mem_def by blast

lemma only_memD:
  assumes "only_mem s s'"
  shows "pcbs s' = pcbs s" "items s' = items s" "exiteds s' = exiteds s" "lines s' = lines s" "heap_top s' = heap_top s"
    "queue_head s' = queue_head s" "queue_tail s' = queue_tail s" "queue_size s' = queue_size s" "num_pages s' = num_pages s"
    "curr_proc s' = curr_proc s" "reg_ptr0 s' = reg_ptr0 s"
  using assms by (auto elim!: only_memE)

lemma only_mem_trans: "only_mem s t \<Longrightarrow> only_mem t u \<Longrightarrow> only_mem s u"
  by (elim only_memE) (simp add: only_mem_def)

lemma only_mem_pcbs: "only_mem (s\<lparr>pcbs := h\<rparr>) t \<Longrightarrow> only_mem (s\<lparr>pcbs := p\<rparr>) (t\<lparr>pcbs := p\<rparr>)"
  by (elim only_memE) (simp add: only_mem_def)

lemma only_maps_mem: "only_maps s s' \<Longrightarrow> only_mem s s'"
proof -
  assume "only_maps s s'"
  then obtain a b c d where "s' = s\<lparr>freePages := a, num_free_pages := b, region0Pt := c, r1_tables := d\<rparr>"
    unfolding only_maps_def by blast
  then show ?thesis by (simp add: only_mem_def)
qed

text \<open>What \<open>BuildRegion0\<close> leaves, besides the new table: \<open>fl\<close> are the frames that are free for it.\<close>

definition built_region0 :: "machine \<Rightarrow> nat \<Rightarrow> nat list \<Rightarrow> kstate \<Rightarrow> kstate \<Rightarrow> bool" where
  "built_region0 M v fl s s' \<longleftrightarrow> frames_wf s' \<and> free_list s' = drop (KERNEL_STACK_PAGES M) fl \<and>
     tbl_len (PT_R1 v) (PAGE_TABLE_LEN M) s' \<and> only_mem (s\<lparr>pcbs := pcbs s'\<rparr>) s' \<and> frames s' = frames s \<and>
     length (freePages s') = length (freePages s) \<and> uncounted s \<le> uncounted s' \<and> v < PAGE_TABLE_LEN M \<and> \<not> valid (region1Pt s ! v) \<and>
     (\<exists>e. valid e \<and> region1Pt s' = (region1Pt s)[v := e]) \<and> (\<forall>t ps. tbl s t = Inr ps \<longrightarrow> tbl s' t = Inr ps)"

lemma BuildRegion0_ok:
  assumes "hw_layout M" "pcbs s n = Some x" "findFreeVirtualPage M s = Inr (s1, int v)" "length (region1Pt s) = PAGE_TABLE_LEN M"
    "length (r1_tables s v) = PAGE_TABLE_LEN M" "frames_wf s" "fl = removeAll (v + PAGE_TABLE_LEN M) (free_list s)"
    "KERNEL_STACK_PAGES M \<le> length fl" "base = PAGE_TABLE_LEN M - KERNEL_STACK_PAGES M"
  shows "\<exists>s'. BuildRegion0 M (Some n) s = Inr s' \<and>
    pcbs s' = (pcbs s)(n \<mapsto> x\<lparr>region0 := PT_R1 v, free_vpn := of_nat v\<rparr>) \<and> built_region0 M v fl s s' \<and>
    (\<forall>j. entry (PT_R1 v) s' j = (if base \<le> j \<and> j < PAGE_TABLE_LEN M then Some \<lparr>pfn = c_pfn (int (fl ! (j - base))),
         uprot = PROT_NONE, kprot = {PROT_READ, PROT_WRITE}, valid = True\<rparr>
       else if j < PAGE_TABLE_LEN M then Some (r1_tables s v ! j) else None))"
proof -
  let ?L = "PAGE_TABLE_LEN M" and ?RW = "{PROT_READ, PROT_WRITE}"
  have v: "v < ?L" "v + ?L < length (freePages s)" "\<not> valid (region1Pt s ! v)" and s1: "s1 = s\<lparr>freePages := (freePages s)[v + ?L := PAGE_USED]\<rparr>"
    using findFreeVirtualPage_loop_Ok [OF assms(3) [unfolded findFreeVirtualPage_def]] assms(4) by auto
  have "?L < 2 ^ 20" using assms(1) by (simp add: hw_layout_def)
  then have w: "unat (c_ulong (int v)) = v" using v(1) by (simp add: unat_of_nat take_bit_nat_eq_self)
  then have w': "uint (c_ulong (int v)) = int v" by (metis uint_nat)
  define e where "e = mk_pte PROT_NONE ?RW (int ?L + int v) (region1Pt s ! v)"
  define s4 where "s4 = (WriteRegister (REG_TLB_FLUSH (TLB_FLUSH_ADDR (push_bit (PAGESHIFT M) (ucast (pfn e)))))
    (s1\<lparr>region1Pt := (region1Pt s)[v := e]\<rparr>))\<lparr>pcbs := (pcbs s)(n \<mapsto> x\<lparr>region0 := PT_R1 v, free_vpn := of_nat v\<rparr>)\<rparr>"
  have ve: "valid e" by (simp add: e_def mk_pte_eq)
  have "w < length (region1Pt s) \<Longrightarrow> valid (region1Pt s ! w) \<Longrightarrow> valid ((region1Pt s)[v := e] ! w)" for w
    using ve by (cases "w = v") simp_all
  then have t4: "tbl s4 t = Inr ps" if "tbl s t = Inr ps" for t ps
    using that by (auto simp: s4_def s1 tbl_def WriteRegister_def split: ptref.splits if_splits)
  have t: "tbl s4 (PT_R1 v) = Inr (r1_tables s v)"
    using v(1) assms(4) by (simp add: s4_def s1 tbl_def WriteRegister_def e_def mk_pte_eq)
  have f: "frames_wf s4" "free_list s4 = fl"
    using assms(6,7) free_list_reserved [OF v(2)] by (simp_all add: s4_def s1 frames_wf_def WriteRegister_def free_list_def)
  have "tbl_len (PT_R1 v) ?L s4" using t assms(5) by (simp add: tbl_len_def)
  moreover have "length [base..<?L] \<le> length (free_list s4)" using assms(1,8,9) f(2) by (simp add: hw_layout_def)
  moreover have "set [base..<?L] \<subseteq> {..<?L}" by auto
  ultimately obtain s' where s': "fold_res (setup_pte (PT_R1 v) PROT_NONE ?RW) (map int [base..<?L]) s4 = Inr s'"
      "mapped_run (PT_R1 v) ?L PROT_NONE ?RW [base..<?L] s4 s'"
    using setup_run [OF f(1) _ distinct_upt, of "PT_R1 v" ?L base ?L PROT_NONE ?RW] by blast
  have b: "BuildRegion0 M (Some n) s = Inr s'"
    using assms(2,3,4) v(1) w w' s'(1)
    by (simp add: BuildRegion0_def kernel_stack_vpns_eq [OF assms(1,9)] wr_r1_def rd_r1_def s1 s4_def e_def Let_def WriteRegister_def)
  have om: "only_maps s4 s'" and pc: "pcbs s' = pcbs s4" using s'(2) by (simp_all add: mapped_run_def only_mapsD)
  have "entry (PT_R1 v) s4 j = (if j < ?L then Some (r1_tables s v ! j) else None)" for j
    using t assms(5) by (simp add: entry_def)
  then have "entry (PT_R1 v) s' j = (if base \<le> j \<and> j < ?L then Some \<lparr>pfn = c_pfn (int (fl ! (j - base))),
       uprot = PROT_NONE, kprot = ?RW, valid = True\<rparr> else if j < ?L then Some (r1_tables s v ! j) else None)" for j
    using s'(2) f(2) by (auto simp: mapped_run_def dest!: spec [of _ "j - base"])
  moreover have "built_region0 M v fl s s'"
  proof -
    have "only_mem (s\<lparr>pcbs := pcbs s4\<rparr>) s4" by (simp add: only_mem_def s4_def s1 WriteRegister_def)
    with only_maps_mem [OF om] have "only_mem (s\<lparr>pcbs := pcbs s'\<rparr>) s'" unfolding pc by (blast intro: only_mem_trans)
    moreover have "tbl s' t = Inr ps" if "tbl s t = Inr ps" for t ps
    proof -
      have "t \<noteq> PT_R1 v" using that v(3) by (auto simp: tbl_def split: if_splits)
      then show ?thesis using setup_ptes_frame [OF f(1) s'(1)] t4 [OF that] by simp
    qed
    moreover have "region1Pt s' = (region1Pt s)[v := e]" "frames s' = frames s"
      using only_mapsD [OF om] by (simp_all add: s4_def s1 WriteRegister_def)
    moreover have "length (freePages s') = length (freePages s)"
      using s'(2) f(1) only_mapsD(5) [OF om] by (simp add: mapped_run_def frames_wf_def s4_def s1 WriteRegister_def)
    moreover have "length [base..<?L] = KERNEL_STACK_PAGES M" using assms(1,9) by (simp add: hw_layout_def)
    moreover have "uncounted s \<le> uncounted s'"
    proof -
      have "uncounted s \<le> uncounted s4"
        using length_filter_le [of "\<lambda>x. v + ?L \<noteq> x" "free_list s"] f(2) assms(7)
        by (simp add: uncounted_def s4_def s1 WriteRegister_def removeAll_filter_not_eq)
      then show ?thesis using setup_ptes_frame [OF f(1) s'(1)] by simp
    qed
    ultimately show ?thesis using s'(2) f(2) v ve by (auto simp: built_region0_def mapped_run_def)
  qed
  ultimately show ?thesis using b pc by (auto simp: s4_def)
qed

end
