(* ===== verification/Family.thy ===== *)
theory Family
  imports Queues
begin

text \<open>
  Process control blocks and the two lists a process keeps of its children (src/sharedvar.c): the
  children that run, linked through their sibling fields, and the records of those that have exited.
\<close>

section \<open>Creating a process control block\<close>

definition SetProcID :: "ptr \<Rightarrow> kstate \<Rightarrow> kstate res" where
  "SetProcID proc s =
     rbind (wr_pcb proc (process_id_update (\<lambda>_. next_proc_id s)) s) (\<lambda>s.
     Inr (s\<lparr>next_proc_id := int_inc (next_proc_id s)\<rparr>))"

text \<open>\<open>ctx\<close>, \<open>sp\<close>, \<open>parent\<close> and the two terminal links keep whatever the block contained.\<close>

definition create_pcb :: "machine \<Rightarrow> kstate \<Rightarrow> (kstate \<times> ptr) res" where
  "create_pcb M s =
     (let new = Some (heap_top s) in
      rbind (SetProcID new (malloc_pcb M s)) (\<lambda>s.
      rbind (wr_pcb new (\<lambda>p. p\<lparr>brk := - 1, reg0_pfn := - 1, region0 := PT_NULL, free_vpn := - 1,
               delay_ticks := - 1, children_head := NULL, children_tail := NULL,
               next_sibling := NULL, prev_sibling := NULL, exited_children_head := NULL,
               exited_children_tail := NULL, waiting := False\<rparr>) s) (\<lambda>s.
      Inr (s, new))))"

section \<open>Exited children\<close>

definition PushExitToExited :: "ptr \<Rightarrow> ptr \<Rightarrow> kstate \<Rightarrow> kstate res" where
  "PushExitToExited child current s =
     rbind (wr_exited child (x_next_update (\<lambda>_. NULL)) s) (\<lambda>s.
     rbind (rd_pcb s current) (\<lambda>c.
     if exited_children_head c = NULL
     then wr_pcb current (\<lambda>c. c\<lparr>exited_children_head := child, exited_children_tail := child\<rparr>) s
     else rbind (wr_exited (exited_children_tail c) (x_next_update (\<lambda>_. child)) s) (\<lambda>s.
          rbind (wr_exited child (x_prev_update (\<lambda>_. exited_children_tail c)) s) (\<lambda>s.
          wr_pcb current (exited_children_tail_update (\<lambda>_. child)) s))))"

definition RemoveHeadFromExitQueue :: "machine \<Rightarrow> ptr \<Rightarrow> kstate \<Rightarrow> kstate res" where
  "RemoveHeadFromExitQueue M current s =
     rbind (rd_pcb s current) (\<lambda>c.
     let nextChild = exited_children_head c in
     if exited_children_head c \<noteq> NULL
     then rbind (if exited_children_head c = exited_children_tail c
                 then wr_pcb current (\<lambda>c. c\<lparr>exited_children_head := NULL, exited_children_tail := NULL\<rparr>) s
                 else Inr s) (\<lambda>s.
          rbind (rd_exited s nextChild) (\<lambda>x.
          rbind (wr_pcb current (exited_children_head_update (\<lambda>_. x_next x)) s) (\<lambda>s.
          rbind (rd_pcb s current) (\<lambda>c.
          rbind (wr_exited (exited_children_head c) (x_prev_update (\<lambda>_. NULL)) s) (\<lambda>s.
          free_exited M nextChild s)))))
     else Inr s)"

section \<open>Running children\<close>

definition RemoveChildFromParent :: "ptr \<Rightarrow> ptr \<Rightarrow> kstate \<Rightarrow> kstate res" where
  "RemoveChildFromParent item parent_proc s =
     rbind (rd_pcb s item) (\<lambda>i.
     rbind (rd_pcb s parent_proc) (\<lambda>p.
     if children_head p = item \<and> children_tail p = item
     then rbind (wr_pcb parent_proc (\<lambda>p. p\<lparr>children_head := NULL, children_tail := NULL\<rparr>) s) (\<lambda>s.
          wr_pcb item (\<lambda>i. i\<lparr>next_sibling := NULL, prev_sibling := NULL\<rparr>) s)
     else if children_head p = item
     then rbind (wr_pcb parent_proc (children_head_update (\<lambda>_. next_sibling i)) s) (\<lambda>s.
          rbind (rd_pcb s parent_proc) (\<lambda>p.
          wr_pcb (children_head p) (prev_sibling_update (\<lambda>_. NULL)) s))
     else if children_tail p = item
     then rbind (wr_pcb parent_proc (children_tail_update (\<lambda>_. prev_sibling i)) s) (\<lambda>s.
          rbind (rd_pcb s parent_proc) (\<lambda>p.
          wr_pcb (children_tail p) (next_sibling_update (\<lambda>_. NULL)) s))
     else rbind (wr_pcb (prev_sibling i) (next_sibling_update (\<lambda>_. next_sibling i)) s) (\<lambda>s.
          rbind (rd_pcb s item) (\<lambda>i.
          wr_pcb (next_sibling i) (prev_sibling_update (\<lambda>_. prev_sibling i)) s))))"

section \<open>The lists\<close>

interpretation sib: link_cell next_sibling prev_sibling
  "\<lambda>p. next_sibling_update (\<lambda>_. p)" "\<lambda>p. prev_sibling_update (\<lambda>_. p)"
  by unfold_locales simp_all

interpretation xq: link_cell x_next x_prev "\<lambda>p. x_next_update (\<lambda>_. p)" "\<lambda>p. x_prev_update (\<lambda>_. p)"
  by unfold_locales simp_all

definition child_q :: "kstate \<Rightarrow> nat \<Rightarrow> nat list \<Rightarrow> bool" where
  "child_q s p cs \<longleftrightarrow> (\<exists>x. pcbs s p = Some x \<and> children_head x = lead cs NULL \<and>
     children_tail x = behind NULL cs) \<and> sib.dlist (pcbs s) cs \<and> p \<notin> set cs"

definition exit_q :: "kstate \<Rightarrow> nat \<Rightarrow> nat list \<Rightarrow> bool" where
  "exit_q s p xs \<longleftrightarrow> (\<exists>x. pcbs s p = Some x \<and> exited_children_head x = lead xs NULL \<and>
     exited_children_tail x = behind NULL xs) \<and> xq.dlist (exiteds s) xs"

text \<open>A process control block without its links to the family.\<close>

definition bare :: "pcb \<Rightarrow> pcb" where
  "bare x = x\<lparr>children_head := NULL, children_tail := NULL, next_sibling := NULL, prev_sibling := NULL,
     exited_children_head := NULL, exited_children_tail := NULL\<rparr>"

lemma bare_fields:
  assumes "bare y = bare x"
  shows "process_id y = process_id x" "region0 y = region0 x" "free_vpn y = free_vpn x" "brk y = brk x" "sp y = sp x"
    "parent y = parent x" "delay_ticks y = delay_ticks x" "waiting y = waiting x" "ctx y = ctx x"
  using arg_cong [OF assms, of process_id] arg_cong [OF assms, of region0] arg_cong [OF assms, of free_vpn]
    arg_cong [OF assms, of brk] arg_cong [OF assms, of sp] arg_cong [OF assms, of parent]
    arg_cong [OF assms, of delay_ticks] arg_cong [OF assms, of waiting] arg_cong [OF assms, of ctx]
  by (simp_all add: bare_def)

lemma bare_ctx: "bare (x\<lparr>ctx := k\<rparr>) = (bare x)\<lparr>ctx := k\<rparr>"
  by (rule pcb.equality) (simp_all add: bare_def)

definition same_bare :: "kstate \<Rightarrow> kstate \<Rightarrow> bool" where
  "same_bare s s' \<longleftrightarrow> (\<forall>c. map_option bare (pcbs s' c) = map_option bare (pcbs s c))"

text \<open>Operations on the families change nothing but process control blocks and exit records.\<close>

definition only_family :: "kstate \<Rightarrow> kstate \<Rightarrow> bool" where
  "only_family s s' \<longleftrightarrow> s' = s\<lparr>pcbs := pcbs s', exiteds := exiteds s'\<rparr>"

lemma only_familyI: "s' = s\<lparr>pcbs := pcbs s'\<rparr> \<Longrightarrow> only_family s s'"
  unfolding only_family_def by (erule ssubst) simp

lemma only_pcbs_exiteds:
  assumes "s' = s\<lparr>pcbs := pcbs s'\<rparr>"
  shows "exiteds s' = exiteds s"
proof -
  obtain h where "s' = s\<lparr>pcbs := h\<rparr>" using assms by blast
  then show ?thesis by simp
qed

lemma only_familyD:
  assumes "only_family s s'"
  shows "curr_proc s' = curr_proc s" "idle_pcb s' = idle_pcb s" "items s' = items s" "heap_top s' = heap_top s"
    "queue_head s' = queue_head s" "queue_tail s' = queue_tail s" "queue_size s' = queue_size s"
    "lines s' = lines s" "next_proc_id s' = next_proc_id s"
proof -
  obtain h e where "s' = s\<lparr>pcbs := h, exiteds := e\<rparr>" using assms unfolding only_family_def by blast
  then show "curr_proc s' = curr_proc s" "idle_pcb s' = idle_pcb s" "items s' = items s" "heap_top s' = heap_top s"
    "queue_head s' = queue_head s" "queue_tail s' = queue_tail s" "queue_size s' = queue_size s"
    "lines s' = lines s" "next_proc_id s' = next_proc_id s"
    by simp_all
qed

lemma pid_of_simps: "pid_of s None = None" "pid_of s (Some a) = map_option process_id (pcbs s a)"
  by (simp_all add: pid_of_def rd_pcb_def hget_def split: option.split)

lemma is_pcb_simps: "is_pcb s None = False" "is_pcb s (Some a) = (pcbs s a \<noteq> None)"
  by (simp_all add: is_pcb_def)

lemma same_bare_pid:
  assumes "same_bare s s'"
  shows "pid_of s' p = pid_of s p" "is_pcb s' p = is_pcb s p"
proof -
  have b: "map_option bare (pcbs s' c) = map_option bare (pcbs s c)" for c
    using assms by (simp add: same_bare_def)
  have "map_option process_id (pcbs s' c) = map_option process_id (pcbs s c)" for c
    using arg_cong [OF b [of c], of "map_option process_id"] by (simp add: option.map_comp comp_def bare_def)
  then show "pid_of s' p = pid_of s p" by (cases p) (simp_all add: pid_of_simps)
  have "(pcbs s' c = None) = (pcbs s c = None)" for c using b [of c] by (metis map_option_is_None)
  then show "is_pcb s' p = is_pcb s p" by (cases p) (simp_all add: is_pcb_simps)
qed

lemma same_bare_field:
  assumes "same_bare s s'" "\<And>x. f (bare x) = f x"
  shows "map_option f (pcbs s' c) = map_option f (pcbs s c)"
proof -
  have "map_option bare (pcbs s' c) = map_option bare (pcbs s c)" using assms(1) by (simp add: same_bare_def)
  from arg_cong [OF this, of "map_option f"] assms(2) show ?thesis by (simp add: option.map_comp comp_def)
qed

lemma exit_q_alloc: "exit_q s p xs \<Longrightarrow> a \<in> set xs \<Longrightarrow> \<exists>x. exiteds s a = Some x"
  by (auto simp: exit_q_def xq.dlist_def dest: xq.dseg_alloc)

lemma child_q_alloc: "child_q s p xs \<Longrightarrow> a \<in> set xs \<Longrightarrow> \<exists>x. pcbs s a = Some x"
  by (auto simp: child_q_def sib.dlist_def dest: sib.dseg_alloc)

lemma PushExitToExited_ok:
  assumes q: "exit_q s p xs" and n: "exiteds s n = Some e" "n \<notin> set xs"
  shows "\<exists>s'. PushExitToExited (Some n) (Some p) s = Inr s' \<and> exit_q s' p (xs @ [n]) \<and> same_bare s s' \<and>
    s' = s\<lparr>pcbs := pcbs s', exiteds := exiteds s'\<rparr> \<and>
    (\<forall>a. map_option (\<lambda>x. (x_process_id x, status x)) (exiteds s' a)
       = map_option (\<lambda>x. (x_process_id x, status x)) (exiteds s a)) \<and>
    (\<exists>y h l. pcbs s p = Some y \<and> pcbs s' = (pcbs s)(p \<mapsto> y\<lparr>exited_children_head := h, exited_children_tail := l\<rparr>))"
proof -
  obtain x where x: "pcbs s p = Some x" "exited_children_head x = lead xs NULL"
    "exited_children_tail x = behind NULL xs" and d: "xq.dlist (exiteds s) xs"
    using q by (auto simp: exit_q_def)
  show ?thesis
  proof (cases xs rule: rev_cases)
    case Nil
    with x n show ?thesis
      by (auto simp: PushExitToExited_def exit_q_def xq.dlist_def same_bare_def bare_def)
  next
    case (snoc ys b)
    then obtain f where f: "exiteds s b = Some f" using exit_q_alloc [OF q, of b] by auto
    have bn: "b \<noteq> n" using n(2) snoc by auto
    let ?h = "(exiteds s)(n \<mapsto> e\<lparr>x_next := NULL\<rparr>)"
    let ?h' = "?h(b \<mapsto> f\<lparr>x_next := Some n\<rparr>, n \<mapsto> e\<lparr>x_next := NULL, x_prev := Some b\<rparr>)"
    let ?s = "s\<lparr>exiteds := ?h', pcbs := (pcbs s)(p \<mapsto> x\<lparr>exited_children_tail := Some n\<rparr>)\<rparr>"
    have hd: "exited_children_head x \<noteq> NULL" using x snoc by (cases ys) auto
    have "PushExitToExited (Some n) (Some p) s = Inr ?s"
      using x n f bn hd snoc by (auto simp: PushExitToExited_def fun_upd_twist)
    moreover have "xq.dlist ?h' (ys @ [b, n])"
      using d n f bn snoc xq.dlist_snoc [of ?h ys b f n "e\<lparr>x_next := NULL\<rparr>"] by simp
    moreover have "pcbs ?s = (pcbs s)(p \<mapsto> x\<lparr>exited_children_head := exited_children_head x, exited_children_tail := Some n\<rparr>)"
      by simp
    ultimately show ?thesis using x n f snoc
      by (auto simp: exit_q_def same_bare_def bare_def)
  qed
qed

text \<open>With two or more records the head is removed; with one the code follows a null pointer.\<close>

lemma RemoveHeadFromExitQueue_two:
  assumes q: "exit_q s p (a # b # xs)"
  shows "\<exists>s'. RemoveHeadFromExitQueue M (Some p) s = Inr s' \<and> exit_q s' p (b # xs) \<and> same_bare s s' \<and>
    s' = s\<lparr>pcbs := pcbs s', exiteds := exiteds s'\<rparr> \<and>
    exiteds s' a = Option.bind (exiteds s a) (freed_exited M)"
proof -
  obtain x where x: "pcbs s p = Some x" "exited_children_head x = Some a"
    "exited_children_tail x = behind (Some b) xs" and d: "xq.dlist (exiteds s) (a # b # xs)"
    using q by (auto simp: exit_q_def)
  obtain e f where e: "exiteds s a = Some e" "exiteds s b = Some f"
    using exit_q_alloc [OF q, of a] exit_q_alloc [OF q, of b] by auto
  have ab: "a \<notin> set (b # xs)" using d by (simp add: xq.dlist_def)
  then have tl: "exited_children_tail x \<noteq> Some a" using x by (auto simp: behind_def)
  have nx: "x_next e = Some b" using xq.dlist_next [of "exiteds s" "[]" a "b # xs" e] d e by simp
  let ?h = "(exiteds s)(b \<mapsto> f\<lparr>x_prev := NULL\<rparr>, a := freed_exited M e)"
  let ?s = "s\<lparr>pcbs := (pcbs s)(p \<mapsto> x\<lparr>exited_children_head := Some b\<rparr>), exiteds := ?h\<rparr>"
  have "RemoveHeadFromExitQueue M (Some p) s = Inr ?s"
    using x e nx tl ab by (simp add: RemoveHeadFromExitQueue_def Let_def)
  moreover have "xq.dlist ?h (b # xs)"
    using d e ab xq.dlist_unlink_head [of "exiteds s" a b xs f NULL] by simp
  ultimately show ?thesis using x e by (auto simp: exit_q_def same_bare_def bare_def)
qed

lemma RemoveHeadFromExitQueue_one:
  assumes q: "exit_q s p [a]"
  shows "RemoveHeadFromExitQueue M (Some p) s = Inl NullDeref"
proof -
  obtain e where "exiteds s a = Some e" "x_next e = NULL"
    using q by (auto simp: exit_q_def xq.dlist_def)
  with q show ?thesis by (auto simp: RemoveHeadFromExitQueue_def exit_q_def Let_def)
qed

lemma RemoveHeadFromExitQueue_none:
  assumes "exit_q s p []"
  shows "RemoveHeadFromExitQueue M (Some p) s = Inr s"
  using assms by (auto simp: RemoveHeadFromExitQueue_def exit_q_def Let_def)

section \<open>Unlinking a child\<close>

text \<open>
  What unlinking the child \<open>c\<close> between \<open>as\<close> and \<open>bs\<close> does. The removed child still leads to the first of
  \<open>bs\<close>: \<open>ExitFunc\<close> goes on from there.
\<close>

definition child_removed :: "nat \<Rightarrow> nat list \<Rightarrow> nat \<Rightarrow> nat list \<Rightarrow> kstate \<Rightarrow> kstate \<Rightarrow> bool" where
  "child_removed p as c bs s s' \<longleftrightarrow> child_q s' p (as @ bs) \<and> same_bare s s' \<and> s' = s\<lparr>pcbs := pcbs s'\<rparr> \<and>
     (\<exists>i. pcbs s' c = Some i \<and> next_sibling i = lead bs NULL) \<and>
     (\<forall>q. map_option (\<lambda>x. (exited_children_head x, exited_children_tail x)) (pcbs s' q)
        = map_option (\<lambda>x. (exited_children_head x, exited_children_tail x)) (pcbs s q))"

lemma child_q_facts:
  assumes "child_q s p (as @ a # bs)"
  shows "sib.dlist (pcbs s) (as @ a # bs)" "distinct (as @ a # bs)" "p \<notin> set (as @ a # bs)"
    "\<exists>x. pcbs s p = Some x \<and> children_head x = lead as (Some a) \<and> children_tail x = behind (Some a) bs"
    "\<exists>i. pcbs s a = Some i \<and> next_sibling i = lead bs NULL"
proof -
  show d: "sib.dlist (pcbs s) (as @ a # bs)" "distinct (as @ a # bs)" "p \<notin> set (as @ a # bs)"
    "\<exists>x. pcbs s p = Some x \<and> children_head x = lead as (Some a) \<and> children_tail x = behind (Some a) bs"
    using assms by (simp_all add: child_q_def sib.dlist_def)
  obtain i where "pcbs s a = Some i" using child_q_alloc [OF assms, of a] by auto
  then show "\<exists>i. pcbs s a = Some i \<and> next_sibling i = lead bs NULL"
    using sib.dlist_next [OF d(1)] by simp
qed

lemma RemoveChildFromParent_only:
  assumes q: "child_q s p [a]"
  shows "\<exists>s'. RemoveChildFromParent (Some a) (Some p) s = Inr s' \<and> child_removed p [] a [] s s'"
proof -
  obtain x i where x: "pcbs s p = Some x" "children_head x = Some a" "children_tail x = Some a"
      "pcbs s a = Some i" "p \<noteq> a"
    using child_q_facts(3-5) [of s p "[]" a "[]"] q by auto
  let ?s = "s\<lparr>pcbs := (pcbs s)(p \<mapsto> x\<lparr>children_head := NULL, children_tail := NULL\<rparr>,
      a \<mapsto> i\<lparr>next_sibling := NULL, prev_sibling := NULL\<rparr>)\<rparr>"
  have "RemoveChildFromParent (Some a) (Some p) s = Inr ?s"
    using x by (simp add: RemoveChildFromParent_def)
  then show ?thesis using x by (auto simp: child_removed_def child_q_def same_bare_def bare_def)
qed

lemma RemoveChildFromParent_head:
  assumes q: "child_q s p (a # b # cs)"
  shows "\<exists>s'. RemoveChildFromParent (Some a) (Some p) s = Inr s' \<and> child_removed p [] a (b # cs) s s'"
proof -
  note f = child_q_facts [of s p "[]" a "b # cs", simplified, OF q]
  obtain x i where x: "pcbs s p = Some x" "children_head x = Some a" "children_tail x = behind (Some b) cs"
      "pcbs s a = Some i" "next_sibling i = Some b"
    using f by auto
  obtain j where j: "pcbs s b = Some j" using child_q_alloc [OF q, of b] by auto
  have n: "children_tail x \<noteq> Some a" "p \<noteq> b" using f x by (auto simp: behind_def)
  let ?s = "s\<lparr>pcbs := (pcbs s)(p \<mapsto> x\<lparr>children_head := Some b\<rparr>, b \<mapsto> j\<lparr>prev_sibling := NULL\<rparr>)\<rparr>"
  have "RemoveChildFromParent (Some a) (Some p) s = Inr ?s"
    using x j n by (simp add: RemoveChildFromParent_def)
  moreover have "sib.dlist ((pcbs s)(p \<mapsto> x\<lparr>children_head := Some b\<rparr>)) (a # b # cs)" using f by simp
  then have "sib.dlist (pcbs ?s) (b # cs)"
    using j n sib.dlist_unlink_head [of "(pcbs s)(p \<mapsto> x\<lparr>children_head := Some b\<rparr>)" a b cs j NULL] by simp
  ultimately show ?thesis using x j n f by (auto simp: child_removed_def child_q_def same_bare_def bare_def)
qed

lemma child_q_prev:
  assumes "child_q s p (ds @ [e, a] @ bs)" "pcbs s a = Some i" "pcbs s p = Some x"
  shows "prev_sibling i = Some e" "e \<noteq> a" "children_head x \<noteq> Some a"
proof -
  note f = child_q_facts [of s p "ds @ [e]" a bs, simplified]
  show "prev_sibling i = Some e"
    using f(1) assms sib.dlist_prev [of "pcbs s" ds e a bs i] by simp
  show "e \<noteq> a" "children_head x \<noteq> Some a" using f assms by (cases ds; auto)+
qed

lemma RemoveChildFromParent_tail:
  assumes q: "child_q s p (ds @ [e, a])"
  shows "\<exists>s'. RemoveChildFromParent (Some a) (Some p) s = Inr s' \<and> child_removed p (ds @ [e]) a [] s s'"
proof -
  note f = child_q_facts [of s p "ds @ [e]" a "[]", simplified, OF q]
  obtain x i where x: "pcbs s p = Some x" "children_head x = lead ds (Some e)" "children_tail x = Some a"
      "pcbs s a = Some i"
    using f by auto
  obtain k where k: "pcbs s e = Some k" using child_q_alloc [OF q, of e] by auto
  note n = child_q_prev [of s p ds e a "[]" i x, simplified, OF q x(4) x(1)]
  have pe: "p \<noteq> e" using f by auto
  let ?s = "s\<lparr>pcbs := (pcbs s)(p \<mapsto> x\<lparr>children_tail := Some e\<rparr>, e \<mapsto> k\<lparr>next_sibling := NULL\<rparr>)\<rparr>"
  have "RemoveChildFromParent (Some a) (Some p) s = Inr ?s"
    using x k n pe by (simp add: RemoveChildFromParent_def)
  moreover have "sib.dlist ((pcbs s)(p \<mapsto> x\<lparr>children_tail := Some e\<rparr>)) (ds @ [e, a])" using f by simp
  then have "sib.dlist (pcbs ?s) (ds @ [e])"
    using k pe sib.dlist_unlink_tail [of "(pcbs s)(p \<mapsto> x\<lparr>children_tail := Some e\<rparr>)" ds e a k] by simp
  ultimately show ?thesis using x k pe f by (auto simp: child_removed_def child_q_def same_bare_def bare_def)
qed

lemma RemoveChildFromParent_middle:
  assumes q: "child_q s p (ds @ [e, a, b] @ cs)"
  shows "\<exists>s'. RemoveChildFromParent (Some a) (Some p) s = Inr s' \<and> child_removed p (ds @ [e]) a (b # cs) s s'"
proof -
  note f = child_q_facts [of s p "ds @ [e]" a "b # cs", simplified, OF q [simplified]]
  obtain x i where x: "pcbs s p = Some x" "children_head x = lead ds (Some e)"
      "children_tail x = behind (Some b) cs" "pcbs s a = Some i" "next_sibling i = Some b"
    using f by auto
  obtain j k where jk: "pcbs s b = Some j" "pcbs s e = Some k"
    using child_q_alloc [OF q, of b] child_q_alloc [OF q, of e] by auto
  note n = child_q_prev [of s p ds e a "b # cs" i x, simplified, OF q [simplified] x(4) x(1)]
  have pe: "p \<noteq> e" "p \<noteq> b" "e \<noteq> b" "a \<noteq> b" "children_tail x \<noteq> Some a" using f x by (auto simp: behind_def)
  let ?s = "s\<lparr>pcbs := (pcbs s)(e \<mapsto> k\<lparr>next_sibling := Some b\<rparr>, b \<mapsto> j\<lparr>prev_sibling := Some e\<rparr>)\<rparr>"
  have "RemoveChildFromParent (Some a) (Some p) s = Inr ?s"
    using x jk n pe by (simp add: RemoveChildFromParent_def)
  moreover have "sib.dlist (pcbs ?s) (ds @ [e, b] @ cs)"
    using f jk sib.dlist_unlink_middle [of "pcbs s" ds e a b cs k j] by simp
  ultimately show ?thesis using x jk pe f by (auto simp: child_removed_def child_q_def same_bare_def bare_def)
qed

lemma RemoveChildFromParent_ok:
  assumes q: "child_q s p (as @ a # bs)"
  shows "\<exists>s'. RemoveChildFromParent (Some a) (Some p) s = Inr s' \<and> child_removed p as a bs s s'"
proof (cases as rule: rev_cases)
  case Nil
  with q show ?thesis
    using RemoveChildFromParent_only RemoveChildFromParent_head by (cases bs) auto
next
  case (snoc ds e)
  with q show ?thesis
    using RemoveChildFromParent_tail [of s p ds e a] RemoveChildFromParent_middle [of s p ds e a]
    by (cases bs) auto
qed

section \<open>Process ids\<close>

text \<open>Every process has an id below the next one, and no two processes share an id.\<close>

definition pid_inv :: "kstate \<Rightarrow> bool" where
  "pid_inv s \<longleftrightarrow> heap_wf s \<and> (\<forall>a x. pcbs s a = Some x \<longrightarrow> process_id x < next_proc_id s) \<and>
     (\<forall>a b x y. pcbs s a = Some x \<longrightarrow> pcbs s b = Some y \<longrightarrow> process_id x = process_id y \<longrightarrow> a = b)"

definition fresh_pcb :: "machine \<Rightarrow> kstate \<Rightarrow> pcb" where
  "fresh_pcb M s = (junk_pcb M (heap_top s))\<lparr>process_id := next_proc_id s, brk := - 1, reg0_pfn := - 1,
     region0 := PT_NULL, free_vpn := - 1, delay_ticks := - 1, children_head := NULL,
     children_tail := NULL, next_sibling := NULL, prev_sibling := NULL, exited_children_head := NULL,
     exited_children_tail := NULL, waiting := False\<rparr>"

lemma create_pcb_eq:
  "create_pcb M s =
     Inr (s\<lparr>pcbs := (pcbs s)(heap_top s \<mapsto> fresh_pcb M s), heap_top := Suc (heap_top s),
            next_proc_id := int_inc (next_proc_id s)\<rparr>, Some (heap_top s))"
  by (simp add: create_pcb_def SetProcID_def malloc_pcb_def fresh_pcb_def)

section \<open>Properties of processes and families\<close>

text \<open>C39: process ids are unique as long as the 32-bit counter does not overflow. \<open>create_pcb\<close> always returns
  a block that was not in use and gives it the next id. Below the largest \<open>int\<close> it steps the counter and keeps
  the invariant: all ids are different and below the counter. With the largest \<open>int\<close> the counter wraps around
  to the smallest one, from where it runs through the ids in use again.\<close>

theorem create_pcb_unique_pid:
  assumes "pid_inv s" "0 \<le> next_proc_id s" "next_proc_id s < 2 ^ 31"
  shows "\<exists>s' a. create_pcb M s = Inr (s', Some a) \<and> pcbs s a = None \<and>
    pid_of s' (Some a) = Some (next_proc_id s) \<and> (\<forall>b. b \<noteq> a \<longrightarrow> pcbs s' b = pcbs s b) \<and>
    (if next_proc_id s < 2 ^ 31 - 1 then next_proc_id s' = next_proc_id s + 1 \<and> pid_inv s'
     else next_proc_id s' = - (2 ^ 31) \<and> \<not> pid_inv s')"
proof -
  let ?s = "s\<lparr>pcbs := (pcbs s)(heap_top s \<mapsto> fresh_pcb M s), heap_top := Suc (heap_top s),
      next_proc_id := int_inc (next_proc_id s)\<rparr>"
  have id: "process_id (fresh_pcb M s) = next_proc_id s" by (simp add: fresh_pcb_def)
  have fresh: "pcbs s (heap_top s) = None" using assms by (simp add: pid_inv_def heap_wf_def)
  have lt: "process_id x < next_proc_id s" if "pcbs s b = Some x" for b x
    using assms that by (auto simp: pid_inv_def)
  have below: "process_id x < next_proc_id s + 1" if "pcbs ?s b = Some x" for b x
    using that lt [of b x] id by (auto split: if_splits)
  have unique: "b = c" if "pcbs ?s b = Some x" "pcbs ?s c = Some y" "process_id x = process_id y" for b c x y
  proof (cases "b = heap_top s \<or> c = heap_top s")
    case True
    with that lt [of b x] lt [of c y] id show ?thesis by (auto split: if_splits)
  next
    case False
    with that assms show ?thesis by (auto simp: pid_inv_def)
  qed
  have "heap_wf ?s" using assms by (auto simp: pid_inv_def heap_wf_def)
  then have inv: "pid_inv ?s" if "next_proc_id ?s = next_proc_id s + 1"
    unfolding pid_inv_def that by (intro conjI allI impI below unique)
  have "if next_proc_id s < 2 ^ 31 - 1 then next_proc_id ?s = next_proc_id s + 1 \<and> pid_inv ?s
     else next_proc_id ?s = - (2 ^ 31) \<and> \<not> pid_inv ?s"
  proof (cases "next_proc_id s < 2 ^ 31 - 1")
    case True
    then have "int_inc (next_proc_id s) = next_proc_id s + 1" using assms(2) by (intro int_inc_eq) simp_all
    with True inv show ?thesis by simp
  next
    case False
    then have "next_proc_id s = 2 ^ 31 - 1" using assms(3) by simp
    then have "next_proc_id ?s = - (2 ^ 31)" using int_inc_overflow by simp
    moreover have "pcbs ?s (heap_top s) = Some (fresh_pcb M s)" by simp
    ultimately show ?thesis using False id assms(2) unfolding pid_inv_def by fastforce
  qed
  with fresh id show ?thesis
    by (intro exI [of _ ?s] exI [of _ "heap_top s"]) (simp add: create_pcb_eq pid_of_def)
qed

lemma demo_pid_inv: "pid_inv (demo\<lparr>next_proc_id := 3\<rparr>)"
proof -
  let ?s = "demo\<lparr>next_proc_id := 3\<rparr>"
  have "heap_wf ?s" using demo_facts(3) by (simp add: heap_wf_def)
  moreover have "a \<in> {1, 2, 3} \<and> process_id x = int a - 1" if "pcbs ?s a = Some x" for a x
    using that by (auto simp: demo_def blank_def zero_pcb_def split: if_splits)
  ultimately show ?thesis unfolding pid_inv_def by fastforce
qed

theorem create_pcb_unique_pid_witness:
  "\<exists>s' a. create_pcb tiny (demo\<lparr>next_proc_id := 3\<rparr>) = Inr (s', Some a) \<and> pid_of s' (Some a) = Some 3 \<and> pid_inv s'"
  using create_pcb_unique_pid [OF demo_pid_inv, of tiny] by fastforce

text \<open>Process 2 with the running children 3, 4 and 5 and the records 6 and 7 of exited children.\<close>

definition demo_family :: kstate where
  "demo_family = blank\<lparr>pcbs := [1 \<mapsto> zero_pcb,
       2 \<mapsto> zero_pcb\<lparr>process_id := 1, children_head := Some 3, children_tail := Some 5,
                     exited_children_head := Some 6, exited_children_tail := Some 7\<rparr>,
       3 \<mapsto> zero_pcb\<lparr>process_id := 2, parent := Some 2, next_sibling := Some 4\<rparr>,
       4 \<mapsto> zero_pcb\<lparr>process_id := 3, parent := Some 2, prev_sibling := Some 3, next_sibling := Some 5\<rparr>,
       5 \<mapsto> zero_pcb\<lparr>process_id := 4, parent := Some 2, prev_sibling := Some 4\<rparr>],
     exiteds := [6 \<mapsto> zero_exited\<lparr>x_process_id := 5, x_next := Some 7\<rparr>,
       7 \<mapsto> zero_exited\<lparr>x_process_id := 6, x_prev := Some 6\<rparr>],
     curr_proc := Some 2, idle_pcb := Some 1, heap_top := 10\<rparr>"

lemma demo_family_q: "child_q demo_family 2 [3, 4, 5]" "exit_q demo_family 2 [6, 7]"
  by (simp_all add: child_q_def exit_q_def sib.dlist_def xq.dlist_def demo_family_def zero_pcb_def zero_exited_def)

text \<open>C23: \<open>RemoveChildFromParent\<close> takes any child - the only one, the oldest, the youngest or one in
  between - out of the list of its parent and keeps the order of the others; nothing but family
  links changes.\<close>

theorem RemoveChildFromParent_refines:
  assumes "child_q s p (as @ c # bs)"
  shows "\<exists>s'. RemoveChildFromParent (Some c) (Some p) s = Inr s' \<and> child_q s' p (as @ bs) \<and>
    same_bare s s' \<and> s' = s\<lparr>pcbs := pcbs s'\<rparr>"
  using RemoveChildFromParent_ok [OF assms] by (auto simp: child_removed_def)

theorem RemoveChildFromParent_refines_witness:
  "\<exists>s'. RemoveChildFromParent (Some 4) (Some 2) demo_family = Inr s' \<and> child_q s' 2 [3, 5] \<and> same_bare demo_family s'"
  using RemoveChildFromParent_refines [of demo_family 2 "[3]" 4 "[5]"] demo_family_q by auto

text \<open>\<open>PushExitToExited\<close> appends a record to the exited children of a process. The ids and statuses
  of all records stay, and so does everything but the links.\<close>

lemma PushExitToExited_refines:
  assumes "exit_q s p xs" "exiteds s n = Some e" "n \<notin> set xs"
  shows "\<exists>s'. PushExitToExited (Some n) (Some p) s = Inr s' \<and> exit_q s' p (xs @ [n]) \<and> same_bare s s' \<and>
    s' = s\<lparr>pcbs := pcbs s', exiteds := exiteds s'\<rparr> \<and>
    (\<forall>a. map_option (\<lambda>x. (x_process_id x, status x)) (exiteds s' a)
       = map_option (\<lambda>x. (x_process_id x, status x)) (exiteds s a))"
  using PushExitToExited_ok [OF assms] by blast

lemma PushExitToExited_refines_witness:
  "\<exists>s'. PushExitToExited (Some 8) (Some 2) (demo_family\<lparr>exiteds := (exiteds demo_family)(8 \<mapsto> zero_exited)\<rparr>) = Inr s' \<and>
    exit_q s' 2 [6, 7, 8]"
proof -
  let ?s = "demo_family\<lparr>exiteds := (exiteds demo_family)(8 \<mapsto> zero_exited)\<rparr>"
  have "exit_q ?s 2 [6, 7]"
    by (simp add: exit_q_def xq.dlist_def demo_family_def zero_pcb_def zero_exited_def)
  from PushExitToExited_refines [OF this, of 8 zero_exited] show ?thesis by auto
qed

text \<open>C37: \<open>RemoveHeadFromExitQueue\<close> removes the oldest of two or more records and does nothing when
  there is none, but with exactly one record it follows the null pointer it has just stored in the
  head of the list.\<close>

theorem RemoveHeadFromExitQueue_by_length:
  assumes "exit_q s p xs"
  shows "case xs of [] \<Rightarrow> RemoveHeadFromExitQueue M (Some p) s = Inr s
    | [a] \<Rightarrow> RemoveHeadFromExitQueue M (Some p) s = Inl NullDeref
    | a # b # ys \<Rightarrow> \<exists>s'. RemoveHeadFromExitQueue M (Some p) s = Inr s' \<and> exit_q s' p (b # ys) \<and> same_bare s s'"
  using assms RemoveHeadFromExitQueue_two [of s p _ _ _ M] RemoveHeadFromExitQueue_one [of s p _ M]
    RemoveHeadFromExitQueue_none [of s p M]
  by (fastforce split: list.split)

theorem RemoveHeadFromExitQueue_by_length_witness:
  "\<exists>s'. RemoveHeadFromExitQueue tiny (Some 2) demo_family = Inr s' \<and> exit_q s' 2 [7] \<and>
    RemoveHeadFromExitQueue tiny (Some 2) s' = Inl NullDeref"
  using RemoveHeadFromExitQueue_by_length [OF demo_family_q(2), of tiny]
    RemoveHeadFromExitQueue_by_length [of _ 2 "[7]" tiny] by fastforce

end
