(* ===== verification/Switch.thy ===== *)
theory Switch
  imports Memory Family
begin

text \<open>
  The four functions that \<open>ContextSwitch\<close> runs between two processes (src/contextswitch.c), and what
  the hardware does around them.
\<close>

section \<open>Copying a page\<close>

text \<open>\<open>memcpy\<close> of one page from a readable to a writable virtual page.\<close>

definition copy_page :: "machine \<Rightarrow> nat \<Rightarrow> nat \<Rightarrow> kstate \<Rightarrow> kstate res" where
  "copy_page M dest src s =
     rbind (hw_pte M s src) (\<lambda>e.
     rbind (hw_pte M s dest) (\<lambda>d.
     if valid e \<and> PROT_READ \<in> kprot e \<and> valid d \<and> PROT_WRITE \<in> kprot d
     then Inr (s\<lparr>frames := (frames s)(unat (pfn d) := frames s (unat (pfn e)))\<rparr>)
     else Inl WildDeref))"

definition r1_addr :: "machine \<Rightarrow> int \<Rightarrow> nat" where
  "r1_addr M vpn = nat (vpn + int (PAGE_TABLE_LEN M)) * PAGESIZE M"

section \<open>The switch functions\<close>

text \<open>
  Each returns the process whose saved context is restored next. Their first argument \<open>ctxp\<close> is
  always \<open>&p1->ctx\<close>.
\<close>

definition copy_stack_page :: "machine \<Rightarrow> ptref \<Rightarrow> int \<Rightarrow> nat \<Rightarrow> kstate \<Rightarrow> kstate res" where
  "copy_stack_page M ct temp_vpn source_addr s =
     rbind (rd_pte s ct (int (source_addr div PAGESIZE M))) (\<lambda>e.
     rbind (wr_r1 temp_vpn (\<lambda>t. t\<lparr>uprot := PROT_NONE, kprot := {PROT_READ, PROT_WRITE}, valid := True,
              pfn := pfn e\<rparr>) s) (\<lambda>s.
     rbind (copy_page M (r1_addr M temp_vpn) source_addr s) (\<lambda>s.
     Inr (WriteRegister (REG_TLB_FLUSH (TLB_FLUSH_ADDR (of_nat (r1_addr M temp_vpn)))) s))))"

definition SwitchNewProc :: "machine \<Rightarrow> ptr \<Rightarrow> ptr \<Rightarrow> kstate \<Rightarrow> (kstate \<times> ptr) res" where
  "SwitchNewProc M p1 p2 s =
     rbind (rd_pcb s p1) (\<lambda>proc1.
     rbind (wr_pcb p2 (ctx_update (\<lambda>_. ctx proc1)) s) (\<lambda>s.
     rbind (rd_pcb s p2) (\<lambda>proc2.
     rbind (BorrowR1Page M s) (\<lambda>temp_vpn.
     rbind (rd_r1 s temp_vpn) (\<lambda>temp_copy.
     rbind (fold_res (copy_stack_page M (region0 proc2) temp_vpn)
       (addrs (PAGESIZE M) (KERNEL_STACK_BASE M) (KERNEL_STACK_LIMIT M)) s) (\<lambda>s.
     rbind (wr_r1 temp_vpn (\<lambda>_. temp_copy) s) (\<lambda>s.
     rbind (set_freePages (temp_vpn + int (PAGE_TABLE_LEN M)) PAGE_FREE s) (\<lambda>s.
     let s = (WriteRegister (REG_TLB_FLUSH TLB_FLUSH_1) s)\<lparr>curr_proc := p2\<rparr> in
     let s = WriteRegister (REG_PTR0 (PT_R1 (unat (free_vpn proc2)))) s in
     Inr (WriteRegister (REG_TLB_FLUSH TLB_FLUSH_0) s, p2)))))))))"

definition fork_page :: "machine \<Rightarrow> ptref \<Rightarrow> ptref \<Rightarrow> int \<Rightarrow> nat \<Rightarrow> kstate \<Rightarrow> kstate res" where
  "fork_page M pt ct temp_vpn addr s =
     (let page = int (addr div PAGESIZE M) in
      rbind (rd_pte s pt page) (\<lambda>e.
      rbind (wr_pte ct page (valid_update (\<lambda>_. valid e)) s) (\<lambda>s.
      if valid e
      then rbind (rd_pte s pt page) (\<lambda>e.
           rbind (wr_pte ct page (\<lambda>c. c\<lparr>uprot := uprot e, kprot := kprot e\<rparr>) s) (\<lambda>s.
           rbind (findFreePage s) (\<lambda>(s, f).
           rbind (wr_pte ct page (pfn_update (\<lambda>_. c_pfn f)) s) (\<lambda>s.
           rbind (wr_r1 temp_vpn (pfn_update (\<lambda>_. c_pfn f)) s) (\<lambda>s.
           rbind (copy_page M (r1_addr M temp_vpn) addr s) (\<lambda>s.
           Inr (WriteRegister (REG_TLB_FLUSH (TLB_FLUSH_ADDR (of_nat (r1_addr M temp_vpn)))) s)))))))
      else Inr s)))"

definition SwitchFork :: "machine \<Rightarrow> ptr \<Rightarrow> ptr \<Rightarrow> kstate \<Rightarrow> (kstate \<times> ptr) res" where
  "SwitchFork M p1 p2 s =
     rbind (rd_pcb s p1) (\<lambda>parent.
     rbind (wr_pcb p2 (ctx_update (\<lambda>_. ctx parent)) s) (\<lambda>s.
     rbind (rd_pcb s p2) (\<lambda>child.
     rbind (BorrowR1Page M s) (\<lambda>temp_vpn.
     rbind (rd_r1 s temp_vpn) (\<lambda>temp_copy.
     rbind (wr_r1 temp_vpn (\<lambda>t. t\<lparr>uprot := PROT_NONE, kprot := {PROT_READ, PROT_WRITE}, valid := True\<rparr>) s) (\<lambda>s.
     rbind (fold_res (fork_page M (region0 parent) (region0 child) temp_vpn)
              (addrs (PAGESIZE M) (VMEM_0_BASE M) (VMEM_0_LIMIT M)) s) (\<lambda>s.
     rbind (wr_r1 temp_vpn (\<lambda>_. temp_copy) s) (\<lambda>s.
     rbind (set_freePages (temp_vpn + int (PAGE_TABLE_LEN M)) PAGE_FREE s) (\<lambda>s.
     let s = (WriteRegister (REG_TLB_FLUSH TLB_FLUSH_1) s)\<lparr>curr_proc := p2\<rparr> in
     let s = WriteRegister (REG_PTR0 (PT_R1 (unat (free_vpn child)))) s in
     let s = WriteRegister (REG_TLB_FLUSH TLB_FLUSH_0) s in
     rbind (PushProcToQueue M p1 s) (\<lambda>s. Inr (s, p2)))))))))))"

definition SwitchExist :: "ptr \<Rightarrow> ptr \<Rightarrow> kstate \<Rightarrow> (kstate \<times> ptr) res" where
  "SwitchExist p1 p2 s =
     rbind (rd_pcb s p1) (\<lambda>_.
     rbind (rd_pcb s p2) (\<lambda>proc2.
     let s = WriteRegister (REG_TLB_FLUSH TLB_FLUSH_0) s in
     let s = (WriteRegister (REG_PTR0 (region0 proc2)) s)\<lparr>curr_proc := p2\<rparr> in
     Inr (WriteRegister (REG_TLB_FLUSH TLB_FLUSH_ALL) s, p2)))"

text \<open>
  \<open>SwitchExit\<close> clears the valid bit of a local copy of each entry, so the table keeps its entries.
\<close>

definition exit_page :: "ptref \<Rightarrow> nat \<Rightarrow> kstate \<Rightarrow> kstate res" where
  "exit_page t page s =
     rbind (rd_pte s t (int page)) (\<lambda>curr_pte.
     if valid curr_pte then freePage (uint (pfn curr_pte)) s else Inr s)"

definition SwitchExit :: "machine \<Rightarrow> ptr \<Rightarrow> ptr \<Rightarrow> kstate \<Rightarrow> (kstate \<times> ptr) res" where
  "SwitchExit M p1 p2 s =
     rbind (rd_pcb s p1) (\<lambda>proc1.
     rbind (rd_pcb s p2) (\<lambda>proc2.
     rbind (fold_res (\<lambda>vpn. exit_page (region0 proc1) (vpn div PAGESIZE M))
       (addrs (PAGESIZE M) (VMEM_0_BASE M) (VMEM_0_LIMIT M)) s) (\<lambda>s.
     let s = WriteRegister (REG_TLB_FLUSH TLB_FLUSH_0) s in
     let s = (WriteRegister (REG_PTR0 (region0 proc2)) s)\<lparr>curr_proc := p2\<rparr> in
     Inr (WriteRegister (REG_TLB_FLUSH TLB_FLUSH_ALL) s, p2))))"

section \<open>Control flow across a switch\<close>

datatype switch_fn = SWITCH_NEW_PROC | SWITCH_FORK | SWITCH_EXIST | SWITCH_EXIT

text \<open>
  How a kernel function ends: it returns a value, it calls \<open>ContextSwitch\<close> (with the switch function,
  the two processes, and the context that is saved, that is, what is left to do when the caller
  runs again), it spins forever, or it halts the machine.
\<close>

datatype 'r flow = Ret 'r | Call_ContextSwitch switch_fn ptr ptr kctx | Spin | Halted

primrec run_switch :: "machine \<Rightarrow> switch_fn \<Rightarrow> ptr \<Rightarrow> ptr \<Rightarrow> kstate \<Rightarrow> (kstate \<times> ptr) res" where
  "run_switch M SWITCH_NEW_PROC = SwitchNewProc M"
| "run_switch M SWITCH_FORK = SwitchFork M"
| "run_switch M SWITCH_EXIST = SwitchExist"
| "run_switch M SWITCH_EXIT = SwitchExit M"

text \<open>
  The hardware operation \<open>ContextSwitch(func, &p1->ctx, p1, p2)\<close>: the current context is stored in
  \<open>p1->ctx\<close>, \<open>func\<close> runs, and the context it points to is resumed.
\<close>

definition ContextSwitch :: "machine \<Rightarrow> switch_fn \<Rightarrow> ptr \<Rightarrow> ptr \<Rightarrow> kctx \<Rightarrow> kstate \<Rightarrow> (kstate \<times> kctx) res" where
  "ContextSwitch M f p1 p2 k s =
     rbind (wr_pcb p1 (ctx_update (\<lambda>_. k)) s) (\<lambda>s.
     rbind (run_switch M f p1 p2 s) (\<lambda>(s, p).
     rbind (rd_pcb s p) (\<lambda>q. Inr (s, ctx q))))"

section \<open>Leaving an exited process\<close>

lemma region0_addrs: "hw_layout M \<Longrightarrow> addrs (PAGESIZE M) (VMEM_0_BASE M) (VMEM_0_LIMIT M) = map (\<lambda>i. i * PAGESIZE M) [0..<PAGE_TABLE_LEN M]"
  using addrs_pages [of "PAGESIZE M" 0 "PAGE_TABLE_LEN M"] by (simp add: hw_layout_def)

lemma exit_pages:
  assumes "tbl_len t n s" "k \<le> n" "\<forall>f\<in>owned_frames t k s. f < length (freePages s)"
  shows "\<exists>s'. fold_res (exit_page t) [0..<k] s = Inr s' \<and> only_frames s s' \<and> length (freePages s') = length (freePages s) \<and>
    (\<forall>f. freePages s' ! f = (if f \<in> owned_frames t k s then PAGE_FREE else freePages s ! f))"
  using assms
proof (induction k)
  case 0
  then show ?case by (simp add: owned_frames_def only_frames_def)
next
  case (Suc k)
  then obtain u where u: "fold_res (exit_page t) [0..<k] s = Inr u" "only_frames s u" "length (freePages u) = length (freePages s)"
      "\<forall>f. freePages u ! f = (if f \<in> owned_frames t k s then PAGE_FREE else freePages s ! f)"
    by (auto simp: owned_frames_Suc)
  have tu: "tbl u t = tbl s t" by (rule only_frames_tbl [OF u(2)])
  obtain ps where ps: "tbl s t = Inr ps" "length ps = n" using Suc.prems(1) by (auto simp: tbl_len_def)
  with Suc.prems(2) have e: "entry t s k = Some (ps ! k)" and r: "rd_pte u t (int k) = Inr (ps ! k)"
    by (simp_all add: entry_def rd_pte_def tu)
  have o: "owned_frames t (Suc k) s = owned_frames t k s \<union> (if valid (ps ! k) then {unat (pfn (ps ! k))} else {})"
    by (auto simp: owned_frames_Suc e)
  have "valid (ps ! k) \<Longrightarrow> unat (pfn (ps ! k)) < length (freePages u)" using Suc.prems(3) u(3) o by auto
  then have "\<exists>s'. exit_page t k u = Inr s' \<and> only_frames u s' \<and> length (freePages s') = length (freePages u) \<and>
      (\<forall>f. freePages s' ! f = (if valid (ps ! k) \<and> f = unat (pfn (ps ! k)) then PAGE_FREE else freePages u ! f))"
    by (auto simp: exit_page_def r freePage_uint only_frames_def nth_list_update)
  then obtain s' where s': "exit_page t k u = Inr s'" "only_frames u s'" "length (freePages s') = length (freePages u)"
      "\<forall>f. freePages s' ! f = (if valid (ps ! k) \<and> f = unat (pfn (ps ! k)) then PAGE_FREE else freePages u ! f)"
    by blast
  have "only_frames s s'" by (rule only_frames_trans [OF u(2) s'(2)])
  with u s' show ?case by (auto simp: fold_res_append o)
qed

definition left_exited :: "nat \<Rightarrow> pcb \<Rightarrow> kstate \<Rightarrow> kstate" where
  "left_exited b y s = WriteRegister (REG_TLB_FLUSH TLB_FLUSH_ALL)
     ((WriteRegister (REG_PTR0 (region0 y)) (WriteRegister (REG_TLB_FLUSH TLB_FLUSH_0) s))\<lparr>curr_proc := Some b\<rparr>)"

lemma SwitchExit_ok:
  assumes "hw_layout M" "pcbs s a = Some x" "pcbs s b = Some y" "tbl_len (region0 x) (PAGE_TABLE_LEN M) s"
    "\<forall>f\<in>owned_frames (region0 x) (PAGE_TABLE_LEN M) s. f < length (freePages s)"
  shows "\<exists>u. SwitchExit M (Some a) (Some b) s = Inr (left_exited b y u, Some b) \<and> only_frames s u \<and>
    length (freePages u) = length (freePages s) \<and>
    (\<forall>f. freePages u ! f = (if f \<in> owned_frames (region0 x) (PAGE_TABLE_LEN M) s then PAGE_FREE else freePages s ! f))"
proof -
  obtain u where u: "fold_res (exit_page (region0 x)) [0..<PAGE_TABLE_LEN M] s = Inr u" "only_frames s u"
      "length (freePages u) = length (freePages s)"
      "\<forall>f. freePages u ! f = (if f \<in> owned_frames (region0 x) (PAGE_TABLE_LEN M) s then PAGE_FREE else freePages s ! f)"
    using exit_pages [OF assms(4) order_refl assms(5)] by blast
  then have "SwitchExit M (Some a) (Some b) s = Inr (left_exited b y u, Some b)"
    using assms(2,3) by (simp add: SwitchExit_def region0_addrs [OF assms(1)] fold_res_map left_exited_def)
  with u show ?thesis by blast
qed

lemma left_exited_simps [simp]:
  "curr_proc (left_exited b y s) = Some b" "reg_ptr0 (left_exited b y s) = region0 y" "pcbs (left_exited b y s) = pcbs s"
  "freePages (left_exited b y s) = freePages s" "region1Pt (left_exited b y s) = region1Pt s"
  "tbl (left_exited b y s) t = tbl s t"
  by (simp_all add: left_exited_def) (simp_all add: WriteRegister_def)

text \<open>C27: leaving an exited process. \<open>SwitchExit\<close> marks exactly the frames that the valid entries of the
  exiting process refer to - the kernel stack included - as free, makes the other process current,
  loads its page table and resumes its context. The entries themselves stay valid: the table of the
  dead process still refers to the frames it has given up.\<close>

theorem SwitchExit_releases_frames:
  assumes "hw_layout M" "pcbs s a = Some x" "pcbs s b = Some y" "tbl_len (region0 x) (PAGE_TABLE_LEN M) s"
    "\<forall>f\<in>owned_frames (region0 x) (PAGE_TABLE_LEN M) s. f < length (freePages s)"
  shows "\<exists>s'. SwitchExit M (Some a) (Some b) s = Inr (s', Some b) \<and>
    curr_proc s' = Some b \<and> reg_ptr0 s' = region0 y \<and> pcbs s' = pcbs s \<and>
    entry (region0 x) s' = entry (region0 x) s \<and>
    (\<forall>f. freePages s' ! f = (if f \<in> owned_frames (region0 x) (PAGE_TABLE_LEN M) s then PAGE_FREE else freePages s ! f))"
proof -
  obtain u where u: "SwitchExit M (Some a) (Some b) s = Inr (left_exited b y u, Some b)" "only_frames s u"
      "\<forall>f. freePages u ! f = (if f \<in> owned_frames (region0 x) (PAGE_TABLE_LEN M) s then PAGE_FREE else freePages s ! f)"
    using SwitchExit_ok [OF assms] by blast
  with only_frames_tbl [OF u(2)] only_mapsD(1) [OF only_frames_maps [OF u(2)]] show ?thesis
    by (simp add: entry_def fun_eq_iff)
qed

section \<open>Copying an address space\<close>

text \<open>
  The loop of \<open>SwitchFork\<close> reads the parent's table \<open>pt\<close>, through which Region 0 is translated, and
  writes the child's table \<open>ct\<close> and the borrowed entry \<open>k\<close> of Region 1.
\<close>

definition borrowed :: "machine \<Rightarrow> nat \<Rightarrow> kstate \<Rightarrow> bool" where
  "borrowed M k s \<longleftrightarrow> length (region1Pt s) = PAGE_TABLE_LEN M \<and> k < PAGE_TABLE_LEN M \<and>
     valid (region1Pt s ! k) \<and> PROT_WRITE \<in> kprot (region1Pt s ! k)"

lemma hw_pte_region0:
  assumes "hw_layout M" "i < PAGE_TABLE_LEN M"
  shows "hw_pte M s (i * PAGESIZE M) = aget (hw_table s (reg_ptr0 s)) (int i)"
  using assms by (simp add: hw_pte_def hw_layout_def)

lemma hw_pte_borrowed:
  assumes "hw_layout M" "borrowed M k s"
  shows "hw_pte M s (r1_addr M (int k)) = Inr (region1Pt s ! k)"
proof -
  have "r1_addr M (int k) = (k + PAGE_TABLE_LEN M) * PAGESIZE M" by (simp add: r1_addr_def nat_add_distrib)
  then show ?thesis using assms by (simp add: hw_pte_def hw_layout_def borrowed_def)
qed

lemma tbl_put_other: "ct \<noteq> pt \<Longrightarrow> tbl (put_tbl ct cs s) pt = tbl s pt"
  by (auto simp: tbl_def put_tbl_def split: ptref.splits)

lemma put_tbl_twice [simp]: "put_tbl t ps (put_tbl t qs s) = put_tbl t ps s"
  by (simp add: put_tbl_def split: ptref.split)

lemma findFreePage_put_tbl:
  assumes "frames_wf s" "free_list s = f # rest"
  shows "findFreePage (put_tbl t ps s) = Inr (put_tbl t ps (take_frame f s), int f)"
proof -
  have "frames_wf (put_tbl t ps s)" "free_list (put_tbl t ps s) = f # rest" using assms by simp_all
  moreover have "take_frame f (put_tbl t ps s) = put_tbl t ps (take_frame f s)"
    by (simp add: take_frame_def put_tbl_def split: ptref.split)
  ultimately show ?thesis by (simp add: findFreePage_eq)
qed

definition forked :: "ptref \<Rightarrow> pte list \<Rightarrow> nat \<Rightarrow> nat \<Rightarrow> pte \<Rightarrow> kstate \<Rightarrow> kstate" where
  "forked ct cs k f e s =
     (put_tbl ct cs (take_frame f s))\<lparr>region1Pt := (region1Pt s)[k := (region1Pt s ! k)\<lparr>pfn := c_pfn (int f)\<rparr>],
        frames := (frames s)(unat (c_pfn (int f)) := frames s (unat (pfn e)))\<rparr>"

lemma fork_page_invalid:
  assumes "tbl s pt = Inr ps" "i < length ps" "\<not> valid (ps ! i)" "tbl s ct = Inr cs" "i < length cs"
  shows "fork_page M pt ct (int k) (i * PAGESIZE M) s = Inr (put_tbl ct (cs[i := (cs ! i)\<lparr>valid := False\<rparr>]) s)"
  using assms by (simp add: fork_page_def rd_pte_def wr_pte_def Let_def)

lemma fork_page_valid:
  assumes "hw_layout M" "frames_wf s" "free_list s = f # rest" "tbl s pt = Inr ps" "i < length ps" "i < PAGE_TABLE_LEN M"
    "valid (ps ! i)" "PROT_READ \<in> kprot (ps ! i)" "tbl s ct = Inr cs" "i < length cs" "ct \<noteq> pt" "reg_ptr0 s = pt"
    "borrowed M k s"
  shows "fork_page M pt ct (int k) (i * PAGESIZE M) s =
    Inr (WriteRegister (REG_TLB_FLUSH (TLB_FLUSH_ADDR (of_nat (r1_addr M (int k)))))
      (forked ct (cs[i := (ps ! i)\<lparr>pfn := c_pfn (int f)\<rparr>]) k f (ps ! i) s))"
proof -
  define e where "e = ps ! i"
  define c0 where "c0 = put_tbl ct (cs[i := (cs ! i)\<lparr>valid := True\<rparr>]) s"
  define c1 where "c1 = put_tbl ct (cs[i := (cs ! i)\<lparr>valid := True, uprot := uprot e, kprot := kprot e\<rparr>]) s"
  define c2 where "c2 = put_tbl ct (cs[i := e\<lparr>pfn := c_pfn (int f)\<rparr>]) (take_frame f s)"
  define c3 where "c3 = c2\<lparr>region1Pt := (region1Pt s)[k := (region1Pt s ! k)\<lparr>pfn := c_pfn (int f)\<rparr>]\<rparr>"
  have e: "valid e" "PROT_READ \<in> kprot e" using assms(7,8) by (simp_all add: e_def)
  have upd: "c\<lparr>valid := True, uprot := uprot e, kprot := kprot e, pfn := w\<rparr> = e\<lparr>pfn := w\<rparr>" for c w
    using e by (intro pte.equality) simp_all
  have k: "k < length (region1Pt s)" using assms(13) by (simp add: borrowed_def)
  have t: "tbl (c2\<lparr>region1Pt := (region1Pt s)[k := (region1Pt s ! k)\<lparr>pfn := c_pfn (int f)\<rparr>]\<rparr>) pt = Inr ps"
    using assms(4,11) k by (auto simp: c2_def tbl_def put_tbl_def take_frame_def nth_list_update split: ptref.splits if_splits)
  have r: "rd_pte s pt (int i) = Inr e" "rd_pte c0 pt (int i) = Inr e"
    using assms(4,5,11) by (simp_all add: rd_pte_def c0_def tbl_put_other e_def)
  have w: "wr_pte ct (int i) (valid_update (\<lambda>_. True)) s = Inr c0"
    "wr_pte ct (int i) (\<lambda>c. c\<lparr>uprot := uprot e, kprot := kprot e\<rparr>) c0 = Inr c1"
    using assms(9,10) by (simp_all add: wr_pte_def c0_def c1_def)
  have ff: "findFreePage c1 = Inr (put_tbl ct (cs[i := (cs ! i)\<lparr>valid := True, uprot := uprot e, kprot := kprot e\<rparr>]) (take_frame f s), int f)"
    unfolding c1_def by (rule findFreePage_put_tbl [OF assms(2,3)])
  have w2: "wr_pte ct (int i) (pfn_update (\<lambda>_. c_pfn (int f)))
      (put_tbl ct (cs[i := (cs ! i)\<lparr>valid := True, uprot := uprot e, kprot := kprot e\<rparr>]) (take_frame f s)) = Inr c2"
    using assms(9,10) upd by (simp add: wr_pte_def c2_def)
  have r1: "region1Pt c2 = region1Pt s" "reg_ptr0 c3 = pt" "frames c3 = frames s"
    using assms(12) by (simp_all add: c2_def c3_def take_frame_def put_tbl_def split: ptref.split)
  then have w3: "wr_r1 (int k) (pfn_update (\<lambda>_. c_pfn (int f))) c2 = Inr c3"
    using k by (simp add: wr_r1_def c3_def)
  have b: "borrowed M k c3" using assms(13) k by (simp add: borrowed_def c3_def)
  have "region1Pt c3 ! k = (region1Pt s ! k)\<lparr>pfn := c_pfn (int f)\<rparr>" using k by (simp add: c3_def)
  then have cp: "copy_page M (r1_addr M (int k)) (i * PAGESIZE M) c3 =
      Inr (c3\<lparr>frames := (frames s)(unat (c_pfn (int f)) := frames s (unat (pfn e)))\<rparr>)"
    using b hw_pte_borrowed [OF assms(1) b] hw_pte_region0 [OF assms(1,6)] t assms(5) e r1
    by (simp add: copy_page_def hw_table_tbl c3_def borrowed_def flip: e_def)
  show ?thesis unfolding fork_page_def Let_def e_def [symmetric]
    using r w ff w2 w3 cp e(1) by (simp add: forked_def c3_def c2_def)
qed

lemma only_mem_put [simp]: "only_mem s (put_tbl t ps s)"
  by (simp add: only_mem_def put_tbl_def split: ptref.split)

lemma only_mem_forked [simp]: "only_mem s (WriteRegister (REG_TLB_FLUSH x) (forked ct cs k f e s))"
  by (simp add: only_mem_def forked_def put_tbl_def WriteRegister_def take_frame_def split: ptref.split)

text \<open>
  The state of the loop after the first \<open>n\<close> pages: the child has for every valid page of the parent
  the next free frame, with the parent's contents and protection.
\<close>

definition rank :: "pte list \<Rightarrow> nat \<Rightarrow> nat" where
  "rank ps i = length (filter valid (take i ps))"

definition fork_inv :: "machine \<Rightarrow> ptref \<Rightarrow> ptref \<Rightarrow> nat \<Rightarrow> pte list \<Rightarrow> pte list \<Rightarrow> kstate \<Rightarrow> nat \<Rightarrow> kstate \<Rightarrow> bool" where
  "fork_inv M pt ct k ps cs s n s' \<longleftrightarrow>
     tbl s' pt = Inr ps \<and> frames_wf s' \<and> free_list s' = drop (rank ps n) (free_list s) \<and>
     reg_ptr0 s' = pt \<and> borrowed M k s' \<and> only_mem s s' \<and> (region1Pt s')[k := region1Pt s ! k] = region1Pt s \<and>
     (\<exists>cs'. tbl s' ct = Inr cs' \<and> length cs' = length cs \<and>
       (\<forall>i<length cs. cs' ! i = (if n \<le> i then cs ! i
          else if valid (ps ! i) then (ps ! i)\<lparr>pfn := c_pfn (int (free_list s ! rank ps i))\<rparr>
          else (cs ! i)\<lparr>valid := False\<rparr>))) \<and>
     (\<forall>f. f \<notin> set (take (rank ps n) (free_list s)) \<longrightarrow> frames s' f = frames s f) \<and>
     (\<forall>i<n. valid (ps ! i) \<longrightarrow> frames s' (free_list s ! rank ps i) = frames s (unat (pfn (ps ! i))))"

lemma rank_Suc: "n < length ps \<Longrightarrow> rank ps (Suc n) = rank ps n + (if valid (ps ! n) then 1 else 0)"
  by (simp add: rank_def take_Suc_conv_app_nth)

lemma rank_mono: "i \<le> n \<Longrightarrow> rank ps i \<le> rank ps n"
  unfolding rank_def by (metis filter_append le_add1 le_add_diff_inverse length_append take_add)

lemma rank_less: "i < n \<Longrightarrow> n \<le> length ps \<Longrightarrow> valid (ps ! i) \<Longrightarrow> rank ps i < rank ps n"
  using rank_mono [of "Suc i" n ps] by (simp add: rank_Suc)

lemma frame_word: "f < 2 ^ 20 \<Longrightarrow> unat (c_pfn (int f)) = f"
  by (simp add: unat_of_nat take_bit_nat_eq_self)

lemma forked_frame:
  assumes "frames_wf s" "free_list s = f # rest" "ct \<noteq> pt" "tbl s ct = Inr cs" "k < length (region1Pt s)" "f < 2 ^ 20"
  shows "free_list (forked ct cs' k f e s) = rest" "frames_wf (forked ct cs' k f e s)"
    "tbl (forked ct cs' k f e s) ct = Inr cs'" "tbl (forked ct cs' k f e s) pt = tbl s pt"
    "reg_ptr0 (forked ct cs' k f e s) = reg_ptr0 s"
    "region1Pt (forked ct cs' k f e s) = (region1Pt s)[k := (region1Pt s ! k)\<lparr>pfn := c_pfn (int f)\<rparr>]"
    "frames (forked ct cs' k f e s) = (frames s)(f := frames s (unat (pfn e)))"
proof -
  have fl: "free_list (t\<lparr>region1Pt := r, frames := g\<rparr>) = free_list t" "frames_wf (t\<lparr>region1Pt := r, frames := g\<rparr>) = frames_wf t" for t r g
    by (simp_all add: free_list_def frames_wf_def)
  show "free_list (forked ct cs' k f e s) = rest" "frames_wf (forked ct cs' k f e s)"
    using free_list_take_frame [OF assms(1,2)] assms(1) by (simp_all only: forked_def fl put_tbl_frame take_frame_wf)
  show "tbl (forked ct cs' k f e s) ct = Inr cs'" "tbl (forked ct cs' k f e s) pt = tbl s pt"
    using assms(3,4,5)
    by (auto simp: forked_def tbl_def put_tbl_def take_frame_def nth_list_update split: ptref.splits if_splits)
  show "reg_ptr0 (forked ct cs' k f e s) = reg_ptr0 s"
    "region1Pt (forked ct cs' k f e s) = (region1Pt s)[k := (region1Pt s ! k)\<lparr>pfn := c_pfn (int f)\<rparr>]"
    "frames (forked ct cs' k f e s) = (frames s)(f := frames s (unat (pfn e)))"
    using frame_word [OF assms(6)] by (simp_all add: forked_def take_frame_def put_tbl_def split: ptref.split)
qed

lemma fork_step_invalid:
  assumes "fork_inv M pt ct k ps cs s n s'" "n < length ps" "length cs = length ps" "\<not> valid (ps ! n)" "ct \<noteq> pt"
  shows "\<exists>u. fork_page M pt ct (int k) (n * PAGESIZE M) s' = Inr u \<and> fork_inv M pt ct k ps cs s (Suc n) u"
proof -
  obtain cs' where c: "tbl s' ct = Inr cs'" "length cs' = length cs"
      "\<forall>i<length cs. cs' ! i = (if n \<le> i then cs ! i
          else if valid (ps ! i) then (ps ! i)\<lparr>pfn := c_pfn (int (free_list s ! rank ps i))\<rparr> else (cs ! i)\<lparr>valid := False\<rparr>)"
    using assms(1) by (auto simp: fork_inv_def)
  let ?u = "put_tbl ct (cs'[n := (cs' ! n)\<lparr>valid := False\<rparr>]) s'"
  have "only_mem s ?u" using only_mem_trans [OF _ only_mem_put] assms(1) by (simp add: fork_inv_def)
  moreover have "reg_ptr0 ?u = reg_ptr0 s'" "region1Pt ?u = region1Pt s'" "frames ?u = frames s'"
    by (simp_all add: put_tbl_def split: ptref.split)
  moreover have "rank ps (Suc n) = rank ps n" using assms(2,4) by (simp add: rank_Suc)
  ultimately have "fork_inv M pt ct k ps cs s (Suc n) ?u"
    using assms c by (auto simp: fork_inv_def borrowed_def tbl_put_other nth_list_update less_Suc_eq)
  moreover have "tbl s' pt = Inr ps" using assms(1) by (simp add: fork_inv_def)
  ultimately show ?thesis using fork_page_invalid [OF _ assms(2,4) c(1), of pt M k] assms(2,3) c(2) by simp
qed

lemma fork_step_valid:
  assumes "fork_inv M pt ct k ps cs s n s'" "n < length ps" "length cs = length ps" "valid (ps ! n)" "ct \<noteq> pt"
    "hw_layout M" "length ps = PAGE_TABLE_LEN M" "PROT_READ \<in> kprot (ps ! n)"
    "rank ps (length ps) \<le> length (free_list s)" "unat (pfn (ps ! n)) \<notin> set (free_list s)" "num_pages s \<le> 2 ^ 20"
  shows "\<exists>u. fork_page M pt ct (int k) (n * PAGESIZE M) s' = Inr u \<and> fork_inv M pt ct k ps cs s (Suc n) u"
proof -
  have i: "tbl s' pt = Inr ps" "frames_wf s'" "free_list s' = drop (rank ps n) (free_list s)" "reg_ptr0 s' = pt"
      "borrowed M k s'" "only_mem s s'" "(region1Pt s')[k := region1Pt s ! k] = region1Pt s"
      "\<forall>f. f \<notin> set (take (rank ps n) (free_list s)) \<longrightarrow> frames s' f = frames s f"
      "\<forall>i<n. valid (ps ! i) \<longrightarrow> frames s' (free_list s ! rank ps i) = frames s (unat (pfn (ps ! i)))"
    using assms(1) by (simp_all add: fork_inv_def)
  obtain cs' where c: "tbl s' ct = Inr cs'" "length cs' = length cs"
      "\<forall>i<length cs. cs' ! i = (if n \<le> i then cs ! i
          else if valid (ps ! i) then (ps ! i)\<lparr>pfn := c_pfn (int (free_list s ! rank ps i))\<rparr> else (cs ! i)\<lparr>valid := False\<rparr>)"
    using assms(1) by (auto simp: fork_inv_def)
  define f where "f = free_list s ! rank ps n"
  have lt: "rank ps n < length (free_list s)" using rank_less [OF assms(2) order_refl assms(4)] assms(9) by simp
  then have fl: "free_list s' = f # drop (Suc (rank ps n)) (free_list s)" by (simp add: i(3) f_def Cons_nth_drop_Suc)
  have "f \<in> set (free_list s)" using lt by (simp add: f_def)
  then have f: "f < 2 ^ 20" using assms(11) by (simp add: set_free_list)
  have old: "frames s' (unat (pfn (ps ! n))) = frames s (unat (pfn (ps ! n)))" using i(8) assms(10) by (meson in_set_takeD)
  have k: "k < length (region1Pt s')" using i(5) by (simp add: borrowed_def)
  let ?cs = "cs'[n := (ps ! n)\<lparr>pfn := c_pfn (int f)\<rparr>]"
  let ?v = "forked ct ?cs k f (ps ! n) s'" and ?w = "REG_TLB_FLUSH (TLB_FLUSH_ADDR (of_nat (r1_addr M (int k))))"
  let ?u = "WriteRegister ?w ?v"
  note fr = forked_frame [OF i(2) fl assms(5) c(1) k f, of ?cs "ps ! n"]
  have wr: "region1Pt ?u = region1Pt ?v" "frames ?u = frames ?v" "reg_ptr0 ?u = reg_ptr0 ?v" "frames_wf ?u = frames_wf ?v"
    by (simp_all add: WriteRegister_def frames_wf_def)
  have fu: "frames ?u = (frames s')(f := frames s' (unat (pfn (ps ! n))))" by (simp only: wr fr(7))
  have rk: "rank ps (Suc n) = Suc (rank ps n)" using assms(2,4) by (simp add: rank_Suc)
  have "free_list s ! rank ps j \<noteq> f" if "j < n" "valid (ps ! j)" for j
    using rank_less [of j n ps] that assms(2) lt nth_eq_iff_index_eq [OF distinct_free_list, of "rank ps j" s "rank ps n"] by (simp add: f_def)
  then have copies: "\<forall>j<Suc n. valid (ps ! j) \<longrightarrow> frames ?u (free_list s ! rank ps j) = frames s (unat (pfn (ps ! j)))"
    unfolding fu using i(9) old by (auto simp: less_Suc_eq f_def)
  have rest: "\<forall>g. g \<notin> set (take (rank ps (Suc n)) (free_list s)) \<longrightarrow> frames ?u g = frames s g"
    unfolding fu using i(8) lt by (simp add: rk take_Suc_conv_app_nth flip: f_def)
  have child: "\<forall>j<length cs. ?cs ! j = (if Suc n \<le> j then cs ! j
      else if valid (ps ! j) then (ps ! j)\<lparr>pfn := c_pfn (int (free_list s ! rank ps j))\<rparr> else (cs ! j)\<lparr>valid := False\<rparr>)"
    using c(2,3) assms(2,3,4) by (auto simp: nth_list_update f_def Suc_le_eq not_less)
  have "fork_inv M pt ct k ps cs s (Suc n) ?u"
    unfolding fork_inv_def
    using fr(1-6) i(1,4,5,7) child copies rest wr c(2) k only_mem_trans [OF i(6) only_mem_forked]
    by (auto simp: rk borrowed_def)
  moreover have "fork_page M pt ct (int k) (n * PAGESIZE M) s' = Inr ?u"
    using fork_page_valid [OF assms(6) i(2) fl i(1) assms(2) _ assms(4,8) c(1) _ assms(5) i(4,5)] assms(2,3,7) c(2) by simp
  ultimately show ?thesis by blast
qed

lemma fork_pages:
  assumes "fork_inv M pt ct k ps cs s 0 s" "length cs = length ps" "ct \<noteq> pt" "hw_layout M" "length ps = PAGE_TABLE_LEN M"
    "\<forall>e\<in>set ps. valid e \<longrightarrow> PROT_READ \<in> kprot e \<and> unat (pfn e) \<notin> set (free_list s)"
    "length (filter valid ps) \<le> length (free_list s)" "num_pages s \<le> 2 ^ 20" "n \<le> length ps"
  shows "\<exists>s'. fold_res (fork_page M pt ct (int k)) (map (\<lambda>i. i * PAGESIZE M) [0..<n]) s = Inr s' \<and> fork_inv M pt ct k ps cs s n s'"
  using assms(9)
proof (induction n)
  case 0
  then show ?case using assms(1) by simp
next
  case (Suc n)
  then obtain s' where s': "fold_res (fork_page M pt ct (int k)) (map (\<lambda>i. i * PAGESIZE M) [0..<n]) s = Inr s'"
      "fork_inv M pt ct k ps cs s n s'" by auto
  have n: "n < length ps" "ps ! n \<in> set ps" using Suc.prems by simp_all
  have "\<exists>u. fork_page M pt ct (int k) (n * PAGESIZE M) s' = Inr u \<and> fork_inv M pt ct k ps cs s (Suc n) u"
  proof (cases "valid (ps ! n)")
    case True
    with assms(6) n(2) have "PROT_READ \<in> kprot (ps ! n)" "unat (pfn (ps ! n)) \<notin> set (free_list s)" by auto
    with fork_step_valid [OF s'(2) n(1) assms(2) True assms(3-5)] assms(7,8) show ?thesis by (simp add: rank_def)
  next
    case False
    with fork_step_invalid [OF s'(2) n(1) assms(2) _ assms(3)] show ?thesis by simp
  qed
  then show ?case using s'(1) by (auto simp: fold_res_append)
qed

lemma BorrowR1Page_loop_Ok:
  assumes "BorrowR1Page_loop M (map (\<lambda>i. (i + PAGE_TABLE_LEN M) * PAGESIZE M) vs) s = Inr p" "0 \<le> p"
  shows "\<exists>k\<in>set vs. p = int k \<and> k < length (region1Pt s) \<and> \<not> valid (region1Pt s ! k)"
  using assms by (induction vs) (auto simp: Let_def rd_r1_def aget_Ok_iff rbind_eq_Ok_iff split: if_splits)

lemma BorrowR1Page_Ok:
  assumes "BorrowR1Page M s = Inr (int k)" "hw_layout M"
  shows "k < PAGE_TABLE_LEN M" "k < length (region1Pt s)" "\<not> valid (region1Pt s ! k)"
proof -
  have "[PAGE_TABLE_LEN M..<2 * PAGE_TABLE_LEN M] = map (\<lambda>i. i + PAGE_TABLE_LEN M) [0..<PAGE_TABLE_LEN M]"
    by (simp add: map_add_upt mult_2)
  moreover have "addrs (PAGESIZE M) (VMEM_1_BASE M) (VMEM_1_LIMIT M) = map (\<lambda>i. i * PAGESIZE M) [PAGE_TABLE_LEN M..<2 * PAGE_TABLE_LEN M]"
    using assms(2) addrs_pages [of "PAGESIZE M" "PAGE_TABLE_LEN M" "2 * PAGE_TABLE_LEN M"] by (simp add: hw_layout_def)
  ultimately have "BorrowR1Page_loop M (map (\<lambda>i. (i + PAGE_TABLE_LEN M) * PAGESIZE M) [0..<PAGE_TABLE_LEN M]) s = Inr (int k)"
    using assms(1) by (simp add: BorrowR1Page_def comp_def)
  from BorrowR1Page_loop_Ok [OF this] show "k < PAGE_TABLE_LEN M" "k < length (region1Pt s)" "\<not> valid (region1Pt s ! k)"
    by auto
qed

text \<open>Once Region 1 is as it was, the tables in it can be reached as before.\<close>

lemma tbl_restored:
  assumes "tbl s t = Inr ps" "tbl u t = Inr qs" "region1Pt w = region1Pt s" "region0Pt w = region0Pt u" "r1_tables w = r1_tables u"
  shows "tbl w t = Inr qs"
  using assms by (auto simp: tbl_def split: ptref.splits if_splits)

lemma fork_start:
  assumes "hw_layout M" "frames_wf s" "reg_ptr0 s = pt" "tbl s pt = Inr ps" "tbl s ct = Inr cs" "k < PAGE_TABLE_LEN M"
    "\<not> valid (region1Pt s ! k)" "length (region1Pt s) = PAGE_TABLE_LEN M"
    "s2 = s\<lparr>pcbs := h, region1Pt := (region1Pt s)[k := (region1Pt s ! k)\<lparr>uprot := PROT_NONE, kprot := {PROT_READ, PROT_WRITE}, valid := True\<rparr>]\<rparr>"
  shows "fork_inv M pt ct k ps cs s2 0 s2" "free_list s2 = free_list s" "num_pages s2 = num_pages s"
proof -
  have t: "tbl s2 t = Inr qs" if "tbl s t = Inr qs" for t qs
    using that assms(6-9) by (auto simp: tbl_def nth_list_update split: ptref.splits if_splits)
  show "free_list s2 = free_list s" "num_pages s2 = num_pages s" by (simp_all add: assms(9) free_list_def)
  moreover have "only_mem s2 s2" by (simp add: only_mem_def)
  moreover have "borrowed M k s2" using assms(6,8,9) by (simp add: borrowed_def)
  moreover have "reg_ptr0 s2 = pt" "frames_wf s2" using assms(2,3,9) by (simp_all add: frames_wf_def)
  ultimately show "fork_inv M pt ct k ps cs s2 0 s2" using t assms(4,5) by (auto simp: fork_inv_def rank_def)
qed

lemma ready_repr_moved:
  assumes "ready_repr s ps" "items s' = items s" "queue_head s' = queue_head s" "queue_tail s' = queue_tail s"
    "queue_size s' = queue_size s" "is_pcb s' (curr_proc s')" "\<And>p. is_pcb s p \<Longrightarrow> is_pcb s' p" "heap_wf s'"
  shows "ready_repr s' ps"
proof -
  have "proc_of s' = proc_of s" using assms(2) by (simp add: proc_of_def fun_eq_iff)
  then show ?thesis using assms by (auto simp: ready_repr_def ready_procs_def ready_q_def)
qed

text \<open>The state of \<open>SwitchFork\<close> before it puts the parent into the ready queue.\<close>

definition fork_left :: "machine \<Rightarrow> nat \<Rightarrow> pte list \<Rightarrow> nat \<Rightarrow> pcb \<Rightarrow> kstate \<Rightarrow> kstate" where
  "fork_left M k r1 b y s =
     WriteRegister (REG_TLB_FLUSH TLB_FLUSH_0) (WriteRegister (REG_PTR0 (PT_R1 (unat (free_vpn y))))
       ((WriteRegister (REG_TLB_FLUSH TLB_FLUSH_1)
          (s\<lparr>region1Pt := r1, freePages := (freePages s)[k + PAGE_TABLE_LEN M := PAGE_FREE]\<rparr>))\<lparr>curr_proc := Some b\<rparr>))"

lemma fork_left_simps [simp]:
  "curr_proc (fork_left M k r1 b y s) = Some b" "reg_ptr0 (fork_left M k r1 b y s) = PT_R1 (unat (free_vpn y))"
  "pcbs (fork_left M k r1 b y s) = pcbs s" "items (fork_left M k r1 b y s) = items s"
  "queue_head (fork_left M k r1 b y s) = queue_head s" "queue_tail (fork_left M k r1 b y s) = queue_tail s"
  "queue_size (fork_left M k r1 b y s) = queue_size s" "region1Pt (fork_left M k r1 b y s) = r1"
  "region0Pt (fork_left M k r1 b y s) = region0Pt s" "r1_tables (fork_left M k r1 b y s) = r1_tables s"
  "frames (fork_left M k r1 b y s) = frames s" "heap_top (fork_left M k r1 b y s) = heap_top s"
  "exiteds (fork_left M k r1 b y s) = exiteds s" "lines (fork_left M k r1 b y s) = lines s"
  by (simp_all add: fork_left_def WriteRegister_def)

lemma fork_left_ready:
  assumes "ready_repr s qs" "pcbs u = (pcbs s)(b \<mapsto> z)" "items u = items s" "exiteds u = exiteds s" "lines u = lines s"
    "heap_top u = heap_top s" "queue_head u = queue_head s" "queue_tail u = queue_tail s" "queue_size u = queue_size s"
    "pcbs s b = Some y"
  shows "ready_repr (fork_left M k r1 b y u) qs"
proof (rule ready_repr_moved [OF assms(1)])
  have wf: "heap_wf s" using assms(1) by (simp add: ready_repr_def)
  moreover have "b < heap_top s" using wf assms(10) by (metis heap_wf_def not_less option.distinct(1))
  ultimately show "heap_wf (fork_left M k r1 b y u)" by (simp add: heap_wf_def assms(2-6))
qed (auto simp: is_pcb_def assms(2-9))

lemma BorrowR1Page_pcbs: "BorrowR1Page_loop M vs (s\<lparr>pcbs := h\<rparr>) = BorrowR1Page_loop M vs s"
  by (induction vs) (simp_all add: rd_r1_def Let_def cong: if_cong)

lemma SwitchFork_run:
  assumes "hw_layout M" "pcbs s a = Some x" "pcbs s b = Some y" "a \<noteq> b" "BorrowR1Page M s = Inr (int k)"
    "s2 = s\<lparr>pcbs := (pcbs s)(b \<mapsto> y\<lparr>ctx := ctx x\<rparr>), region1Pt := (region1Pt s)[k := (region1Pt s ! k)\<lparr>uprot := PROT_NONE, kprot := {PROT_READ, PROT_WRITE}, valid := True\<rparr>]\<rparr>"
    "fold_res (fork_page M (region0 x) (region0 y) (int k)) (map (\<lambda>i. i * PAGESIZE M) [0..<PAGE_TABLE_LEN M]) s2 = Inr s3"
    "(region1Pt s3)[k := region1Pt s2 ! k] = region1Pt s2" "k + PAGE_TABLE_LEN M < length (freePages s3)"
  shows "SwitchFork M (Some a) (Some b) s =
    rbind (PushProcToQueue M (Some a) (fork_left M k (region1Pt s) b y s3)) (\<lambda>s. Inr (s, Some b))"
proof -
  let ?h = "(pcbs s)(b \<mapsto> y\<lparr>ctx := ctx x\<rparr>)"
  note k = BorrowR1Page_Ok [OF assms(5,1)]
  have b: "BorrowR1Page M (s\<lparr>pcbs := ?h\<rparr>) = Inr (int k)"
    using assms(5) by (simp add: BorrowR1Page_def BorrowR1Page_pcbs)
  have w: "wr_r1 (int k) (\<lambda>t. t\<lparr>uprot := PROT_NONE, kprot := {PROT_READ, PROT_WRITE}, valid := True\<rparr>) (s\<lparr>pcbs := ?h\<rparr>) = Inr s2"
    using k(2) by (simp add: wr_r1_def assms(6))
  have l: "length (region1Pt s3) = length (region1Pt s)" using arg_cong [OF assms(8), of length] by (simp add: assms(6))
  have "(region1Pt s3)[k := region1Pt s ! k] = region1Pt s"
    using arg_cong [OF assms(8), of "\<lambda>r. r[k := region1Pt s ! k]"] by (simp add: assms(6))
  then have r: "wr_r1 (int k) (\<lambda>_. region1Pt s ! k) s3 = Inr (s3\<lparr>region1Pt := region1Pt s\<rparr>)"
    using k(2) l by (simp add: wr_r1_def)
  have f: "set_freePages (int k + int (PAGE_TABLE_LEN M)) PAGE_FREE (s3\<lparr>region1Pt := region1Pt s\<rparr>) =
      Inr (s3\<lparr>region1Pt := region1Pt s, freePages := (freePages s3)[k + PAGE_TABLE_LEN M := PAGE_FREE]\<rparr>)"
    using assms(9) by (simp add: set_freePages_def flip: of_nat_add)
  show ?thesis
    using assms(2-4) b w r f k(2) assms(7)
    by (simp add: SwitchFork_def rd_r1_def region0_addrs [OF assms(1)] fork_left_def Let_def)
qed

lemma SwitchFork_pages:
  assumes "hw_layout M" "region0 y \<noteq> region0 x" "reg_ptr0 s = region0 x"
    "tbl s (region0 x) = Inr ps" "tbl s (region0 y) = Inr cs" "length ps = PAGE_TABLE_LEN M" "length cs = PAGE_TABLE_LEN M"
    "length (region1Pt s) = PAGE_TABLE_LEN M" "BorrowR1Page M s = Inr (int k)"
    "frames_wf s" "num_pages s \<le> 2 ^ 20" "length (filter valid ps) \<le> length (free_list s)"
    "\<forall>e\<in>set ps. valid e \<longrightarrow> PROT_READ \<in> kprot e \<and> unat (pfn e) \<notin> set (free_list s)"
    "s2 = s\<lparr>pcbs := h, region1Pt := (region1Pt s)[k := (region1Pt s ! k)\<lparr>uprot := PROT_NONE, kprot := {PROT_READ, PROT_WRITE}, valid := True\<rparr>]\<rparr>"
  shows "\<exists>s3 cs'. fold_res (fork_page M (region0 x) (region0 y) (int k)) (map (\<lambda>i. i * PAGESIZE M) [0..<PAGE_TABLE_LEN M]) s2 = Inr s3 \<and>
    only_mem s2 s3 \<and> frames_wf s3 \<and> (region1Pt s3)[k := region1Pt s2 ! k] = region1Pt s2 \<and>
    tbl s3 (region0 x) = Inr ps \<and> tbl s3 (region0 y) = Inr cs' \<and> length cs' = PAGE_TABLE_LEN M \<and>
    free_list s3 = drop (length (filter valid ps)) (free_list s) \<and> (\<forall>f. f \<notin> set (free_list s) \<longrightarrow> frames s3 f = frames s f) \<and>
    (\<forall>i<PAGE_TABLE_LEN M. valid (cs' ! i) = valid (ps ! i) \<and> (valid (ps ! i) \<longrightarrow>
       uprot (cs' ! i) = uprot (ps ! i) \<and> kprot (cs' ! i) = kprot (ps ! i) \<and>
       unat (pfn (cs' ! i)) = free_list s ! rank ps i \<and>
       frames s3 (unat (pfn (cs' ! i))) = frames s (unat (pfn (ps ! i)))))"
proof -
  let ?L = "PAGE_TABLE_LEN M"
  note k = BorrowR1Page_Ok [OF assms(9,1)]
  note st = fork_start [OF assms(1,10,3-5) k(1,3) assms(8) assms(14)]
  obtain s3 where s3: "fold_res (fork_page M (region0 x) (region0 y) (int k)) (map (\<lambda>i. i * PAGESIZE M) [0..<?L]) s2 = Inr s3"
      "fork_inv M (region0 x) (region0 y) k ps cs s2 ?L s3"
    using fork_pages [OF st(1) _ assms(2,1,6), of ?L] assms(6,7,11,12,13) st(2,3) by auto
  obtain cs' where cs': "tbl s3 (region0 y) = Inr cs'" "length cs' = ?L" "\<forall>i<?L. cs' ! i = (if valid (ps ! i)
      then (ps ! i)\<lparr>pfn := c_pfn (int (free_list s ! rank ps i))\<rparr> else (cs ! i)\<lparr>valid := False\<rparr>)"
      "\<forall>i<?L. valid (ps ! i) \<longrightarrow> frames s3 (free_list s ! rank ps i) = frames s (unat (pfn (ps ! i)))"
    using s3(2) assms(7) st(2) by (auto simp: fork_inv_def assms(14))
  have "unat (pfn (cs' ! i)) = free_list s ! rank ps i" if "i < ?L" "valid (ps ! i)" for i
  proof -
    have "rank ps i < length (free_list s)" using rank_less [of i ?L ps] that assms(6,12) by (simp add: rank_def)
    then have "free_list s ! rank ps i < 2 ^ 20" using assms(11) set_free_list [of "free_list s ! rank ps i" s] by simp
    then show ?thesis using cs'(3) that frame_word by simp
  qed
  with cs'(3,4) have "\<forall>i<?L. valid (cs' ! i) = valid (ps ! i) \<and> (valid (ps ! i) \<longrightarrow>
       uprot (cs' ! i) = uprot (ps ! i) \<and> kprot (cs' ! i) = kprot (ps ! i) \<and>
       unat (pfn (cs' ! i)) = free_list s ! rank ps i \<and>
       frames s3 (unat (pfn (cs' ! i))) = frames s (unat (pfn (ps ! i))))"
    by simp
  moreover have "free_list s3 = drop (length (filter valid ps)) (free_list s)"
    using s3(2) st(2) assms(6) by (simp add: fork_inv_def rank_def)
  moreover have "\<forall>f. f \<notin> set (free_list s) \<longrightarrow> frames s3 f = frames s f"
    using s3(2) st(2) by (auto simp: fork_inv_def assms(14) dest: in_set_takeD)
  ultimately show ?thesis using s3 cs'(1,2) by (auto simp: fork_inv_def)
qed

lemma SwitchFork_ok:
  assumes "hw_layout M" "pcbs s a = Some x" "pcbs s b = Some y" "region0 y \<noteq> region0 x" "reg_ptr0 s = region0 x"
    "tbl s (region0 x) = Inr ps" "tbl s (region0 y) = Inr cs" "length ps = PAGE_TABLE_LEN M" "length cs = PAGE_TABLE_LEN M"
    "length (region1Pt s) = PAGE_TABLE_LEN M" "BorrowR1Page M s = Inr (int k)" "k + PAGE_TABLE_LEN M < length (freePages s)"
    "frames_wf s" "num_pages s \<le> 2 ^ 20" "length (filter valid ps) \<le> length (free_list s)"
    "\<forall>e\<in>set ps. valid e \<longrightarrow> PROT_READ \<in> kprot e \<and> unat (pfn e) \<notin> set (free_list s)" "ready_repr s qs"
  shows "\<exists>s' cs'. SwitchFork M (Some a) (Some b) s = Inr (s', Some b) \<and>
    curr_proc s' = Some b \<and> reg_ptr0 s' = PT_R1 (unat (free_vpn y)) \<and> pcbs s' = (pcbs s)(b \<mapsto> y\<lparr>ctx := ctx x\<rparr>) \<and>
    ready_repr s' (qs @ [Some a]) \<and> region1Pt s' = region1Pt s \<and> tbl s' (region0 x) = Inr ps \<and>
    tbl s' (region0 y) = Inr cs' \<and> length cs' = PAGE_TABLE_LEN M \<and>
    set (free_list s') \<subseteq> insert (k + PAGE_TABLE_LEN M) (set (drop (length (filter valid ps)) (free_list s))) \<and>
    (\<forall>f. f \<notin> set (free_list s) \<longrightarrow> frames s' f = frames s f) \<and>
    (\<forall>i<PAGE_TABLE_LEN M. valid (cs' ! i) = valid (ps ! i) \<and> (valid (ps ! i) \<longrightarrow>
       uprot (cs' ! i) = uprot (ps ! i) \<and> kprot (cs' ! i) = kprot (ps ! i) \<and>
       unat (pfn (cs' ! i)) = free_list s ! rank ps i \<and>
       frames s' (unat (pfn (cs' ! i))) = frames s (unat (pfn (ps ! i)))))"
proof -
  define h where "h = (pcbs s)(b \<mapsto> y\<lparr>ctx := ctx x\<rparr>)"
  define s2 where "s2 = s\<lparr>pcbs := h, region1Pt := (region1Pt s)[k := (region1Pt s ! k)\<lparr>uprot := PROT_NONE, kprot := {PROT_READ, PROT_WRITE}, valid := True\<rparr>]\<rparr>"
  obtain s3 cs' where s3:
      "fold_res (fork_page M (region0 x) (region0 y) (int k)) (map (\<lambda>i. i * PAGESIZE M) [0..<PAGE_TABLE_LEN M]) s2 = Inr s3"
      "only_mem s2 s3" "frames_wf s3" "(region1Pt s3)[k := region1Pt s2 ! k] = region1Pt s2"
      "tbl s3 (region0 x) = Inr ps" "tbl s3 (region0 y) = Inr cs'" "length cs' = PAGE_TABLE_LEN M"
      "free_list s3 = drop (length (filter valid ps)) (free_list s)" "\<forall>f. f \<notin> set (free_list s) \<longrightarrow> frames s3 f = frames s f"
    and pages: "\<forall>i<PAGE_TABLE_LEN M. valid (cs' ! i) = valid (ps ! i) \<and> (valid (ps ! i) \<longrightarrow>
       uprot (cs' ! i) = uprot (ps ! i) \<and> kprot (cs' ! i) = kprot (ps ! i) \<and>
       unat (pfn (cs' ! i)) = free_list s ! rank ps i \<and>
       frames s3 (unat (pfn (cs' ! i))) = frames s (unat (pfn (ps ! i))))"
    using SwitchFork_pages [OF assms(1,4-11,13-16) s2_def] by blast
  let ?t = "fork_left M k (region1Pt s) b y s3"
  have ab: "a \<noteq> b" using assms(2-4) by auto
  have "pcbs s2 = h" "items s2 = items s" "exiteds s2 = exiteds s" "lines s2 = lines s" "heap_top s2 = heap_top s"
      "queue_head s2 = queue_head s" "queue_tail s2 = queue_tail s" "queue_size s2 = queue_size s" "num_pages s2 = num_pages s"
    by (simp_all add: s2_def)
  note s3f = only_memD [OF s3(2), unfolded this]
  have len: "length (freePages s3) = length (freePages s)"
    using s3(3) assms(13) s3f(9) by (simp add: frames_wf_def)
  have run: "SwitchFork M (Some a) (Some b) s = rbind (PushProcToQueue M (Some a) ?t) (\<lambda>s. Inr (s, Some b))"
    using SwitchFork_run [OF assms(1-3) ab assms(11) s2_def [unfolded h_def] s3(1,4)] assms(12) len by simp
  have ip: "is_pcb ?t p" if "is_pcb s p" for p using that by (auto simp: is_pcb_def s3f h_def)
  have rd: "ready_repr ?t qs"
    by (rule fork_left_ready [OF assms(17) s3f(1-8) [unfolded h_def] assms(3)])
  obtain u where u: "PushProcToQueue M (Some a) ?t = Inr u" "ready_repr u (qs @ [Some a])" "only_ready ?t u"
    using PushProcToQueue_ok [OF rd ip, of "Some a" M] assms(2) by (auto simp: is_pcb_def)
  have o: "curr_proc u = Some b" "reg_ptr0 u = PT_R1 (unat (free_vpn y))" "pcbs u = h" "region1Pt u = region1Pt s"
      "region0Pt u = region0Pt s3" "r1_tables u = r1_tables s3" "frames u = frames s3"
    by (simp_all add: only_readyD [OF u(3)] only_ready_mem [OF u(3)] s3f)
  have "SwitchFork M (Some a) (Some b) s = Inr (u, Some b)" using run u(1) by simp
  moreover have "tbl u (region0 x) = Inr ps" "tbl u (region0 y) = Inr cs'"
    using tbl_restored [OF assms(6) s3(5) o(4-6)] tbl_restored [OF assms(7) s3(6) o(4-6)] by simp_all
  moreover have "set (free_list u) \<subseteq> insert (k + PAGE_TABLE_LEN M) (set (free_list s3))"
  proof -
    have "freePages u = (freePages s3)[k + PAGE_TABLE_LEN M := PAGE_FREE]" "num_pages u = num_pages s3"
      using only_ready_mem [OF u(3)] by (simp_all add: fork_left_def WriteRegister_def)
    then show ?thesis by (auto simp: free_list_def nth_list_update split: if_splits)
  qed
  moreover have "\<forall>f. f \<notin> set (free_list s) \<longrightarrow> frames u f = frames s f" using s3(9) o(7) by simp
  ultimately show ?thesis
    using u(2) o(1-4) s3(7,8) pages unfolding h_def o(7) [symmetric] s3(8) by blast
qed

text \<open>C4: fork copies the address space. Let \<open>ps\<close> be the parent's page table, in which every valid page can be
  read and refers to a frame in use, and let there be enough free frames. Then \<open>SwitchFork\<close> succeeds:
  the child is current, its table and the parent's saved context are in place, the parent is last
  in the ready queue, its own table and Region 1 are as before. The child's table has
  the valid pages of the parent with the same protection; the \<open>i\<close>-th page has a frame of its
  own, which was free and now has the contents of the parent's page.\<close>

theorem SwitchFork_copies_address_space:
  assumes "hw_layout M" "pcbs s a = Some x" "pcbs s b = Some y" "region0 y \<noteq> region0 x" "reg_ptr0 s = region0 x"
    "tbl s (region0 x) = Inr ps" "tbl s (region0 y) = Inr cs" "length ps = PAGE_TABLE_LEN M" "length cs = PAGE_TABLE_LEN M"
    "length (region1Pt s) = PAGE_TABLE_LEN M" "BorrowR1Page M s = Inr (int k)" "k + PAGE_TABLE_LEN M < length (freePages s)"
    "frames_wf s" "num_pages s \<le> 2 ^ 20" "length (filter valid ps) \<le> length (free_list s)"
    "\<forall>e\<in>set ps. valid e \<longrightarrow> PROT_READ \<in> kprot e \<and> unat (pfn e) \<notin> set (free_list s)" "ready_repr s qs"
  shows "\<exists>s' cs'. SwitchFork M (Some a) (Some b) s = Inr (s', Some b) \<and>
    curr_proc s' = Some b \<and> reg_ptr0 s' = PT_R1 (unat (free_vpn y)) \<and> pcbs s' = (pcbs s)(b \<mapsto> y\<lparr>ctx := ctx x\<rparr>) \<and>
    ready_repr s' (qs @ [Some a]) \<and> region1Pt s' = region1Pt s \<and> tbl s' (region0 x) = Inr ps \<and>
    tbl s' (region0 y) = Inr cs' \<and> length cs' = PAGE_TABLE_LEN M \<and>
    (\<forall>i<PAGE_TABLE_LEN M. valid (cs' ! i) = valid (ps ! i) \<and> (valid (ps ! i) \<longrightarrow>
       uprot (cs' ! i) = uprot (ps ! i) \<and> kprot (cs' ! i) = kprot (ps ! i) \<and>
       unat (pfn (cs' ! i)) = free_list s ! rank ps i \<and>
       frames s' (unat (pfn (cs' ! i))) = frames s (unat (pfn (ps ! i)))))"
  using SwitchFork_ok [OF assms] by blast

definition demo_fork :: kstate where
  "demo_fork = demo\<lparr>pcbs := [1 \<mapsto> zero_pcb, 2 \<mapsto> zero_pcb\<lparr>region0 := PT_region0Pt\<rparr>, 3 \<mapsto> zero_pcb\<lparr>process_id := 2, region0 := PT_R1 5, free_vpn := 5\<rparr>],
     reg_ptr0 := PT_region0Pt, region0Pt := (replicate 8 zero_pte)[3 := r0_initial 9], freePages := (replicate 16 PAGE_FREE)[9 := PAGE_USED],
     region1Pt := (replicate 8 zero_pte)[5 := r0_initial 13], frames := (\<lambda>_. replicate 64 0)(9 := replicate 64 7)\<rparr>"

lemma demo_fork_facts:
  "frames_wf demo_fork" "free_list demo_fork = 0 # 1 # [2..<9] @ [10..<16]" "ready_repr demo_fork []"
  "BorrowR1Page tiny demo_fork = Inr (int 0)" "valid zero_pte = False"
proof -
  show "frames_wf demo_fork" by (simp add: frames_wf_def demo_fork_def demo_def blank_def)
  have fp: "p < 16 \<Longrightarrow> freePages demo_fork ! p = PAGE_FREE \<longleftrightarrow> p \<noteq> 9" for p
    by (simp add: demo_fork_def nth_list_update)
  have "num_pages demo_fork = 16" "[0..<16] = 0 # 1 # [2..<16]"
    by (simp_all add: demo_fork_def demo_def blank_def upt_conv_Cons)
  then have "free_list demo_fork = filter (\<lambda>p. freePages demo_fork ! p = PAGE_FREE) (0 # 1 # [2..<16])"
    by (simp only: free_list_def)
  then show "free_list demo_fork = 0 # 1 # [2..<9] @ [10..<16]" by (simp add: fp)
  have "is_pcb demo p \<Longrightarrow> is_pcb demo_fork p" for p
    by (cases p) (auto simp: is_pcb_def demo_fork_def demo_def split: if_splits)
  moreover have "heap_wf demo_fork" "is_pcb demo_fork (curr_proc demo_fork)"
    by (simp_all add: heap_wf_def is_pcb_def demo_fork_def demo_def blank_def)
  ultimately show "ready_repr demo_fork []"
    by (intro ready_repr_moved [OF demo_repr]) (simp_all add: demo_fork_def)
  have "addrs 64 512 1024 = 512 # addrs 64 576 1024" using addrs.simps [of 64 512 1024] by simp
  moreover have "rd_r1 demo_fork 0 = Inr zero_pte" "PAGESIZE tiny = 64" "VMEM_1_BASE tiny = 512" "VMEM_1_LIMIT tiny = 1024"
      "PAGE_TABLE_LEN tiny = 8" "\<not> valid zero_pte"
    by (simp_all add: rd_r1_def demo_fork_def demo_def blank_def aget_def tiny_def PAGESIZE_def zero_pte_def)
  ultimately show "BorrowR1Page tiny demo_fork = Inr (int 0)" by (simp add: BorrowR1Page_def)
  show "valid zero_pte = False" by (simp add: zero_pte_def)
qed

theorem SwitchFork_copies_address_space_witness:
  "\<exists>s' cs'. SwitchFork tiny (Some 2) (Some 3) demo_fork = Inr (s', Some 3) \<and> tbl s' (PT_R1 5) = Inr cs' \<and>
     valid (cs' ! 3) \<and> \<not> valid (cs' ! 4) \<and> unat (pfn (cs' ! 3)) = 0 \<and>
     frames s' (unat (pfn (cs' ! 3))) = replicate 64 7"
proof -
  let ?x = "zero_pcb\<lparr>region0 := PT_region0Pt\<rparr>" and ?y = "zero_pcb\<lparr>process_id := 2, region0 := PT_R1 5, free_vpn := 5\<rparr>"
  let ?ps = "(replicate 8 zero_pte)[3 := r0_initial 9]"
  have L: "PAGE_TABLE_LEN tiny = 8" by (simp add: tiny_def)
  have t: "tbl demo_fork (region0 ?x) = Inr ?ps" "tbl demo_fork (region0 ?y) = Inr (replicate 8 zero_pte)"
    "pcbs demo_fork 2 = Some ?x" "pcbs demo_fork 3 = Some ?y" "reg_ptr0 demo_fork = region0 ?x" "num_pages demo_fork = 16"
    "length (region1Pt demo_fork) = 8" "length (freePages demo_fork) = 16" "frames demo_fork 9 = replicate 64 7"
    by (simp_all add: tbl_def demo_fork_def demo_def blank_def r0_initial_def)
  have v: "valid (r0_initial 9)" "PROT_READ \<in> kprot (r0_initial 9)" "unat (pfn (r0_initial 9)) = 9"
    by (simp_all add: r0_initial_def)
  have ps: "length (filter valid ?ps) = 1" "\<forall>e\<in>set ?ps. valid e \<longrightarrow> PROT_READ \<in> kprot e \<and> unat (pfn e) \<notin> set (free_list demo_fork)"
    "rank ?ps 3 = 0"
    using v by (auto simp: demo_fork_facts numeral_eq_Suc rank_def)
  note r = SwitchFork_copies_address_space [OF hw_layout_tiny t(3,4) _ t(5,1,2) _ _ _ demo_fork_facts(4) _ demo_fork_facts(1) _ _ ps(2) demo_fork_facts(3)]
  obtain s' cs' where q: "SwitchFork tiny (Some 2) (Some 3) demo_fork = Inr (s', Some 3)" "tbl s' (PT_R1 5) = Inr cs'"
      "\<forall>i<8. valid (cs' ! i) = valid (?ps ! i) \<and> (valid (?ps ! i) \<longrightarrow> unat (pfn (cs' ! i)) = free_list demo_fork ! rank ?ps i \<and>
         frames s' (unat (pfn (cs' ! i))) = frames demo_fork (unat (pfn (?ps ! i))))"
    using r by (simp add: L t(6-8) ps(1) demo_fork_facts(2)) blast
  have "valid (cs' ! 3)" "\<not> valid (cs' ! 4)" "unat (pfn (cs' ! 3)) = 0" "frames s' (unat (pfn (cs' ! 3))) = replicate 64 7"
    using q(3) [rule_format, of 3] q(3) [rule_format, of 4] v ps(3) t(9) by (auto simp: demo_fork_facts)
  with q(1,2) show ?thesis by blast
qed

theorem SwitchExit_releases_frames_witness:
  "\<exists>s'. SwitchExit tiny (Some 2) (Some 3) demo_fork = Inr (s', Some 3) \<and> reg_ptr0 s' = PT_R1 5 \<and>
     freePages s' ! 9 = PAGE_FREE \<and> entry PT_region0Pt s' 3 = Some (r0_initial 9)"
proof -
  let ?x = "zero_pcb\<lparr>region0 := PT_region0Pt\<rparr>" and ?y = "zero_pcb\<lparr>process_id := 2, region0 := PT_R1 5, free_vpn := 5\<rparr>"
  have t: "pcbs demo_fork 2 = Some ?x" "pcbs demo_fork 3 = Some ?y" "length (freePages demo_fork) = 16"
    "tbl_len (region0 ?x) (PAGE_TABLE_LEN tiny) demo_fork"
    by (simp_all add: tbl_len_def tbl_def tiny_def demo_fork_def demo_def blank_def)
  have e: "j < 8 \<Longrightarrow> entry PT_region0Pt demo_fork j = Some (if j = 3 then r0_initial 9 else zero_pte)" for j
    by (auto simp: region0Pt_entry demo_fork_def nth_list_update)
  have "\<not> valid zero_pte" "valid (r0_initial 9)" "unat (pfn (r0_initial 9)) = 9"
    by (simp_all add: r0_initial_def zero_pte_def)
  then have o: "owned_frames PT_region0Pt (PAGE_TABLE_LEN tiny) demo_fork = {9}"
    unfolding owned_frames_def using e by (auto simp: tiny_def split: if_splits intro!: exI [of _ 3])
  from SwitchExit_releases_frames [OF hw_layout_tiny t(1,2,4)] show ?thesis
    by (simp add: o t(3)) (elim ex_forward, simp add: e)
qed

section \<open>Starting a new process\<close>

text \<open>The states in the loop of \<open>SwitchNewProc\<close>: entry \<open>k\<close> of Region 1 is borrowed, some frames are written.\<close>

definition borrowing :: "nat \<Rightarrow> kstate \<Rightarrow> (nat \<Rightarrow> page) \<Rightarrow> kstate \<Rightarrow> bool" where
  "borrowing k s F s' \<longleftrightarrow> (\<exists>e l. s' = s\<lparr>region1Pt := (region1Pt s)[k := e], frames := F, reg_log := l\<rparr>)"

lemma borrowing_tbl:
  assumes "borrowing k s F s'" "tbl s t = Inr ps" "\<not> valid (region1Pt s ! k)" "k < length (region1Pt s)"
  shows "tbl s' t = Inr ps"
  using assms by (auto simp: borrowing_def tbl_def nth_list_update split: ptref.splits if_splits)

lemma copy_stack_page_ok:
  assumes "hw_layout M" "borrowing k s F s'" "\<not> valid (region1Pt s ! k)" "length (region1Pt s) = PAGE_TABLE_LEN M"
    "k < PAGE_TABLE_LEN M" "tbl s (reg_ptr0 s) = Inr ps" "tbl s ct = Inr cs" "i < length ps" "i < length cs"
    "i < PAGE_TABLE_LEN M" "valid (ps ! i)" "PROT_READ \<in> kprot (ps ! i)"
  shows "\<exists>u. copy_stack_page M ct (int k) (i * PAGESIZE M) s' = Inr u \<and>
    borrowing k s (F(unat (pfn (cs ! i)) := F (unat (pfn (ps ! i))))) u"
proof -
  obtain e l where s': "s' = s\<lparr>region1Pt := (region1Pt s)[k := e], frames := F, reg_log := l\<rparr>"
    using assms(2) by (auto simp: borrowing_def)
  have k: "k < length (region1Pt s)" using assms(4,5) by simp
  let ?e = "e\<lparr>uprot := PROT_NONE, kprot := {PROT_READ, PROT_WRITE}, valid := True, pfn := pfn (cs ! i)\<rparr>"
  let ?t = "s'\<lparr>region1Pt := (region1Pt s)[k := ?e]\<rparr>"
  have "rd_pte s' ct (int i) = Inr (cs ! i)"
    using borrowing_tbl [OF assms(2,7,3) k] assms(9) by (simp add: rd_pte_def)
  moreover have "wr_r1 (int k) (\<lambda>t. t\<lparr>uprot := PROT_NONE, kprot := {PROT_READ, PROT_WRITE}, valid := True, pfn := pfn (cs ! i)\<rparr>) s' = Inr ?t"
    using k by (simp add: wr_r1_def s')
  moreover have "copy_page M (r1_addr M (int k)) (i * PAGESIZE M) ?t =
      Inr (?t\<lparr>frames := F(unat (pfn (cs ! i)) := F (unat (pfn (ps ! i))))\<rparr>)"
  proof -
    have b: "borrowed M k ?t" using assms(4,5) k by (simp add: borrowed_def)
    have "borrowing k s F ?t" unfolding borrowing_def s' by (rule exI [of _ ?e], rule exI [of _ l]) simp
    from borrowing_tbl [OF this assms(6,3) k] have "hw_table ?t (reg_ptr0 ?t) = ps"
      by (simp add: hw_table_tbl s')
    then show ?thesis
      using hw_pte_borrowed [OF assms(1) b] hw_pte_region0 [OF assms(1,10), of ?t] assms(8,11,12) k
      by (simp add: copy_page_def s')
  qed
  ultimately show ?thesis
    by (auto simp: copy_stack_page_def borrowing_def s' WriteRegister_def)
qed

lemma copy_stack_pages:
  assumes "hw_layout M" "\<not> valid (region1Pt s ! k)" "length (region1Pt s) = PAGE_TABLE_LEN M" "k < PAGE_TABLE_LEN M"
    "tbl s (reg_ptr0 s) = Inr ps" "tbl s ct = Inr cs" "length ps = PAGE_TABLE_LEN M" "length cs = PAGE_TABLE_LEN M"
    "\<forall>i. b \<le> i \<and> i < n \<longrightarrow> valid (ps ! i) \<and> PROT_READ \<in> kprot (ps ! i)"
    "\<forall>i j. b \<le> i \<and> i < n \<and> b \<le> j \<and> j < n \<longrightarrow> pfn (cs ! i) \<noteq> pfn (ps ! j) \<and> (i \<noteq> j \<longrightarrow> pfn (cs ! i) \<noteq> pfn (cs ! j))"
    "n \<le> PAGE_TABLE_LEN M"
  shows "\<exists>u F. fold_res (copy_stack_page M ct (int k)) (map (\<lambda>i. i * PAGESIZE M) [b..<n]) s = Inr u \<and>
    borrowing k s F u \<and> (\<forall>i. b \<le> i \<and> i < n \<longrightarrow> F (unat (pfn (cs ! i))) = frames s (unat (pfn (ps ! i)))) \<and>
    (\<forall>f. (\<forall>i. b \<le> i \<and> i < n \<longrightarrow> unat (pfn (cs ! i)) \<noteq> f) \<longrightarrow> F f = frames s f)"
  using assms(9-11)
proof (induction n)
  case 0
  then show ?case by (auto simp: borrowing_def intro!: exI [of _ "frames s"] exI [of _ "region1Pt s ! k"] exI [of _ "reg_log s"])
next
  case (Suc n)
  show ?case
  proof (cases "b \<le> n")
    case True
    obtain u F where u: "fold_res (copy_stack_page M ct (int k)) (map (\<lambda>i. i * PAGESIZE M) [b..<n]) s = Inr u" "borrowing k s F u"
        "\<forall>i. b \<le> i \<and> i < n \<longrightarrow> F (unat (pfn (cs ! i))) = frames s (unat (pfn (ps ! i)))"
        "\<forall>f. (\<forall>i. b \<le> i \<and> i < n \<longrightarrow> unat (pfn (cs ! i)) \<noteq> f) \<longrightarrow> F f = frames s f"
      using Suc by fastforce
    have n: "n < PAGE_TABLE_LEN M" "valid (ps ! n)" "PROT_READ \<in> kprot (ps ! n)" using Suc.prems True by auto
    obtain v where v: "copy_stack_page M ct (int k) (n * PAGESIZE M) u = Inr v"
        "borrowing k s (F(unat (pfn (cs ! n)) := F (unat (pfn (ps ! n))))) v"
      using copy_stack_page_ok [OF assms(1) u(2) assms(2-6) _ _ n] n(1) assms(7,8) by auto
    have "unat (pfn (cs ! i)) \<noteq> unat (pfn (ps ! n))" if "b \<le> i" "i < n" for i
      using Suc.prems(2) [rule_format, of i n] that True by (simp add: word_unat_eq_iff)
    then have src: "F (unat (pfn (ps ! n))) = frames s (unat (pfn (ps ! n)))" using u(4) by blast
    have "unat (pfn (cs ! i)) \<noteq> unat (pfn (cs ! n))" if "b \<le> i" "i < n" for i
      using Suc.prems(2) [rule_format, of i n] that True by (simp add: word_unat_eq_iff)
    then have "F (unat (pfn (cs ! i))) = (F(unat (pfn (cs ! n)) := F (unat (pfn (ps ! n))))) (unat (pfn (cs ! i)))" if "b \<le> i" "i < n" for i
      using that by simp
    moreover define G where "G = F(unat (pfn (cs ! n)) := F (unat (pfn (ps ! n))))"
    ultimately have "\<forall>i. b \<le> i \<and> i < Suc n \<longrightarrow> G (unat (pfn (cs ! i))) = frames s (unat (pfn (ps ! i)))"
      "\<forall>f. (\<forall>i. b \<le> i \<and> i < Suc n \<longrightarrow> unat (pfn (cs ! i)) \<noteq> f) \<longrightarrow> G f = frames s f"
      using u(3,4) src True by (auto simp: less_Suc_eq G_def)
    then show ?thesis using u(1) v True unfolding G_def [symmetric] by (auto simp: fold_res_append)
  qed (auto simp: borrowing_def intro!: exI [of _ "frames s"] exI [of _ "region1Pt s ! k"] exI [of _ "reg_log s"])
qed

lemma kernel_stack_addrs:
  assumes "hw_layout M" "base = PAGE_TABLE_LEN M - KERNEL_STACK_PAGES M"
  shows "addrs (PAGESIZE M) (KERNEL_STACK_BASE M) (KERNEL_STACK_LIMIT M) = map (\<lambda>i. i * PAGESIZE M) [base..<PAGE_TABLE_LEN M]"
  using addrs_pages [of "PAGESIZE M" base "PAGE_TABLE_LEN M"] assms by (simp add: hw_layout_def)

lemma fork_left_tbl: "tbl (fork_left M k r1 b y s) t = tbl (s\<lparr>region1Pt := r1\<rparr>) t"
  by (simp add: tbl_def split: ptref.split)

lemma SwitchNewProc_run:
  assumes "hw_layout M" "pcbs s a = Some x" "pcbs s b = Some y" "BorrowR1Page M s = Inr (int k)"
    "length (region1Pt s) = PAGE_TABLE_LEN M" "k + PAGE_TABLE_LEN M < length (freePages s)"
    "base = PAGE_TABLE_LEN M - KERNEL_STACK_PAGES M" "h = (pcbs s)(b \<mapsto> y\<lparr>ctx := ctx x\<rparr>)"
    "fold_res (copy_stack_page M (region0 y) (int k)) (map (\<lambda>i. i * PAGESIZE M) [base..<PAGE_TABLE_LEN M]) (s\<lparr>pcbs := h\<rparr>) = Inr u"
    "borrowing k (s\<lparr>pcbs := h\<rparr>) F u"
  shows "SwitchNewProc M (Some a) (Some b) s = Inr (fork_left M k (region1Pt s) b y u, Some b)"
proof -
  note k = BorrowR1Page_Ok [OF assms(4,1)]
  have b: "BorrowR1Page M (s\<lparr>pcbs := h\<rparr>) = Inr (int k)" using assms(4) by (simp add: BorrowR1Page_def BorrowR1Page_pcbs)
  have r: "wr_r1 (int k) (\<lambda>_. region1Pt s ! k) u = Inr (u\<lparr>region1Pt := region1Pt s\<rparr>)"
    and f: "set_freePages (int k + int (PAGE_TABLE_LEN M)) PAGE_FREE (u\<lparr>region1Pt := region1Pt s\<rparr>) =
      Inr (u\<lparr>region1Pt := region1Pt s, freePages := (freePages u)[k + PAGE_TABLE_LEN M := PAGE_FREE]\<rparr>)"
    using assms(6,10) k(2) by (auto simp: borrowing_def wr_r1_def set_freePages_def simp flip: of_nat_add)
  show ?thesis
    using assms(2,3,9) b r f k(2) unfolding assms(8)
    by (simp add: SwitchNewProc_def rd_r1_def kernel_stack_addrs [OF assms(1,7)] fork_left_def Let_def)
qed

lemma SwitchNewProc_ok:
  assumes "hw_layout M" "a \<noteq> b" "pcbs s a = Some x" "pcbs s b = Some y" "BorrowR1Page M s = Inr (int k)"
    "length (region1Pt s) = PAGE_TABLE_LEN M" "k + PAGE_TABLE_LEN M < length (freePages s)"
    "tbl s (reg_ptr0 s) = Inr ps" "tbl s (region0 y) = Inr cs" "length ps = PAGE_TABLE_LEN M" "length cs = PAGE_TABLE_LEN M"
    "stack = {PAGE_TABLE_LEN M - KERNEL_STACK_PAGES M..<PAGE_TABLE_LEN M}"
    "\<forall>i\<in>stack. valid (ps ! i) \<and> PROT_READ \<in> kprot (ps ! i)"
    "\<forall>i\<in>stack. \<forall>j\<in>stack. pfn (cs ! i) \<noteq> pfn (ps ! j) \<and> (i \<noteq> j \<longrightarrow> pfn (cs ! i) \<noteq> pfn (cs ! j))"
  shows "\<exists>u F. ContextSwitch M SWITCH_NEW_PROC (Some a) (Some b) ct s = Inr (fork_left M k (region1Pt s) b y u, ct) \<and>
    borrowing k (s\<lparr>pcbs := (pcbs s)(a \<mapsto> x\<lparr>ctx := ct\<rparr>, b \<mapsto> y\<lparr>ctx := ct\<rparr>)\<rparr>) F u \<and>
    (\<forall>i\<in>stack. F (unat (pfn (cs ! i))) = frames s (unat (pfn (ps ! i)))) \<and>
    (\<forall>f. (\<forall>i\<in>stack. unat (pfn (cs ! i)) \<noteq> f) \<longrightarrow> F f = frames s f)"
proof -
  let ?L = "PAGE_TABLE_LEN M" and ?base = "PAGE_TABLE_LEN M - KERNEL_STACK_PAGES M"
  let ?s = "s\<lparr>pcbs := (pcbs s)(a \<mapsto> x\<lparr>ctx := ct\<rparr>)\<rparr>"
  define h where "h = (pcbs ?s)(b \<mapsto> y\<lparr>ctx := ctx (x\<lparr>ctx := ct\<rparr>)\<rparr>)"
  note k = BorrowR1Page_Ok [OF assms(5,1)]
  obtain u F where u: "fold_res (copy_stack_page M (region0 y) (int k)) (map (\<lambda>i. i * PAGESIZE M) [?base..<?L]) (?s\<lparr>pcbs := h\<rparr>) = Inr u"
      "borrowing k (?s\<lparr>pcbs := h\<rparr>) F u" "\<forall>i. ?base \<le> i \<and> i < ?L \<longrightarrow> F (unat (pfn (cs ! i))) = frames s (unat (pfn (ps ! i)))"
      "\<forall>f. (\<forall>i. ?base \<le> i \<and> i < ?L \<longrightarrow> unat (pfn (cs ! i)) \<noteq> f) \<longrightarrow> F f = frames s f"
    using copy_stack_pages [of M "?s\<lparr>pcbs := h\<rparr>" k ps "region0 y" cs ?base ?L] assms(1,6,8-11,13,14) k unfolding assms(12)
    by auto
  have p: "pcbs ?s a = Some (x\<lparr>ctx := ct\<rparr>)" "pcbs ?s b = Some y" "BorrowR1Page M ?s = Inr (int k)"
    using assms(2,4,5) by (simp_all add: BorrowR1Page_def BorrowR1Page_pcbs)
  have run: "SwitchNewProc M (Some a) (Some b) ?s = Inr (fork_left M k (region1Pt s) b y u, Some b)"
    using SwitchNewProc_run [OF assms(1) p _ _ refl h_def u(1,2)] assms(6,7) by simp
  have h: "h = (pcbs s)(a \<mapsto> x\<lparr>ctx := ct\<rparr>, b \<mapsto> y\<lparr>ctx := ct\<rparr>)" by (simp add: h_def)
  have "pcbs u = h" using u(2) by (auto simp: borrowing_def)
  then have "ContextSwitch M SWITCH_NEW_PROC (Some a) (Some b) ct s = Inr (fork_left M k (region1Pt s) b y u, ct)"
    using assms(2,3) run by (simp add: ContextSwitch_def h)
  then show ?thesis using u(2-4) unfolding assms(12) h by (intro exI [of _ u] exI [of _ F]) simp
qed

text \<open>C7: starting the first process. The switch of \<open>KernelStart\<close> from idle to the new process copies every page
  of the kernel stack into the frame that the new process has for it, makes the new process current
  with its own page table, and leaves Region 1 as it was. Both processes then have the same saved context: not only
  the new process but also idle, when it runs again, goes on at the same place of \<open>KernelStart\<close>.\<close>

theorem SwitchNewProc_copies_stack_and_context:
  assumes "hw_layout M" "a \<noteq> b" "pcbs s a = Some x" "pcbs s b = Some y" "BorrowR1Page M s = Inr (int k)"
    "length (region1Pt s) = PAGE_TABLE_LEN M" "k + PAGE_TABLE_LEN M < length (freePages s)"
    "tbl s (reg_ptr0 s) = Inr ps" "tbl s (region0 y) = Inr cs" "length ps = PAGE_TABLE_LEN M" "length cs = PAGE_TABLE_LEN M"
    "stack = {PAGE_TABLE_LEN M - KERNEL_STACK_PAGES M..<PAGE_TABLE_LEN M}"
    "\<forall>i\<in>stack. valid (ps ! i) \<and> PROT_READ \<in> kprot (ps ! i)"
    "\<forall>i\<in>stack. \<forall>j\<in>stack. pfn (cs ! i) \<noteq> pfn (ps ! j) \<and> (i \<noteq> j \<longrightarrow> pfn (cs ! i) \<noteq> pfn (cs ! j))"
  shows "\<exists>s'. ContextSwitch M SWITCH_NEW_PROC (Some a) (Some b) ct s = Inr (s', ct) \<and>
    curr_proc s' = Some b \<and> reg_ptr0 s' = PT_R1 (unat (free_vpn y)) \<and> region1Pt s' = region1Pt s \<and>
    pcbs s' = (pcbs s)(a \<mapsto> x\<lparr>ctx := ct\<rparr>, b \<mapsto> y\<lparr>ctx := ct\<rparr>) \<and>
    tbl s' (region0 y) = Inr cs \<and>
    (\<forall>i\<in>stack. frames s' (unat (pfn (cs ! i))) = frames s (unat (pfn (ps ! i))))"
proof -
  obtain u F where u: "ContextSwitch M SWITCH_NEW_PROC (Some a) (Some b) ct s = Inr (fork_left M k (region1Pt s) b y u, ct)"
      "borrowing k (s\<lparr>pcbs := (pcbs s)(a \<mapsto> x\<lparr>ctx := ct\<rparr>, b \<mapsto> y\<lparr>ctx := ct\<rparr>)\<rparr>) F u"
      "\<forall>i\<in>stack. F (unat (pfn (cs ! i))) = frames s (unat (pfn (ps ! i)))"
    using SwitchNewProc_ok [OF assms, of ct] by blast
  have "tbl (u\<lparr>region1Pt := region1Pt s\<rparr>) (region0 y) = Inr cs"
    using u(2) assms(9) by (auto simp: borrowing_def tbl_def split: ptref.splits if_splits)
  moreover have "pcbs u = (pcbs s)(a \<mapsto> x\<lparr>ctx := ct\<rparr>, b \<mapsto> y\<lparr>ctx := ct\<rparr>)" "frames u = F"
    using u(2) by (auto simp: borrowing_def)
  ultimately show ?thesis
    using u(1,3) by (intro exI [of _ "fork_left M k (region1Pt s) b y u"]) (simp add: fork_left_tbl)
qed

definition demo_new :: kstate where
  "demo_new = blank\<lparr>pcbs := [1 \<mapsto> zero_pcb\<lparr>region0 := PT_region0Pt\<rparr>, 2 \<mapsto> zero_pcb\<lparr>process_id := 1, region0 := PT_R1 5, free_vpn := 5\<rparr>],
     reg_ptr0 := PT_region0Pt, region0Pt := (replicate 8 zero_pte)[6 := r0_initial 6, 7 := r0_initial 7],
     r1_tables := (\<lambda>_. (replicate 8 zero_pte)[6 := r0_initial 9, 7 := r0_initial 10]),
     region1Pt := (replicate 8 zero_pte)[5 := r0_initial 13], frames := (\<lambda>_. replicate 64 0)(6 := replicate 64 3)\<rparr>"

theorem SwitchNewProc_copies_stack_and_context_witness:
  "\<exists>s'. ContextSwitch tiny SWITCH_NEW_PROC (Some 1) (Some 2) K_ExitFunc demo_new = Inr (s', K_ExitFunc) \<and>
     frames s' 9 = replicate 64 3 \<and> map (\<lambda>a. map_option ctx (pcbs s' a)) [1, 2] = [Some K_ExitFunc, Some K_ExitFunc]"
proof -
  let ?x = "zero_pcb\<lparr>region0 := PT_region0Pt\<rparr>" and ?y = "zero_pcb\<lparr>process_id := 1, region0 := PT_R1 5, free_vpn := 5\<rparr>"
  let ?ps = "(replicate 8 zero_pte)[6 := r0_initial 6, 7 := r0_initial 7]"
    and ?cs = "(replicate 8 zero_pte)[6 := r0_initial 9, 7 := r0_initial 10]"
  have L: "PAGE_TABLE_LEN tiny = 8" "KERNEL_STACK_PAGES tiny = 2" by (simp_all add: tiny_def)
  have t: "pcbs demo_new 1 = Some ?x" "pcbs demo_new 2 = Some ?y" "tbl demo_new (reg_ptr0 demo_new) = Inr ?ps"
    "tbl demo_new (region0 ?y) = Inr ?cs" "length (region1Pt demo_new) = 8" "length (freePages demo_new) = 16"
    "frames demo_new 6 = replicate 64 3"
    by (simp_all add: tbl_def demo_new_def blank_def r0_initial_def)
  have "addrs 64 512 1024 = 512 # addrs 64 576 1024" using addrs.simps [of 64 512 1024] by simp
  moreover have "rd_r1 demo_new 0 = Inr zero_pte" "PAGESIZE tiny = 64" "VMEM_1_BASE tiny = 512" "VMEM_1_LIMIT tiny = 1024" "\<not> valid zero_pte"
    by (simp_all add: rd_r1_def demo_new_def blank_def aget_def tiny_def PAGESIZE_def zero_pte_def)
  ultimately have k: "BorrowR1Page tiny demo_new = Inr (int 0)" by (simp add: BorrowR1Page_def L)
  have st: "{6, 7} = {PAGE_TABLE_LEN tiny - KERNEL_STACK_PAGES tiny..<PAGE_TABLE_LEN tiny}" by (auto simp: L)
  have p: "\<forall>i\<in>{6, 7}. valid (?ps ! i) \<and> PROT_READ \<in> kprot (?ps ! i)"
    "\<forall>i\<in>{6, 7}. \<forall>j\<in>{6, 7}. pfn (?cs ! i) \<noteq> pfn (?ps ! j) \<and> (i \<noteq> j \<longrightarrow> pfn (?cs ! i) \<noteq> pfn (?cs ! j))"
    by (simp_all add: r0_initial_def)
  obtain s' where s': "ContextSwitch tiny SWITCH_NEW_PROC (Some 1) (Some 2) K_ExitFunc demo_new = Inr (s', K_ExitFunc)"
      "pcbs s' = (pcbs demo_new)(1 \<mapsto> ?x\<lparr>ctx := K_ExitFunc\<rparr>, 2 \<mapsto> ?y\<lparr>ctx := K_ExitFunc\<rparr>)"
      "\<forall>i\<in>{6, 7}. frames s' (unat (pfn (?cs ! i))) = frames demo_new (unat (pfn (?ps ! i)))"
    using SwitchNewProc_copies_stack_and_context [OF hw_layout_tiny _ t(1,2) k _ _ t(3,4) _ _ st p, of K_ExitFunc] t(5,6) L by auto
  have "frames s' 9 = replicate 64 3" using s'(3) [rule_format, of 6] t(7) by (simp add: r0_initial_def)
  then show ?thesis using s'(1,2) by auto
qed

end
