(* ===== verification/Sched.thy ===== *)
theory Sched
  imports Switch
begin

text \<open>
  Delaying processes and the clock: \<open>DelayFunc\<close> and \<open>Tick_\<close> (src/delay.c) and \<open>TrapClockHandler\<close>
  (src/handlers.c).
\<close>

section \<open>Delay\<close>

definition DelayFunc :: "machine \<Rightarrow> int \<Rightarrow> exc_info \<Rightarrow> kstate \<Rightarrow> (kstate \<times> int flow) res" where
  "DelayFunc M clock_ticks info s =
     (if clock_ticks = 0 then Inr (s, Ret 0)
      else if clock_ticks < 0 then Inr (s, Ret ERROR)
      else
        let waiting_node = Some (heap_top s) in
        rbind (wr_item waiting_node (\<lambda>i. i\<lparr>q_proc := curr_proc s, ticks_left := clock_ticks\<rparr>)
                 (malloc_item M s)) (\<lambda>s.
        rbind (wr_pcb (curr_proc s) (delay_ticks_update (\<lambda>_. clock_ticks)) s) (\<lambda>s.
        rbind (RemoveProcFromReadyQueue M (curr_proc s) s) (\<lambda>s.
        rbind (PushItemToWaitingQueue waiting_node s) (\<lambda>s.
        rbind (FindReadyPcb M s) (\<lambda>(s, next_pcb).
        Inr (s, Call_ContextSwitch SWITCH_EXIST (curr_proc s) next_pcb (K_DelayFunc info))))))))"

section \<open>The quantum\<close>

definition Tick :: "machine \<Rightarrow> kstate \<Rightarrow> kstate res" where
  "Tick M s =
     (let s = s\<lparr>ticks_passed := ticks_passed s + 1\<rparr> in
      if ticks_passed s > 2
      then rbind (SetNextProc M s) (\<lambda>(s, r). Inr (if r = 1 then s\<lparr>ticks_passed := 0\<rparr> else s))
      else Inr s)"

section \<open>The clock interrupt\<close>

text \<open>
  The loop over the delay queue. Its third variable is the process to switch to, once the delay of a
  process has expired; the walk is then suspended at the item of that process.
\<close>

definition clock_body :: "machine \<Rightarrow> kstate \<times> ptr \<times> ptr option \<Rightarrow> (kstate \<times> ptr \<times> ptr option) res" where
  "clock_body M = (\<lambda>(s, curr_proc_item, _).
     rbind (rd_item s curr_proc_item) (\<lambda>i.
     let current_proc = q_proc i in
     rbind (rd_pcb s current_proc) (\<lambda>p.
     let left = delay_ticks p - 1 in
     rbind (wr_pcb current_proc (delay_ticks_update (\<lambda>_. left)) s) (\<lambda>s.
     if left \<le> 0
     then rbind (RemoveItemFromWaitingQueue M curr_proc_item s) (\<lambda>s.
          rbind (PushProcToQueue M current_proc s) (\<lambda>s.
          rbind (rd_pcb s (curr_proc s)) (\<lambda>_.
          Inr (s, curr_proc_item, Some current_proc))))
     else Inr (s, q_next i, None)))))"

definition clock_walk :: "machine \<Rightarrow> ptr \<Rightarrow> kstate \<Rightarrow> (kstate \<times> ptr \<times> ptr option) res" where
  "clock_walk M item s =
     while_res (\<lambda>(s, item, target). item \<noteq> NULL \<and> target = None) (clock_body M) (s, item, None)"

definition TrapClock_from :: "machine \<Rightarrow> exc_info \<Rightarrow> ptr \<Rightarrow> kstate \<Rightarrow> (kstate \<times> exc_info flow) res" where
  "TrapClock_from M info item s =
     rbind (clock_walk M item s) (\<lambda>(s, item, target).
     case target of
       Some p \<Rightarrow> Inr (s, Call_ContextSwitch SWITCH_EXIST (curr_proc s) p (K_TrapClock info item))
     | None \<Rightarrow> rbind (Tick M s) (\<lambda>s. Inr (s, Ret info)))"

definition TrapClockHandler :: "machine \<Rightarrow> exc_info \<Rightarrow> kstate \<Rightarrow> (kstate \<times> exc_info flow) res" where
  "TrapClockHandler M info s = TrapClock_from M info (waiting_queue_head s) s"

text \<open>What is left of the handler when the interrupted process runs again.\<close>

definition TrapClock_resume :: "machine \<Rightarrow> exc_info \<Rightarrow> ptr \<Rightarrow> kstate \<Rightarrow> (kstate \<times> exc_info flow) res" where
  "TrapClock_resume M info item s = rbind (rd_item s item) (\<lambda>i. TrapClock_from M info (q_next i) s)"

section \<open>Both queues together\<close>

text \<open>The cells of the two queues are disjoint, and the current process exists.\<close>

definition sched_inv :: "kstate \<Rightarrow> nat list \<Rightarrow> nat list \<Rightarrow> bool" where
  "sched_inv s rs ws \<longleftrightarrow> ready_q s rs \<and> wait_q s ws \<and> set rs \<inter> set ws = {} \<and> heap_wf s \<and> is_pcb s (curr_proc s)"

lemma sched_inv_fresh:
  assumes "sched_inv s rs ws"
  shows "heap_top s \<notin> set rs" "heap_top s \<notin> set ws"
  using assms by (auto simp: sched_inv_def heap_wf_def dest: ready_q_alloc wait_q_alloc)

lemma sched_inv_push:
  assumes "sched_inv s rs ws" "is_pcb s p"
  shows "PushProcToQueue M p s = Inr (pushed M p rs s)" "sched_inv (pushed M p rs s) (rs @ [heap_top s]) ws"
    "map (proc_of (pushed M p rs s)) (rs @ [heap_top s]) = map (proc_of s) rs @ [p]"
    "map (proc_of (pushed M p rs s)) ws = map (proc_of s) ws"
    "\<forall>a. a \<notin> set rs \<longrightarrow> a \<noteq> heap_top s \<longrightarrow> items (pushed M p rs s) a = items s a"
proof -
  let ?t = "pushed M p rs s"
  have q: "ready_q s rs" "heap_wf s" and w: "wait_q s ws" "set rs \<inter> set ws = {}" "is_pcb s (curr_proc s)"
    using assms(1) by (simp_all add: sched_inv_def)
  have n: "heap_top s \<notin> set rs" "heap_top s \<notin> set ws" by (rule sched_inv_fresh [OF assms(1)])+
  show "PushProcToQueue M p s = Inr ?t" by (rule PushProcToQueue_eq [OF q assms(2)])
  have l: "rs = [] \<or> last rs \<noteq> heap_top s" using n(1) by (metis last_in_set)
  moreover have "map (proc_of ?t) rs = map (proc_of s) rs"
    by (intro map_cong refl proc_of_pushed [OF q]) (use n in auto)
  ultimately show "map (proc_of ?t) (rs @ [heap_top s]) = map (proc_of s) rs @ [p]" by simp
  show it: "\<forall>a. a \<notin> set rs \<longrightarrow> a \<noteq> heap_top s \<longrightarrow> items ?t a = items s a"
    by (auto simp: pushed_def Let_def)
  then have same: "items ?t a = items s a" if "a \<in> set ws" for a using that n w(2) by auto
  note f = only_readyD [OF only_ready_pushed [of s M p rs]]
  note wc = wait_q_cong [OF w(1), of ?t] same f
  show "map (proc_of ?t) ws = map (proc_of s) ws" using wc by blast
  have "wait_q ?t ws" using wc by blast
  with ready_q_pushed [OF q assms(2), of M] heap_wf_pushed [OF q, of M p] w n f show "sched_inv ?t (rs @ [heap_top s]) ws"
    by (auto simp: sched_inv_def)
qed

lemma sched_inv_pop:
  assumes "sched_inv s rs ws"
  shows "\<exists>s'. FindReadyPcb M s = Inr (s', next_ready s (map (proc_of s) rs)) \<and> sched_inv s' (tl rs) ws \<and>
    map (proc_of s') (tl rs) = tl (map (proc_of s) rs) \<and> map (proc_of s') ws = map (proc_of s) ws \<and> only_ready s s'"
proof (cases rs)
  case Nil
  with assms have "FindReadyPcb M s = Inr (s, idle_pcb s)" by (simp add: sched_inv_def FindReadyPcb_empty)
  with Nil assms show ?thesis by (simp add: next_ready_def only_ready_def)
next
  case (Cons a as)
  let ?t = "popped M a as s"
  have q: "ready_q s (a # as)" and wf: "heap_wf s" and w: "wait_q s ws" "set (a # as) \<inter> set ws = {}" and c: "is_pcb s (curr_proc s)"
    using assms Cons by (simp_all add: sched_inv_def)
  have "items ?t d = items s d" if "d \<in> set ws" for d
    using that w(2) by (auto simp: popped_def Let_def split: list.splits)
  note f = only_readyD [OF only_ready_popped [of s M a as]]
  note wc = wait_q_cong [OF w(1), of ?t] \<open>\<And>d. d \<in> set ws \<Longrightarrow> items ?t d = items s d\<close> f
  have "wait_q ?t ws" "map (proc_of ?t) ws = map (proc_of s) ws" using wc by blast+
  moreover have "a \<notin> set as" using q by (simp add: ready_q_def)
  then have "map (proc_of ?t) as = map (proc_of s) as"
    by (intro map_cong refl proc_of_popped [OF q]) auto
  ultimately show ?thesis
    using FindReadyPcb_eq [OF q c, of M] ready_q_popped [OF q, of M] heap_wf_popped [OF q wf, of M] w c f Cons
    by (auto simp: sched_inv_def next_ready_def)
qed

definition same_vars :: "kstate \<Rightarrow> kstate \<Rightarrow> bool" where
  "same_vars s s' \<longleftrightarrow> queue_head s' = queue_head s \<and> queue_tail s' = queue_tail s \<and> queue_size s' = queue_size s \<and>
     waiting_queue_head s' = waiting_queue_head s \<and> waiting_queue_tail s' = waiting_queue_tail s \<and>
     waiting_queue_size s' = waiting_queue_size s \<and> curr_proc s' = curr_proc s"

lemma sched_inv_cong:
  assumes "sched_inv s rs ws" "same_vars s s'" "\<And>a. a \<in> set (rs @ ws) \<Longrightarrow> items s' a = items s a"
    "\<And>p. is_pcb s' p = is_pcb s p" "heap_wf s'"
  shows "sched_inv s' rs ws" "map (proc_of s') rs = map (proc_of s) rs" "map (proc_of s') ws = map (proc_of s) ws"
proof -
  have q: "ready_q s rs" "wait_q s ws" using assms(1) by (simp_all add: sched_inv_def)
  have v: "queue_head s' = queue_head s" "queue_tail s' = queue_tail s" "queue_size s' = queue_size s"
    "waiting_queue_head s' = waiting_queue_head s" "waiting_queue_tail s' = waiting_queue_tail s"
    "waiting_queue_size s' = waiting_queue_size s" "curr_proc s' = curr_proc s"
    using assms(2) by (simp_all add: same_vars_def)
  note r = ready_q_cong [OF q(1), of s'] and w = wait_q_cong [OF q(2), of s']
  have "ready_q s' rs" "wait_q s' ws" using r(1) w(1) v assms(3,4) by auto
  then show "sched_inv s' rs ws" using assms(1,4,5) v by (simp add: sched_inv_def)
  show "map (proc_of s') rs = map (proc_of s) rs" "map (proc_of s') ws = map (proc_of s) ws"
    using r(2) w(2) v assms(3,4) by auto
qed

lemma sched_inv_wait_push:
  assumes inv: "sched_inv s rs ws" and n: "items s n = Some i" "n \<notin> set rs" "n \<notin> set ws" "is_pcb s (q_proc i)"
  shows "\<exists>s'. PushItemToWaitingQueue (Some n) s = Inr s' \<and> sched_inv s' rs (ws @ [n]) \<and> same_but_wait s s' \<and>
    map (proc_of s') rs = map (proc_of s) rs \<and> map (proc_of s') (ws @ [n]) = map (proc_of s) ws @ [q_proc i]"
proof -
  have q: "ready_q s rs" "wait_q s ws" "set rs \<inter> set ws = {}" "heap_wf s" using inv by (simp_all add: sched_inv_def)
  obtain u where u: "PushItemToWaitingQueue (Some n) s = Inr u" "wait_q u (ws @ [n])" "same_but_wait s u"
      "\<forall>d. proc_of u d = proc_of s d" "\<forall>d. d \<notin> set (ws @ [n]) \<longrightarrow> items u d = items s d"
    using PushItemToWaitingQueue_wait_q [OF q(2) n(1,3,4)] by blast
  note w = same_but_waitD [OF u(3)]
  have "items u a = items s a" if "a \<in> set rs" for a
  proof -
    have "a \<notin> set (ws @ [n])" using that q(3) n(2) by auto
    with u(5) show ?thesis by blast
  qed
  then have "ready_q u rs" using w by (intro ready_q_cong(1) [OF q(1)]) auto
  moreover have "items u a = None" if "heap_top s \<le> a" for a
  proof -
    have "items s a = None" using that q(4) by (simp add: heap_wf_def)
    then have "a \<notin> set (ws @ [n])" using n(1) wait_q_alloc [OF q(2), of a] by auto
    with u(5) \<open>items s a = None\<close> show ?thesis by simp
  qed
  then have "heap_wf u" using q(4) w by (simp add: heap_wf_def)
  ultimately have "sched_inv u rs (ws @ [n])"
    using u(2) q(3) n(2) w inv by (auto simp: sched_inv_def)
  moreover have "proc_of s n = q_proc i" using n(1) by (simp add: proc_of_def)
  ultimately show ?thesis using u by (intro exI [of _ u]) simp
qed

lemma sched_inv_wait_remove:
  assumes inv: "sched_inv s rs (as @ a # bs)"
  shows "\<exists>s'. RemoveItemFromWaitingQueue M (Some a) s = Inr s' \<and> sched_inv s' rs (as @ bs) \<and> same_but_wait s s' \<and>
    map (proc_of s') rs = map (proc_of s) rs \<and> map (proc_of s') (as @ bs) = map (proc_of s) (as @ bs) \<and>
    items s' a = Option.bind (items s a) (freed_item M)"
proof -
  have q: "ready_q s rs" "wait_q s (as @ a # bs)" "set rs \<inter> set (as @ a # bs) = {}" "heap_wf s"
    using inv by (simp_all add: sched_inv_def)
  obtain u where u: "RemoveItemFromWaitingQueue M (Some a) s = Inr u" "wait_removed M as a bs s u"
    using RemoveItemFromWaitingQueue_ok [OF q(2)] by blast
  then have r: "wait_q u (as @ bs)" "same_but_wait s u" "items u a = Option.bind (items s a) (freed_item M)"
      "\<forall>c. c \<noteq> a \<longrightarrow> proc_of u c = proc_of s c" "\<forall>c. c \<notin> set (as @ a # bs) \<longrightarrow> items u c = items s c"
    by (simp_all add: wait_removed_def)
  note w = same_but_waitD [OF r(2)]
  have same: "items u d = items s d" if "d \<in> set rs" for d
  proof -
    have "d \<notin> set (as @ a # bs)" using that q(3) by blast
    with r(5) show ?thesis by blast
  qed
  have rq: "ready_q u rs" "map (proc_of u) rs = map (proc_of s) rs"
    using ready_q_cong [OF q(1), of u] same w by auto
  have "items u d = None" if "heap_top s \<le> d" for d
  proof -
    have "items s d = None" using that q(4) by (simp add: heap_wf_def)
    then have "d \<notin> set (as @ a # bs)" using wait_q_alloc [OF q(2), of d] by auto
    with r(5) \<open>items s d = None\<close> show ?thesis by simp
  qed
  then have "heap_wf u" using q(4) w by (simp add: heap_wf_def)
  then have "sched_inv u rs (as @ bs)" using rq r(1) q(3) w inv by (auto simp: sched_inv_def)
  moreover have "a \<notin> set (as @ bs)" using wait_q_facts(2) [OF q(2)] by simp
  then have "map (proc_of u) (as @ bs) = map (proc_of s) (as @ bs)" using r(4) by auto
  ultimately show ?thesis using u(1) r rq(2) by blast
qed

section \<open>One pass over the delay queue\<close>

text \<open>One tick less for each of the processes \<open>ps\<close>.\<close>

definition ticked :: "ptr set \<Rightarrow> kstate \<Rightarrow> kstate" where
  "ticked ps s = s\<lparr>pcbs := \<lambda>c. if Some c \<in> ps then map_option (delay_ticks_update (\<lambda>d. d - 1)) (pcbs s c) else pcbs s c\<rparr>"

definition has_ticks :: "kstate \<Rightarrow> ptr \<Rightarrow> bool" where
  "has_ticks s p \<longleftrightarrow> (\<exists>c x. p = Some c \<and> pcbs s c = Some x \<and> 1 < delay_ticks x)"

lemma ticked_frame [simp]:
  "items (ticked ps s) = items s" "proc_of (ticked ps s) a = proc_of s a" "curr_proc (ticked ps s) = curr_proc s"
  "is_pcb (ticked ps s) p = is_pcb s p" "heap_top (ticked ps s) = heap_top s" "same_vars s (ticked ps s)"
  "heap_wf s \<Longrightarrow> heap_wf (ticked ps s)" "c \<notin> ps \<Longrightarrow> c = Some d \<Longrightarrow> pcbs (ticked ps s) d = pcbs s d"
  "ticked {} s = s"
  by (auto simp: ticked_def proc_of_def is_pcb_def same_vars_def heap_wf_def)

lemma sched_inv_ticked: "sched_inv s rs ws \<Longrightarrow> sched_inv (ticked ps s) rs ws"
  by (rule sched_inv_cong(1)) (auto simp: sched_inv_def)

lemma clock_skip:
  assumes "wq.dseg (items s) q as n" "distinct (map (proc_of s) as)" "\<forall>a\<in>set as. has_ticks s (proc_of s a)"
  shows "while_res (\<lambda>(s, item, target). item \<noteq> NULL \<and> target = None) (clock_body M) (s, lead as n, None)
    = while_res (\<lambda>(s, item, target). item \<noteq> NULL \<and> target = None) (clock_body M) (ticked (proc_of s ` set as) s, n, None)"
  using assms
proof (induction as arbitrary: s q)
  case (Cons a as)
  then obtain i where i: "items s a = Some i" "q_next i = lead as n" "wq.dseg (items s) (Some a) as n" by auto
  obtain c x where x: "proc_of s a = Some c" "pcbs s c = Some x" "1 < delay_ticks x"
    using Cons.prems(3) by (auto simp: has_ticks_def)
  let ?t = "ticked {Some c} s"
  have t: "?t = s\<lparr>pcbs := (pcbs s)(c \<mapsto> x\<lparr>delay_ticks := delay_ticks x - 1\<rparr>)\<rparr>"
    using x by (auto simp: ticked_def fun_eq_iff)
  have "proc_of ?t = proc_of s" by (simp add: fun_eq_iff)
  moreover have "has_ticks ?t (proc_of s b)" if "b \<in> set as" for b
  proof -
    have "proc_of s b \<noteq> Some c" using Cons.prems(2) x(1) that by (auto simp: image_iff)
    moreover have "has_ticks s (proc_of s b)" using Cons.prems(3) that by simp
    ultimately show ?thesis by (auto simp: has_ticks_def ticked_def)
  qed
  ultimately have "while_res (\<lambda>(s, item, target). item \<noteq> NULL \<and> target = None) (clock_body M) (?t, lead as n, None)
      = while_res (\<lambda>(s, item, target). item \<noteq> NULL \<and> target = None) (clock_body M) (ticked (proc_of s ` set as) ?t, n, None)"
    using Cons.IH [of ?t "Some a"] Cons.prems(2) i(3) by simp
  moreover have "ticked (proc_of s ` set as) ?t = ticked (proc_of s ` set (a # as)) s"
    using Cons.prems(2) x(1) by (auto simp: ticked_def fun_eq_iff image_iff)
  moreover have "clock_body M (s, Some a, None) = Inr (?t, lead as n, None)"
    using i x t by (simp add: clock_body_def proc_of_def Let_def)
  ultimately show ?case by (subst while_res_unfold) simp
qed simp

section \<open>Delaying the current process\<close>

text \<open>A new cell for the current process, with its delay recorded.\<close>

definition delayed :: "machine \<Rightarrow> int \<Rightarrow> nat \<Rightarrow> pcb \<Rightarrow> kstate \<Rightarrow> kstate" where
  "delayed M n c x s = s\<lparr>heap_top := Suc (heap_top s),
     items := (items s)(heap_top s \<mapsto> (junk_item M (heap_top s))\<lparr>q_proc := Some c, ticks_left := n\<rparr>),
     pcbs := (pcbs s)(c \<mapsto> x\<lparr>delay_ticks := n\<rparr>)\<rparr>"

lemma delayed_sched_inv:
  assumes inv: "sched_inv s rs ws" and c: "curr_proc s = Some c" "pcbs s c = Some x"
  shows "sched_inv (delayed M n c x s) rs ws" "map (proc_of (delayed M n c x s)) rs = map (proc_of s) rs"
    "map (proc_of (delayed M n c x s)) ws = map (proc_of s) ws"
    "pid_of (delayed M n c x s) p = pid_of s p" "ready_ends s rs \<Longrightarrow> ready_ends (delayed M n c x s) rs"
proof -
  let ?t = "delayed M n c x s"
  have fresh: "heap_top s \<notin> set rs" "heap_top s \<notin> set ws" by (rule sched_inv_fresh [OF inv])+
  have wf: "heap_wf ?t" using inv c by (auto simp: sched_inv_def heap_wf_def delayed_def)
  have v: "same_vars s ?t" by (simp add: same_vars_def delayed_def)
  have i: "items ?t a = items s a" if "a \<in> set (rs @ ws)" for a using that fresh by (auto simp: delayed_def)
  have p: "is_pcb ?t q = is_pcb s q" for q using c by (auto simp: is_pcb_def delayed_def)
  show "sched_inv ?t rs ws" "map (proc_of ?t) rs = map (proc_of s) rs" "map (proc_of ?t) ws = map (proc_of s) ws"
    by (rule sched_inv_cong [OF inv v i p wf]; simp)+
  show "pid_of ?t p = pid_of s p" using c by (cases p) (simp_all add: pid_of_def rd_pcb_def hget_def delayed_def)
  show "ready_ends ?t rs" if "ready_ends s rs"
  proof (cases "rs = []")
    case False
    then have "last rs \<in> set (rs @ ws)" by simp
    with i that False show ?thesis by (simp add: ready_ends_def)
  qed (simp add: ready_ends_def)
qed

lemma DelayFunc_steps:
  assumes inv: "sched_inv s rs ws" "ready_ends s rs" and c: "curr_proc s = Some c" "pcbs s c = Some x"
    and out: "\<forall>a\<in>set rs. pid_of s (proc_of s a) \<noteq> pid_of s (Some c)" and n: "0 < n"
  shows "DelayFunc M n info s = rbind (PushItemToWaitingQueue (Some (heap_top s)) (delayed M n c x s)) (\<lambda>s.
     rbind (FindReadyPcb M s) (\<lambda>(s, next_pcb).
     Inr (s, Call_ContextSwitch SWITCH_EXIST (curr_proc s) next_pcb (K_DelayFunc info))))"
proof -
  let ?t = "delayed M n c x s"
  note d = delayed_sched_inv [OF inv(1) c, of M n]
  have "proc_of ?t a = proc_of s a" if "a \<in> set rs" for a using d(2) that by simp
  then have "\<forall>a\<in>set rs. pid_of ?t (proc_of ?t a) \<noteq> pid_of ?t (Some c)" using out d(4) by simp
  moreover have "is_pcb ?t (Some c)" by (simp add: is_pcb_def delayed_def)
  ultimately have "RemoveProcFromReadyQueue M (Some c) ?t = Inr ?t"
    using d(1) d(5) [OF inv(2)] by (intro RemoveProc_absent_ok) (simp_all add: sched_inv_def)
  moreover have "rbind (wr_item (Some (heap_top s)) (\<lambda>i. i\<lparr>q_proc := curr_proc s, ticks_left := n\<rparr>) (malloc_item M s))
      (\<lambda>s. wr_pcb (curr_proc s) (delay_ticks_update (\<lambda>_. n)) s) = Inr ?t"
    using c by (simp add: malloc_item_def delayed_def)
  ultimately show ?thesis using n c by (simp add: DelayFunc_def malloc_item_def delayed_def)
qed

lemma DelayFunc_ok:
  assumes "sched_inv s rs ws" "ready_ends s rs" "curr_proc s = Some c"
    "\<forall>a\<in>set rs. pid_of s (proc_of s a) \<noteq> pid_of s (Some c)" "0 < n"
  shows "\<exists>s'. DelayFunc M n info s = Inr (s', Call_ContextSwitch SWITCH_EXIST (Some c)
        (next_ready s (map (proc_of s) rs)) (K_DelayFunc info)) \<and>
      sched_inv s' (tl rs) (ws @ [heap_top s]) \<and>
      map (proc_of s') (ws @ [heap_top s]) = map (proc_of s) ws @ [Some c] \<and>
      map (proc_of s') (tl rs) = tl (map (proc_of s) rs) \<and>
      pcbs s' = (pcbs s)(c := map_option (delay_ticks_update (\<lambda>_. n)) (pcbs s c))"
proof -
  obtain x where x: "pcbs s c = Some x" using assms(1,3) by (auto simp: sched_inv_def is_pcb_def)
  let ?t = "delayed M n c x s"
  let ?i = "(junk_item M (heap_top s))\<lparr>q_proc := Some c, ticks_left := n\<rparr>"
  note d = delayed_sched_inv [OF assms(1,3) x, of M n]
  have fresh: "heap_top s \<notin> set rs" "heap_top s \<notin> set ws" by (rule sched_inv_fresh [OF assms(1)])+
  have i: "items ?t (heap_top s) = Some ?i" "is_pcb ?t (q_proc ?i)" by (simp_all add: delayed_def is_pcb_def)
  obtain u where u: "PushItemToWaitingQueue (Some (heap_top s)) ?t = Inr u" "sched_inv u rs (ws @ [heap_top s])"
      "same_but_wait ?t u" "map (proc_of u) rs = map (proc_of ?t) rs"
      "map (proc_of u) (ws @ [heap_top s]) = map (proc_of ?t) ws @ [Some c]"
    using sched_inv_wait_push [OF d(1) i(1) fresh i(2)] by auto
  note w = same_but_waitD [OF u(3)]
  obtain v where v: "FindReadyPcb M u = Inr (v, next_ready u (map (proc_of u) rs))" "sched_inv v (tl rs) (ws @ [heap_top s])"
      "map (proc_of v) (tl rs) = tl (map (proc_of u) rs)" "map (proc_of v) (ws @ [heap_top s]) = map (proc_of u) (ws @ [heap_top s])"
      "only_ready u v"
    using sched_inv_pop [OF u(2), of M] by blast
  note f = only_readyD [OF v(5)]
  have mp: "map (proc_of u) rs = map (proc_of s) rs" "map (proc_of u) (ws @ [heap_top s]) = map (proc_of s) ws @ [Some c]"
    using u(4,5) d(2,3) by simp_all
  have nr: "next_ready u (map (proc_of s) rs) = next_ready s (map (proc_of s) rs)"
    using w by (simp add: next_ready_def delayed_def split: list.split)
  have run: "DelayFunc M n info s = Inr (v, Call_ContextSwitch SWITCH_EXIST (Some c)
      (next_ready s (map (proc_of s) rs)) (K_DelayFunc info))"
    using DelayFunc_steps [OF assms(1-3) x assms(4,5), of M info] u(1) v(1) f w mp nr assms(3)
    by (simp add: delayed_def)
  moreover have "pcbs v = (pcbs s)(c := map_option (delay_ticks_update (\<lambda>_. n)) (pcbs s c))"
    using f w x by (simp add: delayed_def)
  ultimately show ?thesis using v mp by auto
qed

section \<open>One clock interrupt\<close>

lemma TrapClock_no_wake:
  assumes "sched_inv s rs ws" "distinct (map (proc_of s) ws)" "\<forall>a\<in>set ws. has_ticks s (proc_of s a)"
  shows "TrapClockHandler M info s = rbind (Tick M (ticked (proc_of s ` set ws) s)) (\<lambda>s'. Inr (s', Ret info))"
proof -
  have w: "waiting_queue_head s = lead ws NULL" "wq.dseg (items s) NULL ws NULL"
    using assms(1) by (simp_all add: sched_inv_def wait_q_def wq.dlist_def)
  have "clock_walk M (lead ws NULL) s = Inr (ticked (proc_of s ` set ws) s, NULL, None)"
    unfolding clock_walk_def clock_skip [OF w(2) assms(2,3)] by (simp add: while_res_unfold)
  then show ?thesis using w(1) by (simp add: TrapClockHandler_def TrapClock_from_def)
qed

lemma TrapClock_wake:
  assumes "sched_inv s rs (as @ a # bs)" "distinct (map (proc_of s) (as @ [a]))"
    "\<forall>b\<in>set as. has_ticks s (proc_of s b)" "proc_of s a = Some c" "pcbs s c = Some x" "delay_ticks x \<le> 1"
  shows "\<exists>s'. TrapClockHandler M info s =
      Inr (s', Call_ContextSwitch SWITCH_EXIST (curr_proc s) (Some c) (K_TrapClock info (Some a))) \<and>
    sched_inv s' (rs @ [heap_top s]) (as @ bs) \<and> curr_proc s' = curr_proc s \<and>
    map (proc_of s') (rs @ [heap_top s]) = map (proc_of s) rs @ [Some c] \<and>
    map (proc_of s') (as @ bs) = map (proc_of s) (as @ bs) \<and>
    items s' a = Option.bind (items s a) (freed_item M)"
proof -
  let ?w = "while_res (\<lambda>(s, item, target). item \<noteq> NULL \<and> target = None) (clock_body M)"
  let ?t = "ticked (proc_of s ` set as) s" and ?x = "x\<lparr>delay_ticks := delay_ticks x - 1\<rparr>"
  let ?u = "?t\<lparr>pcbs := (pcbs ?t)(c \<mapsto> ?x)\<rparr>"
  have w: "waiting_queue_head s = lead as (Some a)" "wq.dseg (items s) NULL as (Some a)"
    using assms(1) by (simp_all add: sched_inv_def wait_q_def wq.dlist_def)
  have "Some c \<notin> proc_of s ` set as" using assms(2,4) by auto
  then have tc: "pcbs ?t c = Some x" using assms(5) by simp
  obtain i where i: "items s a = Some i" "q_proc i = Some c"
    using wait_q_cell [of s as a bs] assms(1,4) by (auto simp: sched_inv_def proc_of_def)
  have "heap_wf ?t" using assms(1) by (simp add: sched_inv_def)
  then have "heap_wf ?u" using tc by (auto simp: heap_wf_def)
  then have su: "sched_inv ?u rs (as @ a # bs)"
    by (intro sched_inv_cong(1) [OF sched_inv_ticked [OF assms(1)]])
      (use tc in \<open>auto simp: same_vars_def is_pcb_def\<close>)
  obtain v where v: "RemoveItemFromWaitingQueue M (Some a) ?u = Inr v" "sched_inv v rs (as @ bs)" "same_but_wait ?u v"
      "map (proc_of v) rs = map (proc_of ?u) rs" "map (proc_of v) (as @ bs) = map (proc_of ?u) (as @ bs)"
      "items v a = Option.bind (items ?u a) (freed_item M)"
    using sched_inv_wait_remove [OF su] by blast
  note f = same_but_waitD [OF v(3)]
  have pc: "is_pcb v (Some c)" using f by (simp add: is_pcb_def)
  note p = sched_inv_push [OF v(2) pc, of M]
  let ?z = "pushed M (Some c) rs v"
  have "is_pcb v (curr_proc v)" using v(2) by (simp add: sched_inv_def)
  then obtain d y where d: "curr_proc s = Some d" "pcbs v d = Some y" using f by (auto simp: is_pcb_def)
  have "clock_body M (?t, Some a, None) = Inr (?z, Some a, Some (Some c))"
    using i tc assms(6) v(1) p(1) d f by (simp add: clock_body_def Let_def pushed_def)
  then have "?w (?t, Some a, None) = Inr (?z, Some a, Some (Some c))"
    by (subst while_res_unfold) (simp add: while_res_unfold)
  then have run: "TrapClockHandler M info s =
      Inr (?z, Call_ContextSwitch SWITCH_EXIST (curr_proc s) (Some c) (K_TrapClock info (Some a)))"
    using clock_skip [OF w(2) _ assms(3), of M] assms(2) w(1) f
    by (simp add: TrapClockHandler_def TrapClock_from_def clock_walk_def)
  have pu: "proc_of ?u = proc_of s" by (simp add: fun_eq_iff proc_of_def)
  have "a \<noteq> heap_top v" "a \<notin> set rs" using assms(1) i f by (auto simp: sched_inv_def heap_wf_def)
  with p(5) v(6) have "items ?z a = Option.bind (items s a) (freed_item M)" by simp
  with run p v(4,5) pu f show ?thesis by (intro exI [of _ ?z]) simp
qed

section \<open>Properties of delays and the clock\<close>

text \<open>C14: \<open>Delay\<close> on every argument. Zero returns 0 and a negative number \<open>ERROR\<close> at once, without any
  effect; a positive number puts the process at the end of the delay queue with that many ticks to go
  and switches to the first ready process, or to idle.\<close>

theorem DelayFunc_blocks:
  assumes "sched_inv s rs ws" "ready_ends s rs" "curr_proc s = Some c"
    "\<forall>a\<in>set rs. pid_of s (proc_of s a) \<noteq> pid_of s (Some c)"
  shows "if n \<le> 0 then DelayFunc M n info s = Inr (s, Ret (if n = 0 then 0 else ERROR))
    else \<exists>s'. DelayFunc M n info s = Inr (s', Call_ContextSwitch SWITCH_EXIST (Some c)
          (next_ready s (map (proc_of s) rs)) (K_DelayFunc info)) \<and>
      sched_inv s' (tl rs) (ws @ [heap_top s]) \<and>
      map (proc_of s') (ws @ [heap_top s]) = map (proc_of s) ws @ [Some c] \<and>
      map (proc_of s') (tl rs) = tl (map (proc_of s) rs) \<and> map_option delay_ticks (pcbs s' c) = Some n"
proof (cases "n \<le> 0")
  case False
  moreover obtain x where "pcbs s c = Some x" using assms(1,3) by (auto simp: sched_inv_def is_pcb_def)
  ultimately show ?thesis using DelayFunc_ok [OF assms, of n M info] by auto
qed (auto simp: DelayFunc_def)

lemma demo_ready_inv: "sched_inv demo_ready [4] []"
  using demo_ready_q by (simp add: sched_inv_def wait_q_def demo_ready_def demo_def blank_def)

theorem DelayFunc_blocks_witness:
  "\<exists>s'. DelayFunc tiny 3 zero_info demo_ready =
     Inr (s', Call_ContextSwitch SWITCH_EXIST (Some 2) (Some 3) (K_DelayFunc zero_info)) \<and>
     map (proc_of s') [10] = [Some 2] \<and> map_option delay_ticks (pcbs s' 2) = Some 3"
proof -
  have c: "curr_proc demo_ready = Some 2" "heap_top demo_ready = 10" by (simp_all add: demo_ready_def demo_def)
  have "\<forall>a\<in>set [4]. pid_of demo_ready (proc_of demo_ready a) \<noteq> pid_of demo_ready (Some 2)"
    by (simp add: demo_ready_q demo_ready_pids)
  from DelayFunc_blocks [OF demo_ready_inv demo_ready_q(2) c(1) this, of 3 tiny zero_info] show ?thesis
    using c demo_ready_q(6) by (auto simp: next_ready_def)
qed

text \<open>C29: a clock interrupt that ends no delay. Every process in the delay queue has one tick less to
  go, nothing else changes in the pass over the queue, and the handler goes on to \<open>Tick_\<close>.\<close>

theorem TrapClock_counts_down:
  assumes "sched_inv s rs ws" "distinct (map (proc_of s) ws)" "\<forall>a\<in>set ws. has_ticks s (proc_of s a)"
  shows "TrapClockHandler M info s =
    rbind (Tick M (s\<lparr>pcbs := \<lambda>c. if Some c \<in> proc_of s ` set ws
        then map_option (delay_ticks_update (\<lambda>d. d - 1)) (pcbs s c) else pcbs s c\<rparr>)) (\<lambda>s'. Inr (s', Ret info))"
  using TrapClock_no_wake [OF assms] by (simp add: ticked_def)

text \<open>Processes 3 and 1 in the delay queue, with \<open>d\<close> and 5 ticks to go.\<close>

definition demo_clock :: "int \<Rightarrow> kstate" where
  "demo_clock d = demo_wait\<lparr>pcbs := (pcbs demo_wait)(3 \<mapsto> zero_pcb\<lparr>process_id := 2, delay_ticks := d\<rparr>,
     1 \<mapsto> zero_pcb\<lparr>delay_ticks := 5\<rparr>)\<rparr>"

lemma demo_clock_facts:
  "sched_inv (demo_clock d) [] [4, 5]" "proc_of (demo_clock d) 4 = Some 3" "proc_of (demo_clock d) 5 = Some 1"
  "\<exists>x. pcbs (demo_clock d) 3 = Some x \<and> delay_ticks x = d" "has_ticks (demo_clock d) (Some 1)"
  "curr_proc (demo_clock d) = Some 2" "heap_top (demo_clock d) = 10" "ticks_passed (demo_clock d) = 0"
  "\<exists>x. pcbs (demo_clock d) 1 = Some x \<and> delay_ticks x = 5"
  by (simp_all add: sched_inv_def ready_q_def wait_q_def wq.dlist_def heap_wf_def is_pcb_def proc_of_def has_ticks_def
      demo_clock_def demo_wait_def demo_def blank_def zero_item_def)

theorem TrapClock_counts_down_witness:
  "\<exists>s'. TrapClockHandler tiny zero_info (demo_clock 2) = Inr (s', Ret zero_info) \<and>
    map (\<lambda>c. map_option delay_ticks (pcbs s' c)) [3, 1] = [Some 1, Some 4]"
proof -
  have h: "\<forall>a\<in>set [4, 5]. has_ticks (demo_clock 2) (proc_of (demo_clock 2) a)"
    using demo_clock_facts(4,5) [of 2] by (auto simp: demo_clock_facts(2,3) has_ticks_def)
  obtain x y where xy: "pcbs (demo_clock 2) 3 = Some x" "delay_ticks x = 2" "pcbs (demo_clock 2) 1 = Some y" "delay_ticks y = 5"
    using demo_clock_facts(4,9) [of 2] by blast
  have d: "distinct (map (proc_of (demo_clock 2)) [4, 5])" by (simp add: demo_clock_facts)
  from TrapClock_counts_down [OF demo_clock_facts(1) d h, of tiny zero_info] xy show ?thesis
    by (simp add: demo_clock_facts(2,3,8) Tick_def Let_def)
qed

text \<open>C22: a clock interrupt that ends the delay of a process \<open>c\<close>. The process leaves the delay queue and
  goes to the end of the ready queue, and the kernel switches to it at once, whatever was ready before
  it. So it runs while it is still in the ready queue, the interrupted process is in neither queue,
  and the interrupted handler will go on from a queue item that has been freed.\<close>

theorem TrapClock_wakes_process:
  assumes "sched_inv s rs (as @ a # bs)" "distinct (map (proc_of s) (as @ [a]))"
    "\<forall>b\<in>set as. has_ticks s (proc_of s b)" "proc_of s a = Some c" "pcbs s c = Some x" "delay_ticks x \<le> 1"
  shows "\<exists>s'. TrapClockHandler M info s =
      Inr (s', Call_ContextSwitch SWITCH_EXIST (curr_proc s) (Some c) (K_TrapClock info (Some a))) \<and>
    sched_inv s' (rs @ [heap_top s]) (as @ bs) \<and> curr_proc s' = curr_proc s \<and>
    map (proc_of s') (rs @ [heap_top s]) = map (proc_of s) rs @ [Some c] \<and>
    map (proc_of s') (as @ bs) = map (proc_of s) (as @ bs) \<and>
    items s' a = Option.bind (items s a) (freed_item M)"
  by (rule TrapClock_wake [OF assms])

theorem TrapClock_wakes_process_witness:
  "\<exists>s'. TrapClockHandler tiny zero_info (demo_clock 1) =
      Inr (s', Call_ContextSwitch SWITCH_EXIST (Some 2) (Some 3) (K_TrapClock zero_info (Some 4))) \<and>
    map (proc_of s') [10] = [Some 3] \<and> map (proc_of s') [5] = [Some 1] \<and> items s' 4 = None"
proof -
  obtain x where x: "pcbs (demo_clock 1) 3 = Some x" "delay_ticks x = 1" using demo_clock_facts(4) [of 1] by auto
  have s: "sched_inv (demo_clock 1) [] ([] @ 4 # [5])" using demo_clock_facts(1) by simp
  obtain i where "items (demo_clock 1) 4 = Some i" by (simp add: demo_clock_def demo_wait_def)
  with TrapClock_wakes_process [OF s _ _ demo_clock_facts(2) x(1), of tiny zero_info] x show ?thesis
    by (auto simp: demo_clock_facts tiny_def)
qed

text \<open>C34: the quantum. Until the current process has been running for more than two ticks nothing but
  the tick count changes. After that, if a process is ready, the first one becomes the current
  process, the old one goes to the end of the queue and the count starts again at 0. But this is all
  that happens: no context is saved, the page table register keeps the table of the old process and
  no register is written, so the processor goes on running the old process.\<close>

theorem Tick_quantum:
  assumes "ready_repr s ps"
  shows "if ticks_passed s < 2 \<or> ps = [] then Tick M s = Inr (s\<lparr>ticks_passed := ticks_passed s + 1\<rparr>)
    else \<exists>s'. Tick M s = Inr s' \<and> ticks_passed s' = 0 \<and> curr_proc s' = hd ps \<and>
      ready_repr s' (tl ps @ [curr_proc s]) \<and> pcbs s' = pcbs s \<and> reg_ptr0 s' = reg_ptr0 s \<and> reg_log s' = reg_log s"
proof -
  let ?t = "s\<lparr>ticks_passed := ticks_passed s + 1\<rparr>"
  have r: "ready_repr ?t ps"
    by (rule ready_repr_cong [OF assms]) (use assms in \<open>auto simp: ready_repr_def heap_wf_def is_pcb_def\<close>)
  show ?thesis
  proof (cases "ticks_passed s < 2 \<or> ps = []")
    case True
    then show ?thesis using SetNextProc_cases(2) [of ?t M] r by (auto simp: Tick_def Let_def)
  next
    case False
    then obtain p qs where ps: "ps = p # qs" by (cases ps) auto
    obtain u where u: "SetNextProc M ?t = Inr (u, 1)" "curr_proc u = p" "ready_repr u (qs @ [curr_proc s])"
        "pcbs u = pcbs s" "reg_ptr0 u = reg_ptr0 s" "reg_log u = reg_log s"
      using SetNextProc_step [of ?t p qs M] r ps by auto
    have "ready_repr (u\<lparr>ticks_passed := 0\<rparr>) (qs @ [curr_proc s])"
      by (rule ready_repr_cong [OF u(3)]) (use u(3) in \<open>auto simp: ready_repr_def heap_wf_def is_pcb_def\<close>)
    with False ps u show ?thesis by (auto simp: Tick_def Let_def)
  qed
qed

theorem Tick_quantum_witness:
  "\<exists>s'. Tick tiny (demo_ready\<lparr>ticks_passed := 2\<rparr>) = Inr s' \<and> ticks_passed s' = 0 \<and> curr_proc s' = Some 3 \<and>
    reg_ptr0 s' = reg_ptr0 demo_ready"
proof -
  have "ready_repr demo_ready [Some 3]"
    using demo_ready_q demo_ready_inv by (auto simp: ready_repr_def ready_procs_def sched_inv_def)
  then have "ready_repr (demo_ready\<lparr>ticks_passed := 2\<rparr>) [Some 3]"
    by (rule ready_repr_cong) (use demo_ready_q(3) in \<open>auto simp: heap_wf_def is_pcb_def\<close>)
  from Tick_quantum [OF this, of tiny] show ?thesis by auto
qed

end
