(* ===== verification/Clock.thy ===== *)
theory Clock
  imports Sched
begin

text \<open>
  How long a delay lasts: runs of several clock interrupts (src/handlers.c, src/delay.c), from the call of
  \<open>DelayFunc\<close> to the interrupt that wakes the process.
\<close>

section \<open>A clock interrupt and the delay queue\<close>

text \<open>The delays of the processes in the queue.\<close>

definition ticks :: "kstate \<Rightarrow> nat \<Rightarrow> int option" where
  "ticks s a = (case proc_of s a of None \<Rightarrow> None | Some c \<Rightarrow> map_option delay_ticks (pcbs s c))"

lemma Tick_keeps_waiting:
  assumes "sched_inv s rs ws"
  shows "\<exists>s' rs'. Tick M s = Inr s' \<and> sched_inv s' rs' ws \<and> pcbs s' = pcbs s \<and> map (proc_of s') ws = map (proc_of s) ws"
proof -
  let ?t = "s\<lparr>ticks_passed := ticks_passed s + 1\<rparr>"
  have same: "sched_inv u qs ws \<Longrightarrow> sched_inv (u\<lparr>ticks_passed := n\<rparr>) qs ws" for u qs n
    by (rule sched_inv_cong(1)) (auto simp: sched_inv_def same_vars_def heap_wf_def is_pcb_def)
  have t: "sched_inv ?t rs ws" by (rule same [OF assms])
  show ?thesis
  proof (cases "ticks_passed s < 2")
    case True
    then show ?thesis using t by (intro exI [of _ ?t] exI [of _ rs]) (simp add: Tick_def Let_def proc_of_def)
  next
    case False
    show ?thesis
    proof (cases rs)
      case Nil
      then have "SetNextProc M ?t = Inr (?t, - 1)" using t by (simp add: sched_inv_def ready_q_def SetNextProc_def)
      then show ?thesis using False t by (intro exI [of _ ?t] exI [of _ rs]) (simp add: Tick_def Let_def proc_of_def)
    next
      case (Cons a as)
      then have q: "ready_q ?t (a # as)" "heap_wf ?t" "is_pcb ?t (curr_proc ?t)" using t by (simp_all add: sched_inv_def)
      let ?p = "pushed M (curr_proc ?t) (a # as) ?t" and ?u = "rotated M a as ?t"
      have p: "sched_inv ?p (rs @ [heap_top ?t]) ws" "map (proc_of ?p) ws = map (proc_of ?t) ws" "only_ready ?t ?p"
        using sched_inv_push [OF t q(3), of M] only_ready_pushed [of ?t M "curr_proc ?t" "a # as"] Cons by simp_all
      note f = only_readyD [OF p(3)]
      have "is_pcb ?t (proc_of ?t a)" using q(1) by (simp add: ready_q_def)
      moreover have it: "items ?u = items ?p" "pcbs ?u = pcbs ?p" "exiteds ?u = exiteds ?p" "lines ?u = lines ?p"
        "heap_top ?u = heap_top ?p" "waiting_queue_head ?u = waiting_queue_head ?p"
        "waiting_queue_tail ?u = waiting_queue_tail ?p" "waiting_queue_size ?u = waiting_queue_size ?p" "curr_proc ?u = proc_of ?t a"
        by (simp_all add: rotated_def)
      ultimately have "is_pcb ?u (curr_proc ?u)" using f(1) by (simp add: is_pcb_def)
      moreover have "wait_q ?u ws" "heap_wf ?u"
        using p(1) it wait_q_cong(1) [of ?p ws ?u] by (simp_all add: sched_inv_def heap_wf_def is_pcb_def)
      moreover have "set (as @ [heap_top ?t]) \<inter> set ws = {}" using p(1) Cons by (auto simp: sched_inv_def)
      ultimately have u: "sched_inv ?u (as @ [heap_top ?t]) ws"
        using ready_q_rotated [OF q] by (simp add: sched_inv_def)
      moreover have "proc_of ?u = proc_of ?p" using it(1) by (simp add: fun_eq_iff proc_of_def)
      then have "map (proc_of ?u) ws = map (proc_of s) ws" using p(2) by (simp add: proc_of_def)
      ultimately show ?thesis
        using False SetNextProc_eq [OF q] same [OF u, of 0] it(2) f Cons
        by (intro exI [of _ "?u\<lparr>ticks_passed := 0\<rparr>"] exI [of _ "as @ [heap_top ?t]"]) (simp add: Tick_def Let_def proc_of_def)
    qed
  qed
qed
section \<open>Runs with several clock interrupts\<close>

text \<open>
  What happens between two clock interrupts: anything that leaves the delay queue and the delays of the
  processes in it as they are. \<open>quiet_ticks\<close> is a run of the machine with \<open>k\<close> clock interrupts that all
  return to the interrupted process.
\<close>

definition calm :: "nat list \<Rightarrow> kstate \<Rightarrow> kstate \<Rightarrow> bool" where
  "calm ws s s' \<longleftrightarrow> (\<exists>rs. sched_inv s' rs ws) \<and> map (proc_of s') ws = map (proc_of s) ws \<and> map (ticks s') ws = map (ticks s) ws"

inductive quiet_ticks :: "machine \<Rightarrow> nat list \<Rightarrow> nat \<Rightarrow> kstate \<Rightarrow> kstate \<Rightarrow> bool" for M ws where
  quiet_start: "quiet_ticks M ws 0 s s"
| quiet_clock: "quiet_ticks M ws k s s1 \<Longrightarrow> TrapClockHandler M info s1 = Inr (s2, Ret info) \<Longrightarrow> quiet_ticks M ws (Suc k) s s2"
| quiet_calm: "quiet_ticks M ws k s s1 \<Longrightarrow> calm ws s1 s2 \<Longrightarrow> quiet_ticks M ws k s s2"

lemma has_ticks_iff: "has_ticks s (proc_of s a) \<longleftrightarrow> (\<exists>d. ticks s a = Some d \<and> 1 < d)"
  by (auto simp: has_ticks_def ticks_def split: option.splits)

lemma ticks_ticked: "a \<in> set ws \<Longrightarrow> ticks (ticked (proc_of s ` set ws) s) a = map_option (\<lambda>d. d - 1) (ticks s a)"
proof -
  assume "a \<in> set ws"
  then have "proc_of s a \<in> proc_of s ` set ws" by simp
  moreover have "proc_of (ticked (proc_of s ` set ws) s) a = proc_of s a" by simp
  ultimately show ?thesis unfolding ticks_def by (cases "proc_of s a"; cases "pcbs s (the (proc_of s a))") (auto simp: ticked_def)
qed

lemma clock_returns:
  assumes "sched_inv s rs ws" "distinct (map (proc_of s) ws)" "\<forall>b\<in>set ws. \<exists>d. ticks s b = Some d \<and> 1 < d"
  shows "\<exists>s'. TrapClockHandler M info s = Inr (s', Ret info) \<and> (\<exists>rs'. sched_inv s' rs' ws) \<and>
    map (proc_of s') ws = map (proc_of s) ws \<and> (\<forall>b\<in>set ws. ticks s' b = map_option (\<lambda>d. d - 1) (ticks s b))"
proof -
  let ?t = "ticked (proc_of s ` set ws) s"
  obtain u rs' where u: "Tick M ?t = Inr u" "sched_inv u rs' ws" "pcbs u = pcbs ?t" "map (proc_of u) ws = map (proc_of ?t) ws"
    using Tick_keeps_waiting [OF sched_inv_ticked [OF assms(1)]] by blast
  have "TrapClockHandler M info s = Inr (u, Ret info)"
    using TrapClock_no_wake [OF assms(1,2), of M info] assms(3) u(1) by (simp add: has_ticks_iff)
  moreover have m: "map (proc_of u) ws = map (proc_of s) ws" using u(4) by simp
  moreover have "ticks u b = map_option (\<lambda>d. d - 1) (ticks s b)" if "b \<in> set ws" for b
  proof -
    have "proc_of u b = proc_of ?t b" using u(4) that by simp
    then have "ticks u b = ticks ?t b" unfolding ticks_def u(3) by (rule arg_cong)
    with ticks_ticked [OF that] show ?thesis by simp
  qed
  ultimately show ?thesis using u(2) by blast
qed

lemma clock_wakes:
  assumes "sched_inv s rs (as @ [a])" "distinct (map (proc_of s) (as @ [a]))" "\<forall>b\<in>set as. \<exists>d. ticks s b = Some d \<and> 1 < d"
    "ticks s a = Some d" "d \<le> 1"
  shows "\<exists>s'. TrapClockHandler M info s =
    Inr (s', Call_ContextSwitch SWITCH_EXIST (curr_proc s) (proc_of s a) (K_TrapClock info (Some a)))"
proof -
  obtain c x where "proc_of s a = Some c" "pcbs s c = Some x" "delay_ticks x = d"
    using assms(4) by (auto simp: ticks_def split: option.splits)
  with TrapClock_wake [of s rs as a "[]" c x M info] assms show ?thesis by (auto simp: has_ticks_iff)
qed

lemma more_left:
  assumes "\<forall>b\<in>A. \<exists>d. f b = Some d \<and> n < d" "int k < n" "\<And>b. b \<in> A \<Longrightarrow> g b = map_option (\<lambda>d. d - int k) (f b)"
  shows "\<forall>b\<in>A. \<exists>d. g b = Some d \<and> 1 < d"
proof
  fix b assume b: "b \<in> A"
  then obtain d where "f b = Some d" "n < d" using assms(1) by blast
  then show "\<exists>d. g b = Some d \<and> 1 < d" using assms(2,3) b by simp
qed

lemma quiet_ticks_delays:
  assumes "quiet_ticks M ws k s0 s" "ws = as @ [a]" "\<exists>rs. sched_inv s0 rs ws" "distinct (map (proc_of s0) ws)"
    "ticks s0 a = Some n" "0 < n" "\<forall>b\<in>set as. \<exists>d. ticks s0 b = Some d \<and> n < d"
  shows "int k < n \<and> (\<exists>rs. sched_inv s rs ws) \<and> map (proc_of s) ws = map (proc_of s0) ws \<and>
    (\<forall>b\<in>set ws. ticks s b = map_option (\<lambda>d. d - int k) (ticks s0 b))"
  using assms
proof (induction rule: quiet_ticks.induct)
  case (quiet_start s)
  then show ?case by (auto simp: option.map_ident)
next
  case (quiet_clock k s s1 info s2)
  then obtain rs where IH: "int k < n" "sched_inv s1 rs ws" "map (proc_of s1) ws = map (proc_of s) ws"
      "\<And>b. b \<in> set ws \<Longrightarrow> ticks s1 b = map_option (\<lambda>d. d - int k) (ticks s b)" by blast
  have d: "distinct (map (proc_of s1) ws)" unfolding IH(3) by (rule quiet_clock.prems(3))
  have as: "\<forall>b\<in>set as. \<exists>d. ticks s1 b = Some d \<and> 1 < d"
    by (rule more_left [OF quiet_clock.prems(6) IH(1,4)]) (simp add: quiet_clock.prems(1))
  have a: "ticks s1 a = Some (n - int k)" using IH(4) quiet_clock.prems(1,4) by simp
  show ?case
  proof (cases "int k + 1 < n")
    case True
    have "\<forall>b\<in>set ws. \<exists>d. ticks s1 b = Some d \<and> 1 < d" using as a True quiet_clock.prems(1) by simp
    from clock_returns [OF IH(2) d this, of M info] quiet_clock.hyps(2)
    have s2: "\<exists>rs. sched_inv s2 rs ws" "map (proc_of s2) ws = map (proc_of s1) ws"
        "\<And>b. b \<in> set ws \<Longrightarrow> ticks s2 b = map_option (\<lambda>d. d - 1) (ticks s1 b)" by auto
    have "ticks s2 b = map_option (\<lambda>d. d - int (Suc k)) (ticks s b)" if "b \<in> set ws" for b
      unfolding s2(3) [OF that] IH(4) [OF that] by (simp add: option.map_comp comp_def algebra_simps)
    with True s2 IH(3) show ?thesis by auto
  next
    case False
    then have "n - int k \<le> 1" using IH(1) by simp
    from clock_wakes [OF _ _ as a this, of rs M info] IH(2) d quiet_clock.prems(1) quiet_clock.hyps(2) show ?thesis by simp
  qed
next
  case (quiet_calm k s s1 s2)
  then have IH: "int k < n" "map (proc_of s1) ws = map (proc_of s) ws"
      "\<And>b. b \<in> set ws \<Longrightarrow> ticks s1 b = map_option (\<lambda>d. d - int k) (ticks s b)" by blast+
  have "\<And>b. b \<in> set ws \<Longrightarrow> ticks s2 b = ticks s1 b" using quiet_calm.hyps(2) by (simp add: calm_def)
  with IH quiet_calm.hyps(2) show ?case by (auto simp: calm_def)
qed

section \<open>The length of a delay\<close>

text \<open>C11: a process that calls \<open>Delay(n)\<close> is woken by the \<open>n\<close>th clock interrupt after the call, and by no
  earlier one, if no process in the delay queue is due by then: after \<open>k\<close> interrupts that all returned,
  \<open>k\<close> is below \<open>n\<close>, the next one returns as long as fewer than \<open>n\<close> have come, and the \<open>n\<close>th switches to
  the process. Between the interrupts any kernel call may run that leaves the delay queue alone.\<close>

theorem Delay_lasts:
  assumes "sched_inv s rs ws" "ready_ends s rs" "curr_proc s = Some c"
    "\<forall>a\<in>set rs. pid_of s (proc_of s a) \<noteq> pid_of s (Some c)" "0 < n"
    "distinct (map (proc_of s) ws @ [Some c])" "\<forall>b\<in>set ws. \<exists>d. ticks s b = Some d \<and> n < d"
    "DelayFunc M n info s = Inr (s0, fl)" "quiet_ticks M (ws @ [heap_top s]) k s0 s1"
  shows "\<exists>s2. TrapClockHandler M info1 s1 = Inr (s2, if int k + 1 < n then Ret info1
      else Call_ContextSwitch SWITCH_EXIST (curr_proc s1) (Some c) (K_TrapClock info1 (Some (heap_top s)))) \<and> int k < n"
proof -
  have s0: "sched_inv s0 (tl rs) (ws @ [heap_top s])" "map (proc_of s0) ws = map (proc_of s) ws" "proc_of s0 (heap_top s) = Some c"
      "pcbs s0 = (pcbs s)(c := map_option (delay_ticks_update (\<lambda>_. n)) (pcbs s c))"
    using DelayFunc_ok [OF assms(1-5), of M info] assms(8) by auto
  have s00: "\<exists>rs'. sched_inv s0 rs' (ws @ [heap_top s])" using s0(1) by blast
  have dc: "distinct (map (proc_of s0) (ws @ [heap_top s]))"
  proof -
    have "map (proc_of s0) (ws @ [heap_top s]) = map (proc_of s) ws @ [Some c]" using s0(2,3) by simp
    then show ?thesis using assms(6) by (simp only:)
  qed
  have "is_pcb s (Some c)" using assms(1,3) by (simp add: sched_inv_def)
  then have t: "ticks s0 (heap_top s) = Some n" using s0(3,4) by (auto simp: ticks_def is_pcb_def)
  have "ticks s0 b = ticks s b" if "b \<in> set ws" for b
  proof -
    have "proc_of s0 b = proc_of s b" "proc_of s b \<noteq> Some c" using s0(2) assms(6) that by (auto simp: image_iff)
    then show ?thesis using s0(4) by (auto simp: ticks_def split: option.split)
  qed
  with assms(7) have more0: "\<forall>b\<in>set ws. \<exists>d. ticks s0 b = Some d \<and> n < d" by simp
  from quiet_ticks_delays [OF assms(9) refl s00 dc t assms(5) more0]
  obtain rs1 where s1: "int k < n" "sched_inv s1 rs1 (ws @ [heap_top s])"
      "map (proc_of s1) (ws @ [heap_top s]) = map (proc_of s0) (ws @ [heap_top s])"
      "\<And>b. b \<in> set (ws @ [heap_top s]) \<Longrightarrow> ticks s1 b = map_option (\<lambda>d. d - int k) (ticks s0 b)" by auto
  have d: "distinct (map (proc_of s1) (ws @ [heap_top s]))" unfolding s1(3) by (rule dc)
  have more: "\<forall>b\<in>set ws. \<exists>d. ticks s1 b = Some d \<and> 1 < d"
    by (rule more_left [OF more0 s1(1,4)]) simp
  have me: "ticks s1 (heap_top s) = Some (n - int k)" "proc_of s1 (heap_top s) = Some c" using s1(3,4) t s0(3) by auto
  show ?thesis
  proof (cases "int k + 1 < n")
    case True
    then have "\<forall>b\<in>set (ws @ [heap_top s]). \<exists>d. ticks s1 b = Some d \<and> 1 < d" using more me by simp
    from clock_returns [OF s1(2) d this, of M info1] True s1(1) show ?thesis by auto
  next
    case False
    with clock_wakes [OF s1(2) d more me(1), of M info1] s1(1) me(2) show ?thesis by auto
  qed
qed


theorem Delay_lasts_witness:
  "\<exists>s0 fl s1 s2. DelayFunc tiny 2 zero_info demo_ready = Inr (s0, fl) \<and>
    TrapClockHandler tiny zero_info s0 = Inr (s1, Ret zero_info) \<and>
    TrapClockHandler tiny zero_info s1 =
      Inr (s2, Call_ContextSwitch SWITCH_EXIST (curr_proc s1) (Some 2) (K_TrapClock zero_info (Some 10)))"
proof -
  have c: "curr_proc demo_ready = Some 2" "heap_top demo_ready = 10" by (simp_all add: demo_ready_def demo_def)
  have p: "\<forall>a\<in>set [4]. pid_of demo_ready (proc_of demo_ready a) \<noteq> pid_of demo_ready (Some 2)"
    by (simp add: demo_ready_q demo_ready_pids)
  obtain s0 fl where s0: "DelayFunc tiny 2 zero_info demo_ready = Inr (s0, fl)"
    using DelayFunc_ok [OF demo_ready_inv demo_ready_q(2) c(1) p, of 2 tiny zero_info] by auto
  note d = Delay_lasts [OF demo_ready_inv demo_ready_q(2) c(1) p _ _ _ s0]
  have "quiet_ticks tiny [10] 0 s0 s0" by (rule quiet_start)
  from d [of 0 s0 zero_info] this obtain s1 where s1: "TrapClockHandler tiny zero_info s0 = Inr (s1, Ret zero_info)"
    by (auto simp: c)
  have "quiet_ticks tiny [10] (Suc 0) s0 s1" by (rule quiet_clock [OF quiet_start s1])
  from d [of "Suc 0" s1 zero_info] this s0 s1 show ?thesis by (auto simp: c)
qed

end
