(* ===== verification/Load.thy ===== *)
theory Load
  imports Memory
begin

text \<open>
  Loading a program into an address space: \<open>LoadProgram\<close> (src/load.c) in the stages of the source,
  and \<open>ExecFunc\<close> (src/exec.c).
\<close>

section \<open>The sizes of the new address space\<close>

record layout =
  text_npg :: int
  data_bss_npg :: int
  stack_npg :: int
  l_cp :: "64 word"
  l_cpp :: "64 word"

definition args_size :: "string list \<Rightarrow> nat" where
  "args_size args = sum_list (map (\<lambda>a. length a + 1) args)"

definition load_layout :: "machine \<Rightarrow> exe \<Rightarrow> string list \<Rightarrow> layout" where
  "load_layout M li args =
     (let cp = of_nat (USER_STACK_LIMIT M) - of_nat (args_size args);
          cpp = (push_bit 4 (drop_bit 4 cp)) - (of_nat (length args) + 4) * 8
      in \<lparr>text_npg = c_int (drop_bit (PAGESHIFT M) (text_size li)),
          data_bss_npg = c_int (drop_bit (PAGESHIFT M) (UP_TO_PAGE M (data_size li + bss_size li))),
          stack_npg = c_int (drop_bit (PAGESHIFT M) (of_nat (USER_STACK_LIMIT M) - DOWN_TO_PAGE M cpp)),
          l_cp = cp, l_cpp = cpp\<rparr>)"

definition fits_virtual :: "machine \<Rightarrow> layout \<Rightarrow> bool" where
  "fits_virtual M l \<longleftrightarrow>
     \<not> int (MEM_INVALID_PAGES M) + text_npg l + data_bss_npg l + 1 + stack_npg l + 1 + int (KERNEL_STACK_PAGES M)
       > int (PAGE_TABLE_LEN M)"

definition fits_physical :: "layout \<Rightarrow> kstate \<Rightarrow> bool" where
  "fits_physical l s \<longleftrightarrow> \<not> data_bss_npg l + text_npg l + stack_npg l > num_free_pages s"

section \<open>Releasing the old address space\<close>

definition free_old_page :: "machine \<Rightarrow> ptref \<Rightarrow> nat \<Rightarrow> kstate \<Rightarrow> kstate res" where
  "free_old_page M ptr0 currTable s =
     (if currTable < KERNEL_STACK_BASE M div PAGESIZE M \<or> KERNEL_STACK_LIMIT M < currTable
      then rbind (rd_pte s ptr0 (int currTable)) (\<lambda>e.
           if valid e
           then rbind (freePage (uint (pfn e)) s) (\<lambda>s.
                wr_pte ptr0 (int currTable) (valid_update (\<lambda>_. False)) s)
           else Inr s)
      else Inr s)"

definition load_free_old :: "machine \<Rightarrow> ptref \<Rightarrow> kstate \<Rightarrow> kstate res" where
  "load_free_old M ptr0 s = fold_res (free_old_page M ptr0) [0..<PAGE_TABLE_LEN M] s"

section \<open>Mapping the new address space\<close>

definition text_vpns :: "machine \<Rightarrow> layout \<Rightarrow> int list" where
  "text_vpns M l = [int (MEM_INVALID_PAGES M)..int (MEM_INVALID_PAGES M) + text_npg l - 1]"

definition data_vpns :: "machine \<Rightarrow> layout \<Rightarrow> int list" where
  "data_vpns M l = [int (MEM_INVALID_PAGES M) + text_npg l..int (MEM_INVALID_PAGES M) + text_npg l + data_bss_npg l - 1]"

definition stack_vpns :: "machine \<Rightarrow> layout \<Rightarrow> int list" where
  "stack_vpns M l =
     rev [int (USER_STACK_LIMIT M div PAGESIZE M) - stack_npg l..int (USER_STACK_LIMIT M div PAGESIZE M) - 1]"

definition load_map :: "machine \<Rightarrow> ptref \<Rightarrow> layout \<Rightarrow> kstate \<Rightarrow> kstate res" where
  "load_map M ptr0 l s =
     rbind (fold_res (\<lambda>i. wr_pte ptr0 (int i) (valid_update (\<lambda>_. False))) [0..<MEM_INVALID_PAGES M] s) (\<lambda>s.
     rbind (fold_res (setup_pte ptr0 {PROT_READ, PROT_EXEC} {PROT_READ, PROT_WRITE}) (text_vpns M l) s) (\<lambda>s.
     rbind (fold_res (setup_pte ptr0 {PROT_READ, PROT_WRITE} {PROT_READ, PROT_WRITE}) (data_vpns M l) s) (\<lambda>s.
     rbind (fold_res (setup_pte ptr0 {PROT_READ, PROT_WRITE} {PROT_READ, PROT_WRITE}) (stack_vpns M l) s) (\<lambda>s.
     rbind (wr_pcb (curr_proc s)
              (sp_update (\<lambda>_. c_ulong (int (USER_STACK_LIMIT M div PAGESIZE M) - stack_npg l))) s) (\<lambda>s.
     Inr (WriteRegister (REG_TLB_FLUSH TLB_FLUSH_0) s))))))"

section \<open>Filling it\<close>

text \<open>Reading text and data from the file; the flag says whether all of it could be read.\<close>

definition load_image :: "machine \<Rightarrow> exe \<Rightarrow> kstate \<Rightarrow> (kstate \<times> bool) res" where
  "load_image M li s =
     (let n = text_size li + data_size li; r = read_ret li n in
      rbind (store_bytes M (MEM_INVALID_PAGES M * PAGESIZE M) (take (nat r) (image li)) s) (\<lambda>s.
      Inr (s, r = c_int n)))"

definition load_protect :: "machine \<Rightarrow> exe \<Rightarrow> ptref \<Rightarrow> layout \<Rightarrow> kstate \<Rightarrow> kstate res" where
  "load_protect M li ptr0 l s =
     rbind (fold_res (\<lambda>i. wr_pte ptr0 i (kprot_update (\<lambda>_. {PROT_READ, PROT_EXEC}))) (text_vpns M l) s) (\<lambda>s.
     let s = WriteRegister (REG_TLB_FLUSH TLB_FLUSH_0) s in
     store_bytes M (unat (of_nat (MEM_INVALID_PAGES M * PAGESIZE M) + text_size li + data_size li))
       (replicate (unat (bss_size li)) 0) s)"

text \<open>
  The argument block: \<open>argc\<close>, the \<open>argv\<close> pointers, and three zero words, with the strings copied
  to \<open>cp\<close> one after the other.
\<close>

fun load_argv :: "machine \<Rightarrow> nat \<Rightarrow> nat \<Rightarrow> string list \<Rightarrow> kstate \<Rightarrow> (kstate \<times> nat) res" where
  "load_argv M cp cpp [] s = Inr (s, cpp)"
| "load_argv M cp cpp (a # as) s =
     rbind (store_bytes M cpp (le_bytes (of_nat cp)) s) (\<lambda>s.
     rbind (store_bytes M cp (c_string a) s) (\<lambda>s.
     load_argv M (cp + length a + 1) (cpp + 8) as s))"

definition load_args :: "machine \<Rightarrow> layout \<Rightarrow> string list \<Rightarrow> kstate \<Rightarrow> kstate res" where
  "load_args M l args s =
     rbind (store_bytes M (unat (l_cpp l)) (le_bytes (of_nat (length args))) s) (\<lambda>s.
     rbind (load_argv M (unat (l_cp l)) (unat (l_cpp l) + 8) args s) (\<lambda>(s, cpp).
     store_bytes M cpp (concat (replicate 3 (le_bytes 0))) s))"

section \<open>The whole function\<close>

text \<open>
  \<open>args\<close> is the vector \<open>args[0], args[1], \<dots>\<close> up to the terminating null pointer. The result is the
  new state, the exception frame and the return value. \<open>load_replace\<close> is the part from the point at
  which the old address space is given up.
\<close>

definition load_replace ::
    "machine \<Rightarrow> exe \<Rightarrow> layout \<Rightarrow> string list \<Rightarrow> exc_info \<Rightarrow> ptref \<Rightarrow> kstate \<Rightarrow> (kstate \<times> exc_info \<times> int) res" where
  "load_replace M li l args info ptr0 s =
     (let info = info\<lparr>i_sp := l_cpp l\<rparr> in
      rbind (load_free_old M ptr0 s) (\<lambda>s.
      rbind (load_map M ptr0 l s) (\<lambda>s.
      rbind (load_image M li s) (\<lambda>(s, complete).
      if \<not> complete then Inr (s, info, - 2)
      else
        rbind (load_protect M li ptr0 l s) (\<lambda>s.
        rbind (load_args M l args s) (\<lambda>s.
        Inr (s, info\<lparr>i_pc := li_entry li, i_regs := replicate (NUM_REGS M) 0, i_psr := 0\<rparr>, 0)))))))"

definition LoadProgram ::
    "machine \<Rightarrow> string \<Rightarrow> string list \<Rightarrow> exc_info \<Rightarrow> ptref \<Rightarrow> kstate \<Rightarrow> (kstate \<times> exc_info \<times> int) res" where
  "LoadProgram M name args info ptr0 s =
     (case fs M name of None \<Rightarrow> Inr (s, info, - 1)
      | Some li \<Rightarrow>
        if li_status li \<noteq> LI_SUCCESS then Inr (s, info, - 1)
        else
          let l = load_layout M li args in
          if \<not> fits_virtual M l then Inr (s, info, - 1)
          else
            rbind (wr_pcb (curr_proc s)
              (brk_update (\<lambda>_. c_ulong (data_bss_npg l + text_npg l + int (MEM_INVALID_PAGES M)))) s) (\<lambda>s.
            if \<not> fits_physical l s then Inr (s, info, - 1)
            else load_replace M li l args info ptr0 s))"

definition ExecFunc :: "machine \<Rightarrow> string \<Rightarrow> string list \<Rightarrow> exc_info \<Rightarrow> kstate \<Rightarrow> (kstate \<times> exc_info \<times> int) res" where
  "ExecFunc M name args info s =
     rbind (rd_pcb s (curr_proc s)) (\<lambda>c.
     rbind (LoadProgram M name args info (region0 c) s) (\<lambda>(s, info, r).
     if r = ERROR then Inr (s, info, ERROR) else Inr (s, info, 0)))"

section \<open>Errors before the old program is gone\<close>

lemma load_replace_result:
  assumes "load_replace M li l args info ptr0 s = Inr (s', info', r)"
  shows "r = 0 \<or> r = - 2"
  using assms by (auto simp: load_replace_def Let_def elim!: rbind_OkE split: if_splits)

lemma wr_pcb_Ok:
  assumes "wr_pcb p f s = Inr u"
  shows "\<exists>c x. p = Some c \<and> pcbs s c = Some x \<and> u = s\<lparr>pcbs := (pcbs s)(c \<mapsto> f x)\<rparr>"
  using assms by (auto simp: wr_pcb_def hmod_Ok_iff elim!: rbind_OkE)

text \<open>C28: every error that \<open>LoadProgram\<close> reports with -1 leaves the process runnable: the exception
  frame, the page tables and the frames are as before, and nothing but the recorded break of the
  process can have changed.\<close>

theorem LoadProgram_error_keeps_process:
  assumes "LoadProgram M name args info ptr0 s = Inr (s', info', - 1)"
  shows "info' = info \<and> (s' = s \<or> (\<exists>c x b. curr_proc s = Some c \<and> pcbs s c = Some x \<and>
    s' = s\<lparr>pcbs := (pcbs s)(c \<mapsto> x\<lparr>brk := b\<rparr>)\<rparr>))"
proof (cases "fs M name")
  case None
  with assms show ?thesis by (simp add: LoadProgram_def)
next
  case (Some li)
  let ?l = "load_layout M li args"
  show ?thesis
  proof (cases "li_status li = LI_SUCCESS \<and> fits_virtual M ?l")
    case False
    then have "LoadProgram M name args info ptr0 s = Inr (s, info, - 1)"
      using Some by (simp add: LoadProgram_def Let_def)
    with assms show ?thesis by simp
  next
    case True
    let ?b = "c_ulong (data_bss_npg ?l + text_npg ?l + int (MEM_INVALID_PAGES M))"
    obtain u where u: "wr_pcb (curr_proc s) (brk_update (\<lambda>_. ?b)) s = Inr u"
        "(if \<not> fits_physical ?l u then Inr (u, info, - 1) else load_replace M li ?l args info ptr0 u) = Inr (s', info', - 1)"
      using assms Some True by (simp add: LoadProgram_def Let_def) (erule rbind_OkE, blast)
    have "s' = u" "info' = info" using u(2) load_replace_result by (force split: if_splits)+
    with wr_pcb_Ok [OF u(1)] show ?thesis by blast
  qed
qed

theorem LoadProgram_error_keeps_process_witness:
  "\<exists>s'. LoadProgram tiny ''init'' [''init''] zero_info PT_region0Pt (demo\<lparr>num_free_pages := 0\<rparr>) = Inr (s', zero_info, - 1) \<and>
   (s' = demo\<lparr>num_free_pages := 0\<rparr> \<or> (\<exists>c x b. curr_proc (demo\<lparr>num_free_pages := 0\<rparr>) = Some c \<and>
      pcbs (demo\<lparr>num_free_pages := 0\<rparr>) c = Some x \<and>
      s' = demo\<lparr>num_free_pages := 0, pcbs := (pcbs demo)(c \<mapsto> x\<lparr>brk := b\<rparr>)\<rparr>))"
proof -
  let ?s = "demo\<lparr>num_free_pages := 0\<rparr>"
  let ?l = "load_layout tiny tiny_exe [''init'']"
  have "fits_virtual tiny ?l" "data_bss_npg ?l + text_npg ?l + stack_npg ?l > 0"
    by code_simp+
  moreover have "fs tiny ''init'' = Some tiny_exe" "li_status tiny_exe = LI_SUCCESS" by (simp_all add: tiny_def tiny_exe_def)
  moreover obtain c x where c: "curr_proc ?s = Some c" "pcbs ?s c = Some x" by (simp add: demo_def)
  ultimately obtain s' where "LoadProgram tiny ''init'' [''init''] zero_info PT_region0Pt ?s = Inr (s', zero_info, - 1)"
    by (simp add: LoadProgram_def Let_def fits_physical_def)
  from LoadProgram_error_keeps_process [OF this] this show ?thesis by auto
qed

section \<open>The new address space\<close>

lemma upto_upt: "[int a..int b - 1] = map int [a..<b]"
proof (cases "a \<le> b")
  case True
  then show ?thesis
  proof (induction b rule: dec_induct)
    case base
    then show ?case by simp
  next
    case (step k)
    then have "[int a..int k] = [int a..int k - 1] @ [int k]" by (intro upto_rec2) simp
    with step show ?case by simp
  qed
qed simp

lemma wr_ptes:
  assumes "tbl_len t n s" "distinct is" "set is \<subseteq> {..<n}"
  shows "\<exists>s'. fold_res (\<lambda>i. wr_pte t i f) (map int is) s = Inr s' \<and> tbl_len t n s' \<and> only_maps s s' \<and>
    free_list s' = free_list s \<and> frames_wf s' = frames_wf s \<and>
    (\<forall>j. entry t s' j = (if j \<in> set is then map_option f (entry t s j) else entry t s j))"
  using assms
proof (induction "is" arbitrary: s)
  case (Cons i "is")
  obtain ps where ps: "tbl s t = Inr ps" "length ps = n" using Cons.prems(1) by (auto simp: tbl_len_def)
  let ?u = "put_tbl t (ps[i := f (ps ! i)]) s"
  have u: "wr_pte t (int i) f s = Inr ?u" using ps Cons.prems(3) by (intro wr_pte_Ok) auto
  have eu: "entry t ?u j = (if j = i then map_option f (entry t s j) else entry t s j)" for j
    using ps Cons.prems(3) by (auto simp: entry_def)
  have lu: "tbl_len t n ?u" using ps by (simp add: tbl_len_def)
  obtain s' where s': "fold_res (\<lambda>i. wr_pte t i f) (map int is) ?u = Inr s'" "tbl_len t n s'" "only_maps ?u s'"
      "free_list s' = free_list ?u" "frames_wf s' = frames_wf ?u"
      "\<forall>j. entry t s' j = (if j \<in> set is then map_option f (entry t ?u j) else entry t ?u j)"
    using Cons.IH [OF lu] Cons.prems(2,3) by auto
  have "only_maps s s'" using wr_pte_only(1) [OF u] s'(3) by (rule only_maps_trans)
  with s' u eu Cons.prems(2) show ?case by (intro exI [of _ s']) auto
qed simp

lemma load_map_stages:
  assumes wf: "frames_wf s" "tbl_len pt n s"
    and npg: "text_npg l = int T" "data_bss_npg l = int D" "stack_npg l = int S"
    and U: "U = USER_STACK_LIMIT M div PAGESIZE M" "MEM_INVALID_PAGES M + T + D + S \<le> U" "U \<le> n"
    and fr: "T + D + S \<le> length (free_list s)" and c: "curr_proc s = Some c" "pcbs s c = Some x"
  shows "\<exists>s0 s1 s2 s3.
    load_map M pt l s = Inr (WriteRegister (REG_TLB_FLUSH TLB_FLUSH_0) (s3\<lparr>pcbs := (pcbs s)(c \<mapsto> x\<lparr>sp := c_ulong (int (U - S))\<rparr>)\<rparr>)) \<and>
    only_maps s s0 \<and> free_list s0 = free_list s \<and>
    (\<forall>j. entry pt s0 j = (if j < MEM_INVALID_PAGES M then map_option (valid_update (\<lambda>_. False)) (entry pt s j) else entry pt s j)) \<and>
    mapped_run pt n {PROT_READ, PROT_EXEC} {PROT_READ, PROT_WRITE} [MEM_INVALID_PAGES M..<MEM_INVALID_PAGES M + T] s0 s1 \<and>
    mapped_run pt n {PROT_READ, PROT_WRITE} {PROT_READ, PROT_WRITE} [MEM_INVALID_PAGES M + T..<MEM_INVALID_PAGES M + T + D] s1 s2 \<and>
    mapped_run pt n {PROT_READ, PROT_WRITE} {PROT_READ, PROT_WRITE} (rev [U - S..<U]) s2 s3"
proof -
  let ?I = "MEM_INVALID_PAGES M"
  let ?ts = "[?I..<?I + T]" and ?ds = "[?I + T..<?I + T + D]" and ?ss = "rev [U - S..<U]"
  let ?RW = "{PROT_READ, PROT_WRITE}" and ?RX = "{PROT_READ, PROT_EXEC}"
  have us: "int U - int S = int (U - S)" using U(2) by (simp add: of_nat_diff)
  have lists: "text_vpns M l = map int ?ts" "data_vpns M l = map int ?ds" "stack_vpns M l = map int ?ss"
    using npg upto_upt [of ?I "?I + T"] upto_upt [of "?I + T" "?I + T + D"] upto_upt [of "U - S" U]
    by (simp_all add: text_vpns_def data_vpns_def stack_vpns_def rev_map us flip: U(1))
  have sub: "set [0..<?I] \<subseteq> {..<n}" "set ?ts \<subseteq> {..<n}" "set ?ds \<subseteq> {..<n}" "set ?ss \<subseteq> {..<n}" "distinct ?ss"
    "length ?ss = S"
    using U(2,3) by auto
  obtain s0 where s0: "fold_res (\<lambda>i. wr_pte pt i (valid_update (\<lambda>_. False))) (map int [0..<?I]) s = Inr s0" "tbl_len pt n s0"
      "only_maps s s0" "free_list s0 = free_list s" "frames_wf s0 = frames_wf s"
      "\<forall>j. entry pt s0 j = (if j \<in> set [0..<?I] then map_option (valid_update (\<lambda>_. False)) (entry pt s j) else entry pt s j)"
    using wr_ptes [OF wf(2) distinct_upt sub(1), of "valid_update (\<lambda>_. False)"] by blast
  obtain s1 where s1: "fold_res (setup_pte pt ?RX ?RW) (map int ?ts) s0 = Inr s1" "mapped_run pt n ?RX ?RW ?ts s0 s1"
    using setup_run [OF _ s0(2) distinct_upt sub(2), of ?RX ?RW] fr s0(4,5) wf(1) by auto
  have f1: "frames_wf s1" "tbl_len pt n s1" "free_list s1 = drop T (free_list s)" "only_maps s0 s1"
    using s1(2) s0(4) by (simp_all add: mapped_run_def)
  have "length ?ds \<le> length (free_list s1)" using fr f1(3) by simp
  then obtain s2 where s2: "fold_res (setup_pte pt ?RW ?RW) (map int ?ds) s1 = Inr s2" "mapped_run pt n ?RW ?RW ?ds s1 s2"
    using setup_run [OF f1(1,2) distinct_upt sub(3), of ?RW ?RW] by blast
  have f2: "frames_wf s2" "tbl_len pt n s2" "free_list s2 = drop D (drop T (free_list s))" "only_maps s1 s2"
    using s2(2) f1(3) by (simp_all add: mapped_run_def)
  have "length ?ss \<le> length (free_list s2)" using fr f2(3) sub(6) by simp
  then obtain s3 where s3: "fold_res (setup_pte pt ?RW ?RW) (map int ?ss) s2 = Inr s3" "mapped_run pt n ?RW ?RW ?ss s2 s3"
    using setup_run [OF f2(1,2) sub(5,4), of ?RW ?RW] by blast
  have "only_maps s s3"
    using only_maps_trans [OF only_maps_trans [OF s0(3) f1(4)] only_maps_trans [OF f2(4)]] s3(2) by (simp add: mapped_run_def)
  note o = only_mapsD(1,3) [OF this]
  have sp: "int (USER_STACK_LIMIT M div PAGESIZE M) - stack_npg l = int (U - S)"
    by (simp only: npg(3) us flip: U(1))
  have "load_map M pt l s = Inr (WriteRegister (REG_TLB_FLUSH TLB_FLUSH_0) (s3\<lparr>pcbs := (pcbs s)(c \<mapsto> x\<lparr>sp := c_ulong (int (U - S))\<rparr>)\<rparr>))"
    using s0(1) s1(1) s2(1) s3(1) o c by (simp add: load_map_def lists fold_res_map sp)
  moreover have "\<forall>j. entry pt s0 j = (if j < ?I then map_option (valid_update (\<lambda>_. False)) (entry pt s j) else entry pt s j)"
    using s0(6) by simp
  ultimately show ?thesis using s0(3,4) s1(2) s2(2) s3(2) by blast
qed

lemma load_map_ok:
  assumes "frames_wf s" "tbl_len pt n s" "text_npg l = int T" "data_bss_npg l = int D" "stack_npg l = int S"
    "U = USER_STACK_LIMIT M div PAGESIZE M" "I = MEM_INVALID_PAGES M" "I + T + D + S \<le> U" "U \<le> n"
    "T + D + S \<le> length (free_list s)" "curr_proc s = Some c" "pcbs s c = Some x"
  shows "\<exists>s3. load_map M pt l s = Inr (WriteRegister (REG_TLB_FLUSH TLB_FLUSH_0) (s3\<lparr>pcbs := (pcbs s)(c \<mapsto> x\<lparr>sp := c_ulong (int (U - S))\<rparr>)\<rparr>)) \<and>
    only_maps s s3 \<and> frames_wf s3 \<and> tbl_len pt n s3 \<and> free_list s3 = drop (T + D + S) (free_list s) \<and>
    (\<forall>j. entry pt s3 j =
       (if j < I then map_option (valid_update (\<lambda>_. False)) (entry pt s j)
        else if j < I + T then Some \<lparr>pfn = c_pfn (int (free_list s ! (j - I))),
          uprot = {PROT_READ, PROT_EXEC}, kprot = {PROT_READ, PROT_WRITE}, valid = True\<rparr>
        else if j < I + T + D then Some \<lparr>pfn = c_pfn (int (free_list s ! (j - I))),
          uprot = {PROT_READ, PROT_WRITE}, kprot = {PROT_READ, PROT_WRITE}, valid = True\<rparr>
        else if U - S \<le> j \<and> j < U then Some \<lparr>pfn = c_pfn (int (free_list s ! (T + D + (U - 1 - j)))),
          uprot = {PROT_READ, PROT_WRITE}, kprot = {PROT_READ, PROT_WRITE}, valid = True\<rparr>
        else entry pt s j))"
proof -
  let ?RW = "{PROT_READ, PROT_WRITE}" and ?RX = "{PROT_READ, PROT_EXEC}"
  obtain s0 s1 s2 s3 where run:
      "load_map M pt l s = Inr (WriteRegister (REG_TLB_FLUSH TLB_FLUSH_0) (s3\<lparr>pcbs := (pcbs s)(c \<mapsto> x\<lparr>sp := c_ulong (int (U - S))\<rparr>)\<rparr>))"
    and om: "only_maps s s0" and s0: "free_list s0 = free_list s"
      "\<forall>j. entry pt s0 j = (if j < I then map_option (valid_update (\<lambda>_. False)) (entry pt s j) else entry pt s j)"
    and s1: "mapped_run pt n ?RX ?RW [I..<I + T] s0 s1"
    and s2: "mapped_run pt n ?RW ?RW [I + T..<I + T + D] s1 s2"
    and s3: "mapped_run pt n ?RW ?RW (rev [U - S..<U]) s2 s3"
    using load_map_stages [OF assms(1-6) assms(8) [unfolded assms(7)] assms(9-12)] unfolding assms(7) by blast
  have fl: "free_list s1 = drop T (free_list s)" "free_list s2 = drop (T + D) (free_list s)"
    "free_list s3 = drop (T + D + S) (free_list s)"
    using s0(1) s1 s2 s3 assms(8) by (simp_all add: mapped_run_def add.commute add.left_commute)
  have e1: "entry pt s1 j = (if I \<le> j \<and> j < I + T then Some \<lparr>pfn = c_pfn (int (free_list s ! (j - I))), uprot = ?RX, kprot = ?RW, valid = True\<rparr>
      else entry pt s0 j)" for j
    using s1 s0(1) by (auto simp: mapped_run_def dest!: spec [of _ "j - I"])
  have e2: "entry pt s2 j = (if I + T \<le> j \<and> j < I + T + D then Some \<lparr>pfn = c_pfn (int (free_list s ! (j - I))), uprot = ?RW, kprot = ?RW, valid = True\<rparr>
      else entry pt s1 j)" for j
    using s2 fl(1) assms(10) by (auto simp: mapped_run_def dest!: spec [of _ "j - (I + T)"])
  have e3: "entry pt s3 j = (if U - S \<le> j \<and> j < U then Some \<lparr>pfn = c_pfn (int (free_list s ! (T + D + (U - 1 - j)))), uprot = ?RW, kprot = ?RW, valid = True\<rparr>
      else entry pt s2 j)" for j
    using s3 fl(2) assms(8,10) by (auto simp: mapped_run_def rev_nth dest!: spec [of _ "U - 1 - j"])
  have "only_maps s0 s1" "only_maps s1 s2" "only_maps s2 s3" "tbl_len pt n s3" "frames_wf s3" using s1 s2 s3 by (simp_all add: mapped_run_def)
  then have "only_maps s s3" "tbl_len pt n s3" "frames_wf s3" using om by (blast intro: only_maps_trans)+
  then show ?thesis unfolding run using fl(3) assms(8) e1 e2 e3 s0(2) by (intro exI [of _ s3]) auto
qed

text \<open>C10: the address space of a new program. With enough free frames, \<open>load_map\<close> succeeds, and then the
  pages below \<open>MEM_INVALID_PAGES\<close> are invalid; the text pages follow, readable and executable for the
  user; then data and bss, and up to the stack limit the stack, both readable and writable. Each page
  has a frame of its own, the free frames in order, and all other entries - the gap below the stack
  and the kernel stack - are unchanged. The stack bottom of the process is recorded.\<close>

theorem load_map_address_space:
  assumes "frames_wf s" "tbl_len pt n s" "text_npg l = int T" "data_bss_npg l = int D" "stack_npg l = int S"
    "U = USER_STACK_LIMIT M div PAGESIZE M" "I = MEM_INVALID_PAGES M" "I + T + D + S \<le> U" "U \<le> n"
    "T + D + S \<le> length (free_list s)" "curr_proc s = Some c" "pcbs s c = Some x"
  shows "\<exists>s'. load_map M pt l s = Inr s' \<and> map_option sp (pcbs s' c) = Some (c_ulong (int (U - S))) \<and>
    free_list s' = drop (T + D + S) (free_list s) \<and>
    (\<forall>j. entry pt s' j =
       (if j < I then map_option (valid_update (\<lambda>_. False)) (entry pt s j)
        else if j < I + T then Some \<lparr>pfn = c_pfn (int (free_list s ! (j - I))),
          uprot = {PROT_READ, PROT_EXEC}, kprot = {PROT_READ, PROT_WRITE}, valid = True\<rparr>
        else if j < I + T + D then Some \<lparr>pfn = c_pfn (int (free_list s ! (j - I))),
          uprot = {PROT_READ, PROT_WRITE}, kprot = {PROT_READ, PROT_WRITE}, valid = True\<rparr>
        else if U - S \<le> j \<and> j < U then Some \<lparr>pfn = c_pfn (int (free_list s ! (T + D + (U - 1 - j)))),
          uprot = {PROT_READ, PROT_WRITE}, kprot = {PROT_READ, PROT_WRITE}, valid = True\<rparr>
        else entry pt s j))"
proof -
  obtain s3 where "load_map M pt l s = Inr (WriteRegister (REG_TLB_FLUSH TLB_FLUSH_0) (s3\<lparr>pcbs := (pcbs s)(c \<mapsto> x\<lparr>sp := c_ulong (int (U - S))\<rparr>)\<rparr>))"
      "free_list s3 = drop (T + D + S) (free_list s)"
    and e: "(\<forall>j. entry pt s3 j =
       (if j < I then map_option (valid_update (\<lambda>_. False)) (entry pt s j)
        else if j < I + T then Some \<lparr>pfn = c_pfn (int (free_list s ! (j - I))),
          uprot = {PROT_READ, PROT_EXEC}, kprot = {PROT_READ, PROT_WRITE}, valid = True\<rparr>
        else if j < I + T + D then Some \<lparr>pfn = c_pfn (int (free_list s ! (j - I))),
          uprot = {PROT_READ, PROT_WRITE}, kprot = {PROT_READ, PROT_WRITE}, valid = True\<rparr>
        else if U - S \<le> j \<and> j < U then Some \<lparr>pfn = c_pfn (int (free_list s ! (T + D + (U - 1 - j)))),
          uprot = {PROT_READ, PROT_WRITE}, kprot = {PROT_READ, PROT_WRITE}, valid = True\<rparr>
        else entry pt s j))"
    using load_map_ok [OF assms] by blast
  then show ?thesis using e by simp
qed

theorem load_map_address_space_witness:
  "\<exists>s'. load_map tiny PT_region0Pt \<lparr>text_npg = 1, data_bss_npg = 1, stack_npg = 1, l_cp = 0, l_cpp = 0\<rparr> demo_brk = Inr s' \<and>
    map (\<lambda>j. map_option (\<lambda>e. (pfn e, valid e)) (entry PT_region0Pt s' j)) [0, 1, 2, 5] =
      [Some (0, False), Some (0, True), Some (1, True), Some (2, True)]"
proof -
  let ?l = "\<lparr>text_npg = 1, data_bss_npg = 1, stack_npg = 1, l_cp = 0, l_cpp = 0\<rparr> :: layout"
  have l: "text_npg ?l = int 1" "data_bss_npg ?l = int 1" "stack_npg ?l = int 1" by simp_all
  have m: "6 = USER_STACK_LIMIT tiny div PAGESIZE tiny" "1 = MEM_INVALID_PAGES tiny" by (simp_all add: tiny_def PAGESIZE_def)
  have s: "tbl_len PT_region0Pt 8 demo_brk" "curr_proc demo_brk = Some 1" "entry PT_region0Pt demo_brk 0 = Some zero_pte"
    by (simp_all add: region0Pt_len region0Pt_entry demo_brk_frames) (simp_all add: demo_brk_def blank_def)
  obtain x where x: "pcbs demo_brk 1 = Some x" by (simp add: demo_brk_def)
  from load_map_address_space [OF demo_brk_frames(1) s(1) l m _ _ _ s(2) x] show ?thesis
    by (simp add: demo_brk_frames s(3)) (elim ex_forward, simp add: s(3) zero_pte_def demo_brk_frames(2))
qed

section \<open>Releasing the old program\<close>

lemma free_old_page_ok:
  assumes "tbl_len t n s" "k < n" "k < KERNEL_STACK_BASE M div PAGESIZE M"
    "\<forall>e. entry t s k = Some e \<and> valid e \<longrightarrow> unat (pfn e) < length (freePages s)"
  shows "\<exists>s'. free_old_page M t k s = Inr s' \<and> tbl_len t n s' \<and> only_maps s s' \<and> length (freePages s') = length (freePages s) \<and>
    (\<forall>j. entry t s' j = (if j = k then map_option (valid_update (\<lambda>_. False)) (entry t s j) else entry t s j)) \<and>
    (\<forall>f. freePages s' ! f = (if \<exists>e. entry t s k = Some e \<and> valid e \<and> unat (pfn e) = f then PAGE_FREE else freePages s ! f))"
proof -
  obtain ps where ps: "tbl s t = Inr ps" "length ps = n" using assms(1) by (auto simp: tbl_len_def)
  then have e: "entry t s k = Some (ps ! k)" "rd_pte s t (int k) = Inr (ps ! k)"
    using assms(2) by (simp_all add: entry_def rd_pte_def)
  show ?thesis
  proof (cases "valid (ps ! k)")
    case False
    then have "map_option (valid_update (\<lambda>_. False)) (entry t s k) = entry t s k" using e(1) by (cases "ps ! k") simp
    with False e assms(1,3) show ?thesis by (intro exI [of _ s]) (auto simp: free_old_page_def)
  next
    case True
    let ?f = "unat (pfn (ps ! k))"
    let ?t = "s\<lparr>freePages := (freePages s)[?f := PAGE_FREE], num_free_pages := num_free_pages s + 1\<rparr>"
    let ?s = "put_tbl t (ps[k := (ps ! k)\<lparr>valid := False\<rparr>]) ?t"
    have f: "?f < length (freePages s)" using assms(4) e(1) True by blast
    have w: "wr_pte t (int k) (valid_update (\<lambda>_. False)) ?t = Inr ?s"
      using ps assms(2) by (intro wr_pte_Ok) simp_all
    have run: "free_old_page M t k s = Inr ?s"
      using True e assms(3) freePage_uint [OF f] w by (simp add: free_old_page_def)
    have "only_maps s ?s"
      using only_maps_trans [OF only_frames_maps [OF freePage_only [OF freePage_uint [OF f]]] wr_pte_only(1) [OF w]] .
    moreover have "tbl ?s t = Inr (ps[k := (ps ! k)\<lparr>valid := False\<rparr>])" using ps by simp
    ultimately show ?thesis using run ps e True f assms(2)
      by (intro exI [of _ ?s]) (auto simp: tbl_len_def entry_def nth_list_update)
  qed
qed

lemma free_old_run:
  assumes "tbl_len t n s" "k \<le> n" "k \<le> KERNEL_STACK_BASE M div PAGESIZE M"
    "\<forall>f\<in>owned_frames t k s. f < length (freePages s)"
  shows "\<exists>s'. fold_res (free_old_page M t) [0..<k] s = Inr s' \<and> tbl_len t n s' \<and> only_maps s s' \<and>
    length (freePages s') = length (freePages s) \<and>
    (\<forall>j. entry t s' j = (if j < k then map_option (valid_update (\<lambda>_. False)) (entry t s j) else entry t s j)) \<and>
    (\<forall>f. freePages s' ! f = (if f \<in> owned_frames t k s then PAGE_FREE else freePages s ! f))"
  using assms
proof (induction k)
  case 0
  then show ?case by (simp add: owned_frames_def)
next
  case (Suc k)
  then obtain u where u: "fold_res (free_old_page M t) [0..<k] s = Inr u" "tbl_len t n u" "only_maps s u"
      "length (freePages u) = length (freePages s)"
      "\<forall>j. entry t u j = (if j < k then map_option (valid_update (\<lambda>_. False)) (entry t s j) else entry t s j)"
      "\<forall>f. freePages u ! f = (if f \<in> owned_frames t k s then PAGE_FREE else freePages s ! f)"
    by (auto simp: owned_frames_Suc)
  have ek: "entry t u k = entry t s k" using u(5) by simp
  then have "\<forall>e. entry t u k = Some e \<and> valid e \<longrightarrow> unat (pfn e) < length (freePages u)"
    using Suc.prems(4) u(4) by (auto simp: owned_frames_Suc)
  then obtain s' where s': "free_old_page M t k u = Inr s'" "tbl_len t n s'" "only_maps u s'"
      "length (freePages s') = length (freePages u)"
      "\<forall>j. entry t s' j = (if j = k then map_option (valid_update (\<lambda>_. False)) (entry t u j) else entry t u j)"
      "\<forall>f. freePages s' ! f = (if \<exists>e. entry t u k = Some e \<and> valid e \<and> unat (pfn e) = f then PAGE_FREE else freePages u ! f)"
    using free_old_page_ok [OF u(2), of k M] Suc.prems(2,3) by auto
  have "fold_res (free_old_page M t) [0..<Suc k] s = Inr s'" using u(1) s'(1) by (simp add: fold_res_append)
  moreover have "only_maps s s'" by (rule only_maps_trans [OF u(3) s'(3)])
  moreover have "\<forall>j. entry t s' j = (if j < Suc k then map_option (valid_update (\<lambda>_. False)) (entry t s j) else entry t s j)"
    using s'(5) u(5) by (auto simp: less_Suc_eq)
  moreover have "\<forall>f. freePages s' ! f = (if f \<in> owned_frames t (Suc k) s then PAGE_FREE else freePages s ! f)"
    using s'(6) u(6) ek by (auto simp: owned_frames_Suc)
  ultimately show ?case using s'(2,4) u(4) by auto
qed

lemma free_old_rest:
  assumes "KERNEL_STACK_BASE M div PAGESIZE M \<le> k" "n \<le> KERNEL_STACK_LIMIT M"
  shows "fold_res (free_old_page M t) [k..<n] s = Inr s"
  using assms by (induction n) (auto simp: fold_res_append free_old_page_def upt_Suc)

lemma load_free_old_ok:
  assumes "hw_layout M" "tbl_len t (PAGE_TABLE_LEN M) s" "base = PAGE_TABLE_LEN M - KERNEL_STACK_PAGES M"
    "\<forall>f\<in>owned_frames t base s. f < length (freePages s)"
  shows "\<exists>s'. load_free_old M t s = Inr s' \<and> only_maps s s' \<and> tbl_len t (PAGE_TABLE_LEN M) s' \<and> length (freePages s') = length (freePages s) \<and>
    (\<forall>j. entry t s' j = (if j < base then map_option (valid_update (\<lambda>_. False)) (entry t s j) else entry t s j)) \<and>
    (\<forall>f. freePages s' ! f = (if f \<in> owned_frames t base s then PAGE_FREE else freePages s ! f))"
proof -
  let ?L = "PAGE_TABLE_LEN M"
  have "Suc 0 \<le> PAGESIZE M" using PAGESIZE_pos [of M] by (simp add: Suc_le_eq)
  then have b: "KERNEL_STACK_BASE M div PAGESIZE M = base" "base \<le> ?L" "?L \<le> KERNEL_STACK_LIMIT M"
    using assms(1,3) by (simp_all add: hw_layout_def)
  obtain u where u: "fold_res (free_old_page M t) [0..<base] s = Inr u" "only_maps s u" "tbl_len t ?L u" "length (freePages u) = length (freePages s)"
      "\<forall>j. entry t u j = (if j < base then map_option (valid_update (\<lambda>_. False)) (entry t s j) else entry t s j)"
      "\<forall>f. freePages u ! f = (if f \<in> owned_frames t base s then PAGE_FREE else freePages s ! f)"
    using free_old_run [OF assms(2) b(2) _ assms(4), of M] b(1) by auto
  have "[0..<?L] = [0..<base] @ [base..<?L]" using b(2) by (metis le0 le_iff_add upt_add_eq_append)
  then have "load_free_old M t s = Inr u"
    using u(1) free_old_rest [of M base ?L t u] b by (simp add: load_free_old_def fold_res_append)
  with u(2-6) show ?thesis by blast
qed

text \<open>C26: giving up the old program. After \<open>load_free_old\<close> every entry below the kernel stack is invalid,
  every frame such an entry referred to is free, and the entries of the kernel stack and all other
  frames are as before.\<close>

theorem load_free_old_releases:
  assumes "hw_layout M" "tbl_len t (PAGE_TABLE_LEN M) s" "base = PAGE_TABLE_LEN M - KERNEL_STACK_PAGES M"
    "\<forall>f\<in>owned_frames t base s. f < length (freePages s)"
  shows "\<exists>s'. load_free_old M t s = Inr s' \<and> only_maps s s' \<and>
    (\<forall>j. entry t s' j = (if j < base then map_option (valid_update (\<lambda>_. False)) (entry t s j) else entry t s j)) \<and>
    (\<forall>f. freePages s' ! f = (if f \<in> owned_frames t base s then PAGE_FREE else freePages s ! f))"
  using load_free_old_ok [OF assms] by blast

theorem load_free_old_releases_witness:
  "\<exists>s'. load_free_old tiny PT_region0Pt (demo_brk\<lparr>region0Pt := (replicate 8 zero_pte)[3 := r0_initial 9, 7 := r0_initial 7],
      freePages := replicate 16 PAGE_USED\<rparr>) = Inr s' \<and>
    freePages s' ! 9 = PAGE_FREE \<and> freePages s' ! 7 = PAGE_USED"
proof -
  let ?s = "demo_brk\<lparr>region0Pt := (replicate 8 zero_pte)[3 := r0_initial 9, 7 := r0_initial 7], freePages := replicate 16 PAGE_USED\<rparr>"
  have m: "PAGE_TABLE_LEN tiny = 8" "6 = PAGE_TABLE_LEN tiny - KERNEL_STACK_PAGES tiny" by (simp_all add: tiny_def)
  have e: "j < 6 \<Longrightarrow> entry PT_region0Pt ?s j = Some (if j = 3 then r0_initial 9 else zero_pte)" for j
    by (auto simp: region0Pt_entry nth_list_update)
  have "\<not> valid zero_pte" "valid (r0_initial 9)" "unat (pfn (r0_initial 9)) = 9"
    by (simp_all add: r0_initial_def zero_pte_def)
  then have o: "owned_frames PT_region0Pt 6 ?s = {9}"
    unfolding owned_frames_def using e by (auto split: if_splits intro!: exI [of _ 3])
  have "tbl_len PT_region0Pt (PAGE_TABLE_LEN tiny) ?s" by (simp add: region0Pt_len m)
  from load_free_old_releases [OF hw_layout_tiny this m(2)] show ?thesis by (simp add: o) (elim ex_forward, simp)
qed

end
