(* ===== verification/Process.thy ===== *)
theory Process
  imports Switch
begin

text \<open>
  The life of a process: \<open>ForkFunc\<close> (src/fork.c), \<open>ExitFunc\<close> (src/exit.c), \<open>WaitFunc\<close> (src/wait.c)
  and \<open>GetPid_\<close> (src/getpid.c). A function that calls \<open>ContextSwitch\<close> is given up to the call; its
  rest is the definition with the suffix \<open>_resume\<close>.
\<close>

section \<open>GetPid\<close>

definition GetPid :: "ptr \<Rightarrow> kstate \<Rightarrow> int res" where
  "GetPid info s = rbind (rd_pcb s info) (\<lambda>p. Inr (process_id p))"

section \<open>Fork\<close>

definition adopt :: "ptr \<Rightarrow> ptr \<Rightarrow> kstate \<Rightarrow> kstate res" where
  "adopt child parent_proc s =
     rbind (rd_pcb s parent_proc) (\<lambda>p.
     rbind (wr_pcb child (\<lambda>c. c\<lparr>parent := parent_proc, prev_sibling := children_tail p\<rparr>) s) (\<lambda>s.
     rbind (if children_head p = NULL
            then wr_pcb parent_proc (children_head_update (\<lambda>_. child)) s
            else wr_pcb (children_tail p) (next_sibling_update (\<lambda>_. child)) s) (\<lambda>s.
     wr_pcb parent_proc (children_tail_update (\<lambda>_. child)) s)))"

definition ForkFunc :: "machine \<Rightarrow> exc_info \<Rightarrow> kstate \<Rightarrow> (kstate \<times> int flow) res" where
  "ForkFunc M info s =
     (let parent_proc = curr_proc s in
      rbind (create_pcb M s) (\<lambda>(s, child).
      rbind (BuildRegion0 M child s) (\<lambda>s.
      rbind (rd_pcb s parent_proc) (\<lambda>p.
      rbind (wr_pcb child (\<lambda>c. c\<lparr>sp := sp p, brk := brk p\<rparr>) s) (\<lambda>s.
      rbind (adopt child parent_proc s) (\<lambda>s.
      Inr (s, Call_ContextSwitch SWITCH_FORK parent_proc child (K_ForkFunc info child))))))))"

definition ForkFunc_resume :: "ptr \<Rightarrow> kstate \<Rightarrow> int res" where
  "ForkFunc_resume child s =
     rbind (rd_pcb s (curr_proc s)) (\<lambda>c.
     rbind (rd_pcb s child) (\<lambda>d.
     Inr (if process_id c = process_id d then 0 else process_id d)))"

section \<open>Exit\<close>

definition orphan_body :: "kstate \<times> ptr \<Rightarrow> (kstate \<times> ptr) res" where
  "orphan_body = (\<lambda>(s, child).
     rbind (wr_pcb child (parent_update (\<lambda>_. NULL)) s) (\<lambda>s.
     rbind (rd_pcb s child) (\<lambda>c. Inr (s, next_sibling c))))"

definition orphan_children :: "ptr \<Rightarrow> kstate \<Rightarrow> kstate res" where
  "orphan_children first s =
     rbind (while_res (\<lambda>(s, child). child \<noteq> NULL) orphan_body (s, first)) (\<lambda>(s, _). Inr s)"

definition leave_body :: "ptr \<Rightarrow> kstate \<times> ptr \<Rightarrow> (kstate \<times> ptr) res" where
  "leave_body parent_proc = (\<lambda>(s, child).
     rbind (rd_pcb s child) (\<lambda>c.
     rbind (rd_pcb s (curr_proc s)) (\<lambda>me.
     rbind (if process_id c = process_id me
            then RemoveChildFromParent child parent_proc s else Inr s) (\<lambda>s.
     rbind (rd_pcb s child) (\<lambda>c. Inr (s, next_sibling c))))))"

definition leave_parent :: "ptr \<Rightarrow> kstate \<Rightarrow> kstate res" where
  "leave_parent parent_proc s =
     rbind (rd_pcb s parent_proc) (\<lambda>p.
     rbind (while_res (\<lambda>(s, child). child \<noteq> NULL) (leave_body parent_proc) (s, children_head p)) (\<lambda>(s, _).
     Inr s))"

definition report_exit :: "machine \<Rightarrow> ptr \<Rightarrow> int \<Rightarrow> kstate \<Rightarrow> kstate res" where
  "report_exit M parent_proc st s =
     (let exited = Some (heap_top s) in
      rbind (rd_pcb s (curr_proc s)) (\<lambda>me.
      rbind (wr_exited exited (\<lambda>x. x\<lparr>x_process_id := process_id me, status := st\<rparr>) (malloc_exited M s)) (\<lambda>s.
      rbind (PushExitToExited exited parent_proc s) (\<lambda>s.
      rbind (rd_pcb s parent_proc) (\<lambda>p.
      if waiting p
      then rbind (wr_pcb parent_proc (waiting_update (\<lambda>_. False)) s) (\<lambda>s.
           PushProcToQueue M parent_proc s)
      else Inr s)))))"

definition ExitFunc :: "machine \<Rightarrow> int \<Rightarrow> kstate \<Rightarrow> (kstate \<times> 'r flow) res" where
  "ExitFunc M st s =
     rbind (rd_pcb s (curr_proc s)) (\<lambda>c.
     rbind (if children_head c \<noteq> NULL then orphan_children (children_head c) s else Inr s) (\<lambda>s.
     rbind (rd_pcb s (curr_proc s)) (\<lambda>c.
     rbind (if parent c \<noteq> NULL
            then rbind (rd_pcb s (parent c)) (\<lambda>p.
                 rbind (if children_head p \<noteq> NULL then leave_parent (parent c) s else Inr s) (\<lambda>s.
                 report_exit M (parent c) st s))
            else Inr s) (\<lambda>s.
     rbind (FindReadyPcb M s) (\<lambda>(s, next_pcb).
     Inr (s, Call_ContextSwitch SWITCH_EXIT (curr_proc s) next_pcb K_ExitFunc))))))"

text \<open>The rest of \<open>ExitFunc\<close>, which runs if the process that has exited is ever switched to again.\<close>

definition ExitFunc_resume :: "kstate \<Rightarrow> (kstate \<times> 'r flow) res" where
  "ExitFunc_resume s =
     rbind (rd_pcb s (curr_proc s)) (\<lambda>c.
     rbind (wr_r1 (uint (free_vpn c)) (valid_update (\<lambda>_. False)) s) (\<lambda>s.
     rbind (rd_r1 s (uint (free_vpn c))) (\<lambda>e.
     rbind (freePage (uint (pfn e)) s) (\<lambda>s. Inr (s, Spin)))))"

section \<open>Wait\<close>

text \<open>
  \<open>status_ptr\<close> is a parameter of \<open>WaitFunc\<close> that is overwritten and never dereferenced, so it does
  not appear here. The process id is read from the record after \<open>RemoveHeadFromExitQueue\<close> has freed
  it.
\<close>

definition WaitFunc_resume :: "machine \<Rightarrow> kstate \<Rightarrow> (kstate \<times> int) res" where
  "WaitFunc_resume M s =
     rbind (rd_pcb s (curr_proc s)) (\<lambda>c.
     let exited = exited_children_head c in
     rbind (RemoveHeadFromExitQueue M (curr_proc s) s) (\<lambda>s.
     rbind (rd_exited s exited) (\<lambda>x. Inr (s, x_process_id x))))"

definition WaitFunc :: "machine \<Rightarrow> exc_info \<Rightarrow> kstate \<Rightarrow> (kstate \<times> int flow) res" where
  "WaitFunc M info s =
     rbind (rd_pcb s (curr_proc s)) (\<lambda>c.
     if exited_children_head c = NULL
     then if children_head c = NULL then Inr (s, Ret ERROR)
          else rbind (wr_pcb (curr_proc s) (waiting_update (\<lambda>_. True)) s) (\<lambda>s.
               rbind (FindReadyPcb M s) (\<lambda>(s, next_pcb).
               Inr (s, Call_ContextSwitch SWITCH_EXIST (curr_proc s) next_pcb (K_WaitFunc info))))
     else rbind (WaitFunc_resume M s) (\<lambda>(s, r). Inr (s, Ret r)))"

section \<open>Joining a family\<close>

lemma adopt_ok:
  assumes q: "child_q s p cs" and c: "pcbs s c = Some x" "next_sibling x = NULL" "c \<notin> set (p # cs)"
  shows "\<exists>s'. adopt (Some c) (Some p) s = Inr s' \<and> child_q s' p (cs @ [c]) \<and> s' = s\<lparr>pcbs := pcbs s'\<rparr> \<and>
    (\<forall>d. d \<noteq> c \<longrightarrow> map_option bare (pcbs s' d) = map_option bare (pcbs s d)) \<and>
    map_option bare (pcbs s' c) = Some (bare (x\<lparr>parent := Some p\<rparr>))"
proof -
  obtain y where y: "pcbs s p = Some y" "children_head y = lead cs NULL" "children_tail y = behind NULL cs"
    and d: "sib.dlist (pcbs s) cs" "p \<notin> set cs"
    using q by (auto simp: child_q_def)
  have ne: "p \<noteq> c" "c \<noteq> p" "c \<notin> set cs" using c(3) by auto
  show ?thesis
  proof (cases cs rule: rev_cases)
    case Nil
    let ?s = "s\<lparr>pcbs := (pcbs s)(c \<mapsto> x\<lparr>parent := Some p, prev_sibling := NULL\<rparr>,
      p \<mapsto> y\<lparr>children_head := Some c, children_tail := Some c\<rparr>)\<rparr>"
    have "adopt (Some c) (Some p) s = Inr ?s" using y c(1) ne Nil by (simp add: adopt_def)
    then show ?thesis using y c ne Nil
      by (auto simp: child_q_def sib.dlist_def bare_def)
  next
    case (snoc ds e)
    obtain k where k: "pcbs s e = Some k" using child_q_alloc [OF q, of e] snoc by auto
    have e: "e \<noteq> c" "e \<noteq> p" using ne d(2) snoc by auto
    have hd: "lead ds (Some e) \<noteq> NULL" by (cases ds) auto
    let ?h = "(pcbs s)(c \<mapsto> x\<lparr>parent := Some p\<rparr>)"
    let ?h' = "?h(e \<mapsto> k\<lparr>next_sibling := Some c\<rparr>, c \<mapsto> x\<lparr>parent := Some p, prev_sibling := Some e\<rparr>)"
    let ?s = "s\<lparr>pcbs := ?h'(p \<mapsto> y\<lparr>children_tail := Some c\<rparr>)\<rparr>"
    have "adopt (Some c) (Some p) s = Inr ?s"
      using y c(1) ne k e hd snoc by (auto simp: adopt_def fun_upd_twist)
    moreover have "sib.dlist ?h' (ds @ [e, c])"
      using d ne k e snoc c(2) sib.dlist_snoc [of ?h ds e k c "x\<lparr>parent := Some p\<rparr>"] by simp
    then have "sib.dlist (pcbs ?s) (cs @ [c])" using snoc d(2) ne by simp
    ultimately show ?thesis using y c k e ne d snoc by (auto simp: child_q_def bare_def)
  qed
qed

section \<open>Leaving a family\<close>

definition orphaned :: "nat list \<Rightarrow> kstate \<Rightarrow> kstate" where
  "orphaned cs s = s\<lparr>pcbs := \<lambda>a. if a \<in> set cs then map_option (parent_update (\<lambda>_. NULL)) (pcbs s a) else pcbs s a\<rparr>"

lemma orphan_walk:
  assumes "sib.dseg (pcbs s) q cs NULL" "distinct cs"
  shows "while_res (\<lambda>(s, child). child \<noteq> NULL) orphan_body (s, lead cs NULL) = Inr (orphaned cs s, NULL)"
  using assms
proof (induction cs arbitrary: s q)
  case Nil
  then show ?case by (simp add: while_res_unfold orphaned_def)
next
  case (Cons c cs)
  then obtain x where x: "pcbs s c = Some x" "next_sibling x = lead cs NULL" and "sib.dseg (pcbs s) (Some c) cs NULL"
    by auto
  let ?t = "s\<lparr>pcbs := (pcbs s)(c \<mapsto> x\<lparr>parent := NULL\<rparr>)\<rparr>"
  have "sib.dseg (pcbs ?t) (Some c) cs NULL"
    using Cons.prems \<open>sib.dseg (pcbs s) (Some c) cs NULL\<close> by simp
  then have "while_res (\<lambda>(s, child). child \<noteq> NULL) orphan_body (?t, lead cs NULL) = Inr (orphaned cs ?t, NULL)"
    by (rule Cons.IH) (use Cons.prems in simp)
  moreover have "orphaned cs ?t = orphaned (c # cs) s"
    using Cons.prems x by (auto simp: orphaned_def fun_eq_iff)
  ultimately show ?case using x by (subst while_res_unfold) (simp add: orphan_body_def)
qed

lemma orphan_children_ok:
  assumes "child_q s p cs"
  shows "orphan_children (lead cs NULL) s = Inr (orphaned cs s)"
  using assms orphan_walk [of s NULL cs] by (simp add: orphan_children_def child_q_def sib.dlist_def)

lemma leave_walk:
  assumes "sib.dseg (pcbs s) q ds n" "is_pcb s (curr_proc s)"
    "\<forall>d\<in>set ds. pid_of s (Some d) \<noteq> pid_of s (curr_proc s)"
  shows "while_res (\<lambda>(s, child). child \<noteq> NULL) (leave_body pp) (s, lead ds n)
    = while_res (\<lambda>(s, child). child \<noteq> NULL) (leave_body pp) (s, n)"
  using assms
proof (induction ds arbitrary: q)
  case (Cons d ds)
  then obtain x where x: "pcbs s d = Some x" "next_sibling x = lead ds n" "sib.dseg (pcbs s) (Some d) ds n" by auto
  obtain c y where y: "curr_proc s = Some c" "pcbs s c = Some y" using Cons.prems(2) by (rule is_pcbE)
  have "process_id x \<noteq> process_id y" using Cons.prems(3) x y by (simp add: pid_of_def)
  then show ?case
    using Cons.IH [OF x(3)] Cons.prems x y by (subst while_res_unfold) (simp add: leave_body_def)
qed simp

lemma leave_parent_ok:
  assumes q: "child_q s p (as @ c # bs)" and c: "curr_proc s = Some c"
    and pid: "\<forall>d\<in>set (as @ bs). pid_of s (Some d) \<noteq> pid_of s (Some c)"
  shows "\<exists>s'. leave_parent (Some p) s = Inr s' \<and> child_removed p as c bs s s'"
proof -
  let ?w = "while_res (\<lambda>(s, child). child \<noteq> NULL) (leave_body (Some p))"
  obtain x i where x: "pcbs s p = Some x" "children_head x = lead as (Some c)" "pcbs s c = Some i"
    using child_q_facts(4,5) [OF q] by auto
  have me: "is_pcb s (curr_proc s)" using x c by (simp add: is_pcb_def)
  obtain s' where s': "RemoveChildFromParent (Some c) (Some p) s = Inr s'" "child_removed p as c bs s s'"
    using RemoveChildFromParent_ok [OF q] by blast
  then obtain j where j: "pcbs s' c = Some j" "next_sibling j = lead bs NULL" by (auto simp: child_removed_def)
  have sb: "same_bare s s'" and cp: "curr_proc s' = Some c"
    using s'(2) c only_familyD(1) [OF only_familyI, of s' s] by (auto simp: child_removed_def)
  have "?w (s, lead as (Some c)) = ?w (s, Some c)"
    using leave_walk [of s NULL as "Some c" "Some p"] child_q_facts(1) [OF q] me pid c
    by (simp add: sib.dlist_def)
  also have "\<dots> = ?w (s', lead bs NULL)"
    using x c j s'(1) by (subst while_res_unfold) (simp add: leave_body_def)
  also have "\<dots> = Inr (s', NULL)"
    using leave_walk [of s' "behind NULL as" bs NULL "Some p"] s'(2) pid me same_bare_pid [OF sb] cp c
    by (simp add: child_removed_def child_q_def sib.dlist_def while_res_unfold)
  finally have "leave_parent (Some p) s = Inr s'" using x by (simp add: leave_parent_def)
  with s'(2) show ?thesis by blast
qed

section \<open>Reporting an exit\<close>

lemma exit_q_fresh: "exit_q s p xs \<Longrightarrow> heap_wf s \<Longrightarrow> heap_top s \<notin> set xs"
  by (auto simp: heap_wf_def dest: exit_q_alloc)

lemma child_q_exit_links:
  assumes "child_q s p ds" "pcbs s p = Some y" "pcbs s' = (pcbs s)(p \<mapsto> y\<lparr>exited_children_head := h, exited_children_tail := l, waiting := w\<rparr>)"
  shows "child_q s' p ds"
  using assms sib.dlist_upd_same [of "pcbs s" p y "y\<lparr>exited_children_head := h, exited_children_tail := l, waiting := w\<rparr>" ds]
  by (auto simp: child_q_def)

text \<open>The record of the exiting process arrives at the end of the parent's list.\<close>

lemma record_exit_ok:
  assumes q: "exit_q s p xs" and r: "ready_repr s ps" and y: "pcbs s p = Some y"
    and e: "e = (junk_exited M (heap_top s))\<lparr>x_process_id := pid, status := st\<rparr>"
  shows "\<exists>s' h l. PushExitToExited (Some (heap_top s)) (Some p)
        (s\<lparr>heap_top := Suc (heap_top s), exiteds := (exiteds s)(heap_top s \<mapsto> e)\<rparr>) = Inr s' \<and>
    exit_q s' p (xs @ [heap_top s]) \<and> ready_repr s' ps \<and> idle_pcb s' = idle_pcb s \<and> curr_proc s' = curr_proc s \<and>
    map_option (\<lambda>e. (x_process_id e, status e)) (exiteds s' (heap_top s)) = Some (pid, st) \<and>
    pcbs s' = (pcbs s)(p \<mapsto> y\<lparr>exited_children_head := h, exited_children_tail := l\<rparr>)"
proof -
  let ?n = "heap_top s"
  let ?t = "s\<lparr>heap_top := Suc ?n, exiteds := (exiteds s)(?n \<mapsto> e)\<rparr>"
  have wf: "heap_wf s" using r by (simp add: ready_repr_def)
  have n: "?n \<notin> set xs" by (rule exit_q_fresh [OF q wf])
  have "exit_q ?t p xs" using q n by (auto simp: exit_q_def)
  then obtain s' h l where s': "PushExitToExited (Some ?n) (Some p) ?t = Inr s'" "exit_q s' p (xs @ [?n])"
      "s' = ?t\<lparr>pcbs := pcbs s', exiteds := exiteds s'\<rparr>"
      "\<forall>a. map_option (\<lambda>x. (x_process_id x, status x)) (exiteds s' a)
         = map_option (\<lambda>x. (x_process_id x, status x)) (exiteds ?t a)"
      "pcbs s' = (pcbs s)(p \<mapsto> y\<lparr>exited_children_head := h, exited_children_tail := l\<rparr>)"
    using PushExitToExited_ok [of ?t p xs ?n e] n y by auto
  have "only_family ?t s'" using s'(3) by (simp add: only_family_def)
  note f = only_familyD [OF this]
  have "exiteds s' a = None" if "Suc ?n \<le> a" for a
    using s'(4) that wf by (auto simp: heap_wf_def dest: spec [of _ a])
  moreover have "pcbs s' a = None" if "Suc ?n \<le> a" for a
    using s'(5) y that wf by (auto simp: heap_wf_def)
  ultimately have "heap_wf s'" using wf f by (auto simp: heap_wf_def)
  then have "ready_repr s' ps"
    by (intro ready_repr_cong [OF r]) (use f s'(5) in \<open>auto simp: is_pcb_def\<close>)
  with s' f e show ?thesis by (intro exI [of _ s'] exI [of _ h] exI [of _ l]) auto
qed

lemma report_exit_ok:
  assumes q: "exit_q s p xs" and r: "ready_repr s ps" and y: "pcbs s p = Some y"
    and me: "curr_proc s = Some c" "pcbs s c = Some x"
  shows "\<exists>s' h l. report_exit M (Some p) st s = Inr s' \<and> exit_q s' p (xs @ [heap_top s]) \<and>
    ready_repr s' (if waiting y then ps @ [Some p] else ps) \<and> idle_pcb s' = idle_pcb s \<and> curr_proc s' = curr_proc s \<and>
    map_option (\<lambda>e. (x_process_id e, status e)) (exiteds s' (heap_top s)) = Some (process_id x, st) \<and>
    pcbs s' = (pcbs s)(p \<mapsto> y\<lparr>exited_children_head := h, exited_children_tail := l, waiting := False\<rparr>)"
proof -
  let ?e = "(junk_exited M (heap_top s))\<lparr>x_process_id := process_id x, status := st\<rparr>"
  let ?t = "s\<lparr>heap_top := Suc (heap_top s), exiteds := (exiteds s)(heap_top s \<mapsto> ?e)\<rparr>"
  obtain t h l where t: "PushExitToExited (Some (heap_top s)) (Some p) ?t = Inr t"
      "exit_q t p (xs @ [heap_top s])" "ready_repr t ps" "idle_pcb t = idle_pcb s" "curr_proc t = curr_proc s"
      "map_option (\<lambda>e. (x_process_id e, status e)) (exiteds t (heap_top s)) = Some (process_id x, st)"
      "pcbs t = (pcbs s)(p \<mapsto> y\<lparr>exited_children_head := h, exited_children_tail := l\<rparr>)"
    using record_exit_ok [OF q r y, of ?e st "process_id x" M] by blast
  let ?y = "y\<lparr>exited_children_head := h, exited_children_tail := l\<rparr>"
  have start: "report_exit M (Some p) st s =
      (if waiting y then rbind (wr_pcb (Some p) (waiting_update (\<lambda>_. False)) t) (PushProcToQueue M (Some p)) else Inr t)"
    using me y t(1,7) by (simp add: report_exit_def malloc_exited_def)
  show ?thesis
  proof (cases "waiting y")
    case False
    then have "?y = ?y\<lparr>waiting := False\<rparr>" by simp
    with False start t show ?thesis by (intro exI [of _ t] exI [of _ h] exI [of _ l]) auto
  next
    case True
    let ?u = "t\<lparr>pcbs := (pcbs t)(p \<mapsto> ?y\<lparr>waiting := False\<rparr>)\<rparr>"
    have "heap_wf ?u" using t(3,7) by (auto simp: ready_repr_def heap_wf_def)
    then have "ready_repr ?u ps"
      by (intro ready_repr_cong [OF t(3)]) (use t(7) in \<open>auto simp: is_pcb_def\<close>)
    then obtain s' where s': "PushProcToQueue M (Some p) ?u = Inr s'" "ready_repr s' (ps @ [Some p])" "only_ready ?u s'"
      using PushProcToQueue_ok [of ?u ps "Some p" M] by (auto simp: is_pcb_def)
    have "exit_q ?u p (xs @ [heap_top s])" using t(2,7) by (auto simp: exit_q_def)
    then have "exit_q s' p (xs @ [heap_top s])" using only_readyD [OF s'(3)] by (simp add: exit_q_def)
    then show ?thesis
      using True start s' t only_readyD [OF s'(3)] by (intro exI [of _ s'] exI [of _ h] exI [of _ l]) auto
  qed
qed

section \<open>The whole of Exit\<close>

lemma orphaned_frame [simp]:
  "curr_proc (orphaned cs s) = curr_proc s" "idle_pcb (orphaned cs s) = idle_pcb s"
  "heap_top (orphaned cs s) = heap_top s" "exiteds (orphaned cs s) = exiteds s"
  "is_pcb (orphaned cs s) p = is_pcb s p" "pid_of (orphaned cs s) p = pid_of s p"
  "a \<notin> set cs \<Longrightarrow> pcbs (orphaned cs s) a = pcbs s a"
  by (cases p; auto simp: orphaned_def is_pcb_def pid_of_def rd_pcb_def hget_def split: option.splits)+

lemma ready_repr_orphaned:
  assumes "ready_repr s ps"
  shows "ready_repr (orphaned cs s) ps"
proof (rule ready_repr_cong [OF assms])
  show "heap_wf (orphaned cs s)" using assms by (simp add: ready_repr_def heap_wf_def orphaned_def)
qed (simp_all add: orphaned_def is_pcb_def)

lemma child_q_orphaned:
  assumes "child_q s p ds" "p \<notin> set cs"
  shows "child_q (orphaned cs s) p ds"
proof -
  have "sib.dseg (pcbs (orphaned cs s)) NULL ds NULL"
    by (rule sib.dseg_links [of ds _ "pcbs s"])
      (use assms in \<open>auto simp: orphaned_def child_q_def sib.dlist_def option.map_comp comp_def\<close>)
  with assms show ?thesis by (auto simp: child_q_def sib.dlist_def)
qed

lemma exit_q_orphaned: "exit_q s p xs \<Longrightarrow> p \<notin> set cs \<Longrightarrow> exit_q (orphaned cs s) p xs"
  by (simp add: exit_q_def)

lemma child_removed_exit_q:
  assumes "child_removed p as c bs s s'" "exit_q s p xs"
  shows "exit_q s' p xs"
proof -
  have "exiteds s' = exiteds s" using assms(1) by (auto simp only: child_removed_def intro: only_pcbs_exiteds)
  moreover have "map_option (\<lambda>x. (exited_children_head x, exited_children_tail x)) (pcbs s' p)
      = map_option (\<lambda>x. (exited_children_head x, exited_children_tail x)) (pcbs s p)"
    using assms(1) by (simp add: child_removed_def)
  ultimately show ?thesis using assms(2) by (auto simp: exit_q_def)
qed

lemma child_removed_frame:
  assumes "child_removed p as c bs s s'"
  shows "same_bare s s'" "curr_proc s' = curr_proc s" "idle_pcb s' = idle_pcb s" "heap_top s' = heap_top s"
    "ready_repr s ps \<Longrightarrow> ready_repr s' ps"
proof -
  show sb: "same_bare s s'" using assms by (simp add: child_removed_def)
  have o: "s' = s\<lparr>pcbs := pcbs s'\<rparr>" using assms by (simp add: child_removed_def)
  note f = only_familyD [OF only_familyI [OF o]]
  show "curr_proc s' = curr_proc s" "idle_pcb s' = idle_pcb s" "heap_top s' = heap_top s" by (rule f)+
  have "pcbs s a = None \<Longrightarrow> pcbs s' a = None" for a
    using same_bare_pid(2) [OF sb, of "Some a"] by (simp add: is_pcb_simps)
  then have "heap_wf s \<Longrightarrow> heap_wf s'" using f only_pcbs_exiteds [OF o] by (simp add: heap_wf_def)
  then show "ready_repr s' ps" if "ready_repr s ps"
    using that by (intro ready_repr_cong [OF that]) (use f same_bare_pid(2) [OF sb] in \<open>auto simp: ready_repr_def\<close>)
qed

lemma ExitFunc_steps:
  assumes me: "curr_proc s = Some c" "pcbs s c = Some x" "parent x = Some p" and y: "pcbs s p = Some y"
    and q: "child_q s c cs" "p \<notin> set cs" "child_q s p (as @ c # bs)"
  shows "ExitFunc M st s =
    rbind (leave_parent (Some p) (orphaned cs s)) (\<lambda>s.
    rbind (report_exit M (Some p) st s) (\<lambda>s.
    rbind (FindReadyPcb M s) (\<lambda>(s, next_pcb).
    Inr (s, Call_ContextSwitch SWITCH_EXIT (curr_proc s) next_pcb K_ExitFunc))))"
proof -
  have c: "c \<notin> set cs" "children_head x = lead cs NULL" using q(1) me by (auto simp: child_q_def)
  have "(if children_head x \<noteq> NULL then orphan_children (children_head x) s else Inr s) = Inr (orphaned cs s)"
    using orphan_children_ok [OF q(1)] c(2) by (cases cs) (simp_all add: orphaned_def)
  moreover have "children_head y \<noteq> NULL"
    using child_q_facts(4) [OF q(3)] y by (cases as) auto
  moreover have "pcbs (orphaned cs s) c = Some x" "pcbs (orphaned cs s) p = Some y" using c(1) q(2) me y by simp_all
  ultimately show ?thesis using me
    by (simp add: ExitFunc_def) (cases "leave_parent (Some p) (orphaned cs s)"; simp)
qed

section \<open>Properties of the process life cycle\<close>

text \<open>C1: \<open>ExitFunc\<close> of a process with a parent. It takes the process off the parent's list of children,
  appends a record with its id and status to the parent's exited children, wakes the parent if it
  waits, makes every child an orphan, and switches to the first ready process, or to idle if there
  is none. It always gets there.\<close>

theorem ExitFunc_reports_to_parent:
  assumes "ready_repr s ps" "curr_proc s = Some c" "pcbs s c = Some x" "parent x = Some p" "pcbs s p = Some y"
    "child_q s c cs" "p \<notin> set cs" "child_q s p (as @ c # bs)" "exit_q s p xs"
    "\<forall>d\<in>set (as @ bs). pid_of s (Some d) \<noteq> pid_of s (Some c)"
    "qs = (if waiting y then ps @ [Some p] else ps)"
  shows "\<exists>s'. ExitFunc M st s = Inr (s', Call_ContextSwitch SWITCH_EXIT (Some c) (next_ready s qs) K_ExitFunc) \<and>
    child_q s' p (as @ bs) \<and> exit_q s' p (xs @ [heap_top s]) \<and>
    map_option (\<lambda>e. (x_process_id e, status e)) (exiteds s' (heap_top s)) = Some (process_id x, st) \<and>
    ready_repr s' (tl qs) \<and> (\<forall>d\<in>set cs. map_option parent (pcbs s' d) = Some NULL)"
proof -
  let ?o = "orphaned cs s"
  have c: "c \<notin> set cs" using assms(6) by (simp add: child_q_def)
  obtain t where t: "leave_parent (Some p) ?o = Inr t" "child_removed p as c bs ?o t"
    using leave_parent_ok [OF child_q_orphaned [OF assms(8,7)]] assms(2,10) by auto
  note f = child_removed_frame [OF t(2)]
  have eq: "exit_q t p xs" by (rule child_removed_exit_q [OF t(2) exit_q_orphaned [OF assms(9,7)]])
  have rt: "ready_repr t ps" by (rule f(5) [OF ready_repr_orphaned [OF assms(1)]])
  obtain x' where x': "pcbs t c = Some x'" "process_id x' = process_id x"
    using same_bare_field [OF f(1), of process_id c] c assms(3) by (auto simp: bare_def)
  obtain y' where y': "pcbs t p = Some y'" "waiting y' = waiting y"
    using same_bare_field [OF f(1), of waiting p] assms(5,7) by (auto simp: bare_def)
  obtain u h l where u: "report_exit M (Some p) st t = Inr u" "exit_q u p (xs @ [heap_top t])"
      "ready_repr u qs" "idle_pcb u = idle_pcb t" "curr_proc u = curr_proc t"
      "map_option (\<lambda>e. (x_process_id e, status e)) (exiteds u (heap_top t)) = Some (process_id x, st)"
      "pcbs u = (pcbs t)(p \<mapsto> y'\<lparr>exited_children_head := h, exited_children_tail := l, waiting := False\<rparr>)"
    using report_exit_ok [OF eq rt y'(1) _ x'(1), of M st] f(2) assms(2,11) x'(2) y'(2) by auto
  obtain v where v: "FindReadyPcb M u = Inr (v, next_ready u qs)" "ready_repr v (tl qs)" "only_ready u v"
    using FindReadyPcb_ok [OF u(3), of M] by blast
  note g = only_readyD [OF v(3)]
  have "next_ready u qs = next_ready s qs" using u(4) f(3) by (simp add: next_ready_def split: list.split)
  then have run: "ExitFunc M st s = Inr (v, Call_ContextSwitch SWITCH_EXIT (Some c) (next_ready s qs) K_ExitFunc)"
    using ExitFunc_steps [OF assms(2-8), of M st] t u v g f(2) assms(2) by simp
  have cq: "child_q u p (as @ bs)"
    using t(2) child_q_exit_links [OF _ y'(1) u(7)] by (simp add: child_removed_def)
  have "map_option parent (pcbs v d) = Some NULL" if d: "d \<in> set cs" for d
  proof -
    obtain z where "pcbs s d = Some z" using child_q_alloc [OF assms(6) d] by blast
    then have "map_option parent (pcbs t d) = Some NULL"
      using same_bare_field [OF f(1), of parent d] d by (simp add: bare_def orphaned_def)
    then show ?thesis using u(7) g(1) d assms(7) by auto
  qed
  with run cq u g v f(4) show ?thesis by (intro exI [of _ v]) (auto simp: child_q_def exit_q_def)
qed

text \<open>The family of process 2, which waits; its second child runs and process 1 is idle.\<close>

definition demo_exit :: kstate where
  "demo_exit = demo_family\<lparr>pcbs := (pcbs demo_family)(2 \<mapsto> (the (pcbs demo_family 2))\<lparr>waiting := True\<rparr>),
     curr_proc := Some 4\<rparr>"

lemma demo_exit_facts:
  "curr_proc demo_exit = Some 4" "child_q demo_exit 4 []" "child_q demo_exit 2 [3, 4, 5]" "exit_q demo_exit 2 [6, 7]"
  "ready_q demo_exit []" "heap_wf demo_exit" "is_pcb demo_exit (Some 4)" "heap_top demo_exit = 10"
  "\<exists>x. pcbs demo_exit 4 = Some x \<and> parent x = Some 2 \<and> process_id x = 3"
  "\<exists>y. pcbs demo_exit 2 = Some y \<and> waiting y"
  "pid_of demo_exit (Some 3) = Some 2" "pid_of demo_exit (Some 4) = Some 3" "pid_of demo_exit (Some 5) = Some 4"
  by (simp_all add: demo_exit_def demo_family_def child_q_def exit_q_def ready_q_def heap_wf_def sib.dlist_def
      xq.dlist_def zero_pcb_def zero_exited_def blank_def is_pcb_simps pid_of_simps)

lemma demo_exit_repr: "ready_repr demo_exit []"
  using demo_exit_facts by (simp add: ready_repr_def ready_procs_def)

theorem ExitFunc_reports_to_parent_witness:
  "\<exists>s'. ExitFunc tiny 9 demo_exit = Inr (s', Call_ContextSwitch SWITCH_EXIT (Some 4) (Some 2) K_ExitFunc) \<and>
    child_q s' 2 [3, 5] \<and> exit_q s' 2 [6, 7, 10] \<and>
    map_option (\<lambda>e. (x_process_id e, status e)) (exiteds s' 10) = Some (3, 9)"
proof -
  obtain x y where x: "pcbs demo_exit 4 = Some x" "parent x = Some 2" "process_id x = 3"
      and y: "pcbs demo_exit 2 = Some y" "waiting y"
    using demo_exit_facts(9,10) by auto
  have "child_q demo_exit 2 ([3] @ 4 # [5])" using demo_exit_facts by simp
  from ExitFunc_reports_to_parent [OF demo_exit_repr demo_exit_facts(1) x(1,2) y(1) demo_exit_facts(2) _ this
      demo_exit_facts(4), of "[Some 2]" tiny 9]
  show ?thesis using x y demo_exit_facts by (auto simp: next_ready_def)
qed

text \<open>The walk of \<open>ExitFunc\<close> over the children ends. It clears the parent of every child and changes
  nothing else.\<close>

lemma orphan_children_total:
  assumes "child_q s p cs"
  shows "orphan_children (lead cs NULL) s =
    Inr (s\<lparr>pcbs := \<lambda>a. if a \<in> set cs then map_option (parent_update (\<lambda>_. NULL)) (pcbs s a) else pcbs s a\<rparr>)"
  using orphan_children_ok [OF assms] by (simp add: orphaned_def)

lemma orphan_children_total_witness:
  "\<exists>s'. orphan_children (Some 3) demo_family = Inr s' \<and>
    map (\<lambda>a. map_option parent (pcbs s' a)) [3, 4, 5] = replicate 3 (Some NULL)"
  using orphan_children_total [OF demo_family_q(1)] by (simp add: demo_family_def numeral_3_eq_3)

text \<open>C30: \<open>Wait\<close> without exited children. A process that has no running child either gets \<open>ERROR\<close> and
  nothing changes; otherwise it is marked as waiting and the first ready process, or idle, runs.\<close>

theorem WaitFunc_none_exited:
  assumes "ready_repr s ps" "curr_proc s = Some c" "exit_q s c []" "child_q s c cs"
  shows "if cs = [] then WaitFunc M info s = Inr (s, Ret ERROR)
    else \<exists>s'. WaitFunc M info s =
        Inr (s', Call_ContextSwitch SWITCH_EXIST (Some c) (next_ready s ps) (K_WaitFunc info)) \<and>
      map_option waiting (pcbs s' c) = Some True \<and> ready_repr s' (tl ps) \<and> child_q s' c cs"
proof -
  obtain x where x: "pcbs s c = Some x" "exited_children_head x = NULL" "children_head x = lead cs NULL"
    using assms(3,4) by (auto simp: exit_q_def child_q_def)
  show ?thesis
  proof (cases cs)
    case Nil
    with x assms(2) show ?thesis by (simp add: WaitFunc_def)
  next
    case (Cons d ds)
    let ?t = "s\<lparr>pcbs := (pcbs s)(c \<mapsto> x\<lparr>waiting := True\<rparr>)\<rparr>"
    have "heap_wf ?t" using assms(1) x by (auto simp: ready_repr_def heap_wf_def)
    then have "ready_repr ?t ps"
      by (intro ready_repr_cong [OF assms(1)]) (auto simp: is_pcb_def)
    then obtain s' where s': "FindReadyPcb M ?t = Inr (s', next_ready ?t ps)" "ready_repr s' (tl ps)" "only_ready ?t s'"
      using FindReadyPcb_ok [of ?t ps M] by blast
    note f = only_readyD [OF s'(3)]
    have "child_q ?t c cs"
      using child_q_exit_links [OF assms(4) x(1), of ?t True "exited_children_tail x" "exited_children_head x"] by simp
    then have "child_q s' c cs" using f(1) by (simp add: child_q_def)
    moreover have "next_ready ?t ps = next_ready s ps" by (simp add: next_ready_def split: list.split)
    ultimately show ?thesis using Cons x assms(2) s' f by (simp add: WaitFunc_def)
  qed
qed

theorem WaitFunc_none_exited_witness:
  "WaitFunc tiny zero_info demo = Inr (demo, Ret ERROR)"
proof -
  have "exit_q demo 2 []" "child_q demo 2 []"
    by (simp_all add: exit_q_def child_q_def demo_def zero_pcb_def)
  with WaitFunc_none_exited [OF demo_repr demo_facts(7), of "[]" tiny zero_info] show ?thesis by simp
qed

text \<open>C31: \<open>Wait\<close> with two or more exited children takes the record of the one that exited first off the list
  and leaves the others, and then reads the id to return from the record it has just freed. What comes
  out depends on the allocator: a fault if the block is no longer readable, otherwise whatever the
  allocator has left in the place of the id, the id of the child only if it was not overwritten.\<close>

theorem WaitFunc_reads_freed_record:
  assumes "curr_proc s = Some c" "exit_q s c (a # b # xs)" "exiteds s a = Some e"
  shows "\<exists>t. exit_q t c (b # xs) \<and> same_bare s t \<and> only_family s t \<and> exiteds t a = freed_exited M e \<and>
    WaitFunc M info s = (case freed_exited M e of None \<Rightarrow> Inl WildDeref | Some e' \<Rightarrow> Inr (t, Ret (x_process_id e')))"
proof -
  obtain t where t: "RemoveHeadFromExitQueue M (Some c) s = Inr t" "exit_q t c (b # xs)" "same_bare s t"
      "t = s\<lparr>pcbs := pcbs t, exiteds := exiteds t\<rparr>" "exiteds t a = Option.bind (exiteds s a) (freed_exited M)"
    using RemoveHeadFromExitQueue_two [OF assms(2), of M] by blast
  obtain x where "pcbs s c = Some x" "exited_children_head x = Some a"
    using assms(2) by (auto simp: exit_q_def)
  with t assms show ?thesis
    by (intro exI [of _ t]) (auto simp: WaitFunc_def WaitFunc_resume_def only_family_def split: option.split)
qed

text \<open>On the strict reading a freed block is not readable. An allocator may also keep it mapped and
  put links of its own over the first two words.\<close>

theorem WaitFunc_reads_freed_record_witness:
  "WaitFunc tiny zero_info demo_family = Inl WildDeref \<and>
   (\<exists>t. WaitFunc (tiny\<lparr>freed_exited := \<lambda>e. Some (e\<lparr>x_prev := NULL, x_parent := NULL\<rparr>)\<rparr>) zero_info demo_family = Inr (t, Ret 5) \<and>
      exit_q t 2 [7])"
proof -
  obtain e where e: "exiteds demo_family 6 = Some e" "x_process_id e = 5"
    by (simp add: demo_family_def)
  have c: "curr_proc demo_family = Some 2" by (simp add: demo_family_def)
  have "freed_exited tiny e = None" by (simp add: tiny_def)
  with WaitFunc_reads_freed_record [OF c demo_family_q(2) e(1), of tiny zero_info] show ?thesis
    using WaitFunc_reads_freed_record [OF c demo_family_q(2) e(1),
        of "tiny\<lparr>freed_exited := \<lambda>e. Some (e\<lparr>x_prev := NULL, x_parent := NULL\<rparr>)\<rparr>" zero_info] e(2) by auto
qed

text \<open>C32: \<open>Wait\<close> with exactly one exited child, the usual case, makes the kernel follow a null pointer.\<close>

theorem WaitFunc_single_child_faults:
  assumes "curr_proc s = Some c" "exit_q s c [a]"
  shows "WaitFunc M info s = Inl NullDeref"
proof -
  obtain x where "pcbs s c = Some x" "exited_children_head x = Some a"
    using assms(2) by (auto simp: exit_q_def)
  with assms RemoveHeadFromExitQueue_one [OF assms(2), of M] show ?thesis
    by (simp add: WaitFunc_def WaitFunc_resume_def)
qed

definition demo_one_exited :: kstate where
  "demo_one_exited = demo\<lparr>pcbs := (pcbs demo)(2 \<mapsto> zero_pcb\<lparr>process_id := 1, exited_children_head := Some 6,
       exited_children_tail := Some 6\<rparr>),
     exiteds := [6 \<mapsto> zero_exited\<lparr>x_process_id := 2\<rparr>]\<rparr>"

theorem WaitFunc_single_child_faults_witness:
  "WaitFunc tiny zero_info demo_one_exited = Inl NullDeref"
  by (rule WaitFunc_single_child_faults [of _ 2 6])
    (simp_all add: exit_q_def xq.dlist_def demo_one_exited_def demo_def zero_exited_def)

text \<open>A forked child joins the end of its parent's list of children and has it as its parent; no
  other process changes but in its family links.\<close>

lemma adopt_appends_child:
  assumes "child_q s p cs" "pcbs s c = Some x" "next_sibling x = NULL" "c \<notin> set (p # cs)"
  shows "\<exists>s'. adopt (Some c) (Some p) s = Inr s' \<and> child_q s' p (cs @ [c]) \<and>
    map_option parent (pcbs s' c) = Some (Some p) \<and>
    (\<forall>d. d \<noteq> c \<longrightarrow> map_option bare (pcbs s' d) = map_option bare (pcbs s d))"
proof -
  obtain s' where s': "adopt (Some c) (Some p) s = Inr s'" "child_q s' p (cs @ [c])"
      "\<forall>d. d \<noteq> c \<longrightarrow> map_option bare (pcbs s' d) = map_option bare (pcbs s d)"
      "map_option bare (pcbs s' c) = Some (bare (x\<lparr>parent := Some p\<rparr>))"
    using adopt_ok [OF assms] by blast
  from arg_cong [OF s'(4), of "map_option parent"] have "map_option parent (pcbs s' c) = Some (Some p)"
    by (simp add: option.map_comp comp_def bare_def)
  with s' show ?thesis by blast
qed

lemma adopt_appends_child_witness:
  "\<exists>s'. adopt (Some 1) (Some 2) demo_family = Inr s' \<and> child_q s' 2 [3, 4, 5, 1] \<and>
    map_option parent (pcbs s' 1) = Some (Some 2)"
proof -
  have "pcbs demo_family 1 = Some zero_pcb" "next_sibling zero_pcb = NULL" by (simp_all add: demo_family_def zero_pcb_def)
  from adopt_appends_child [OF demo_family_q(1) this] show ?thesis by auto
qed

text \<open>Both processes leave \<open>Fork\<close> with the right value: 0 in the child, the child's id in any other
  process that resumes there, which is the parent.\<close>

lemma ForkFunc_return_values:
  assumes "pid_inv s" "is_pcb s (curr_proc s)" "pcbs s c = Some x"
  shows "ForkFunc_resume (Some c) s = Inr (if curr_proc s = Some c then 0 else process_id x)"
proof -
  obtain a y where y: "curr_proc s = Some a" "pcbs s a = Some y" using assms(2) by (rule is_pcbE)
  then have "process_id y = process_id x \<longleftrightarrow> a = c" using assms(1,3) by (auto simp: pid_inv_def)
  with y assms(3) show ?thesis by (auto simp: ForkFunc_resume_def)
qed

lemma ForkFunc_return_values_witness:
  "ForkFunc_resume (Some 3) (demo\<lparr>next_proc_id := 3\<rparr>) = Inr 2 \<and>
   ForkFunc_resume (Some 2) (demo\<lparr>next_proc_id := 3\<rparr>) = Inr 0"
proof -
  have c: "is_pcb (demo\<lparr>next_proc_id := 3\<rparr>) (curr_proc (demo\<lparr>next_proc_id := 3\<rparr>))"
    by (simp add: demo_def is_pcb_simps)
  have "\<exists>x. pcbs (demo\<lparr>next_proc_id := 3\<rparr>) 3 = Some x \<and> process_id x = 2"
    "\<exists>x. pcbs (demo\<lparr>next_proc_id := 3\<rparr>) 2 = Some x" by (simp_all add: demo_def)
  with ForkFunc_return_values [OF demo_pid_inv c] demo_facts(7) show ?thesis by fastforce
qed

lemma child_q_cong:
  assumes "child_q s p cs" "\<And>a. a \<in> insert p (set cs) \<Longrightarrow> pcbs s' a = pcbs s a"
  shows "child_q s' p cs"
  using assms sib.dseg_cong [of cs "pcbs s'" "pcbs s"] by (auto simp: child_q_def sib.dlist_def)

lemma entry_pcbs: "s' = s\<lparr>pcbs := h\<rparr> \<Longrightarrow> entry t s' = entry t s"
  by simp

text \<open>What \<open>ForkFunc\<close> leaves when it calls \<open>ContextSwitch\<close>, besides the process \<open>n\<close> and its table.\<close>

definition fork_made :: "machine \<Rightarrow> nat \<Rightarrow> nat list \<Rightarrow> nat \<Rightarrow> kstate \<Rightarrow> kstate \<Rightarrow> bool" where
  "fork_made M v fl n s s' \<longleftrightarrow> frames_wf s' \<and> free_list s' = drop (KERNEL_STACK_PAGES M) fl \<and>
     tbl_len (PT_R1 v) (PAGE_TABLE_LEN M) s' \<and> frames s' = frames s \<and> length (freePages s') = length (freePages s) \<and>
     only_mem (s\<lparr>pcbs := pcbs s', heap_top := Suc n, next_proc_id := int_inc (next_proc_id s)\<rparr>) s' \<and>
     v < PAGE_TABLE_LEN M \<and> \<not> valid (region1Pt s ! v) \<and>
     (\<exists>e. valid e \<and> region1Pt s' = (region1Pt s)[v := e]) \<and> (\<forall>t ps. tbl s t = Inr ps \<longrightarrow> tbl s' t = Inr ps) \<and>
     (\<forall>d. d \<noteq> n \<longrightarrow> map_option bare (pcbs s' d) = map_option bare (pcbs s d))"

lemma ForkFunc_made:
  assumes "hw_layout M" "heap_wf s" "curr_proc s = Some c" "pcbs s c = Some x" "child_q s c cs" "frames_wf s"
    "findFreeVirtualPage M s = Inr (s1, int v)" "length (region1Pt s) = PAGE_TABLE_LEN M" "length (r1_tables s v) = PAGE_TABLE_LEN M"
    "fl = removeAll (v + PAGE_TABLE_LEN M) (free_list s)" "KERNEL_STACK_PAGES M \<le> length fl"
    "base = PAGE_TABLE_LEN M - KERNEL_STACK_PAGES M" "n = heap_top s"
  shows "\<exists>s' y. ForkFunc M info s = Inr (s', Call_ContextSwitch SWITCH_FORK (Some c) (Some n) (K_ForkFunc info (Some n))) \<and>
    child_q s' c (cs @ [n]) \<and> pcbs s' n = Some y \<and> process_id y = next_proc_id s \<and> parent y = Some c \<and>
    brk y = brk x \<and> sp y = sp x \<and> region0 y = PT_R1 v \<and> free_vpn y = of_nat v \<and> fork_made M v fl n s s' \<and>
    (\<forall>j. entry (PT_R1 v) s' j = (if base \<le> j \<and> j < PAGE_TABLE_LEN M then Some \<lparr>pfn = c_pfn (int (fl ! (j - base))),
         uprot = PROT_NONE, kprot = {PROT_READ, PROT_WRITE}, valid = True\<rparr>
       else if j < PAGE_TABLE_LEN M then Some (r1_tables s v ! j) else None))"
proof -
  let ?f = "fresh_pcb M s" and ?e = "\<lambda>s'. \<forall>j. entry (PT_R1 v) s' j = (if base \<le> j \<and> j < PAGE_TABLE_LEN M
      then Some \<lparr>pfn = c_pfn (int (fl ! (j - base))), uprot = PROT_NONE, kprot = {PROT_READ, PROT_WRITE}, valid = True\<rparr>
      else if j < PAGE_TABLE_LEN M then Some (r1_tables s v ! j) else None)"
  define s0 where "s0 = s\<lparr>pcbs := (pcbs s)(n \<mapsto> ?f), heap_top := Suc n, next_proc_id := int_inc (next_proc_id s)\<rparr>"
  have nc: "n \<notin> set (c # cs)" using assms(2,4,13) child_q_alloc [OF assms(5)] by (fastforce simp: heap_wf_def)
  have cr: "create_pcb M s = Inr (s0, Some n)" using assms(13) by (simp add: create_pcb_eq s0_def)
  have lp: "findFreeVirtualPage_loop M vs s0 = (case findFreeVirtualPage_loop M vs s of Inl f \<Rightarrow> Inl f
      | Inr (t, p) \<Rightarrow> Inr (s0\<lparr>freePages := freePages t\<rparr>, p))" for vs
    by (induction vs) (auto simp: s0_def Let_def rd_r1_def set_freePages_def rbind_def split: sum.splits)
  have ff: "findFreeVirtualPage M s0 = Inr (s0\<lparr>freePages := freePages s1\<rparr>, int v)"
    using assms(7) lp by (simp add: findFreeVirtualPage_def)
  have "pcbs s0 n = Some ?f" "frames_wf s0" "free_list s0 = free_list s" "region1Pt s0 = region1Pt s" "r1_tables s0 = r1_tables s"
    using assms(6) by (simp_all add: s0_def frames_wf_def free_list_def)
  then obtain t where t: "BuildRegion0 M (Some n) s0 = Inr t"
      "pcbs t = (pcbs s0)(n \<mapsto> ?f\<lparr>region0 := PT_R1 v, free_vpn := of_nat v\<rparr>)" "built_region0 M v fl s0 t" "?e t"
    using BuildRegion0_ok [OF assms(1) _ ff, of n ?f fl base] assms(8-12) by auto
  let ?g = "?f\<lparr>region0 := PT_R1 v, free_vpn := of_nat v, sp := sp x, brk := brk x\<rparr>"
  define u where "u = t\<lparr>pcbs := (pcbs t)(n \<mapsto> ?g)\<rparr>"
  have tc: "pcbs t c = Some x" "pcbs t n = Some (?f\<lparr>region0 := PT_R1 v, free_vpn := of_nat v\<rparr>)"
    using t(2) nc assms(4) by (simp_all add: s0_def)
  have "child_q u c cs" by (rule child_q_cong [OF assms(5)]) (use nc t(2) in \<open>auto simp: u_def s0_def\<close>)
  moreover have "pcbs u n = Some ?g" "next_sibling ?g = NULL" by (simp_all add: u_def fresh_pcb_def)
  ultimately obtain s' where s': "adopt (Some n) (Some c) u = Inr s'" "child_q s' c (cs @ [n])" "s' = u\<lparr>pcbs := pcbs s'\<rparr>"
      "map_option bare (pcbs s' n) = Some (bare (?g\<lparr>parent := Some c\<rparr>))"
      "\<forall>d. d \<noteq> n \<longrightarrow> map_option bare (pcbs s' d) = map_option bare (pcbs u d)"
    using adopt_ok [of u c cs n ?g] nc by blast
  from s'(4) obtain y where y: "pcbs s' n = Some y" "bare y = bare (?g\<lparr>parent := Some c\<rparr>)" by auto
  have "process_id y = next_proc_id s \<and> parent y = Some c \<and> brk y = brk x \<and> sp y = sp x \<and> region0 y = PT_R1 v \<and> free_vpn y = of_nat v"
    using arg_cong [OF y(2), of "\<lambda>y. (process_id y, parent y, brk y, sp y, region0 y, free_vpn y)"] by (simp add: bare_def fresh_pcb_def)
  moreover have "ForkFunc M info s = Inr (s', Call_ContextSwitch SWITCH_FORK (Some c) (Some n) (K_ForkFunc info (Some n)))"
    using assms(3) cr t(1) tc s'(1) by (simp add: ForkFunc_def u_def)
  moreover have e': "s' = t\<lparr>pcbs := pcbs s'\<rparr>" using s'(3) by (simp add: u_def)
  then have "?e s'" using t(4) entry_pcbs [OF e'] by simp
  moreover have "fork_made M v fl n s s'"
  proof -
    have other: "map_option bare (pcbs s' d) = map_option bare (pcbs s d)" if "d \<noteq> n" for d
      using s'(5) that t(2) by (simp add: u_def s0_def)
    have "only_mem (s0\<lparr>pcbs := pcbs s'\<rparr>) (t\<lparr>pcbs := pcbs s'\<rparr>)"
      by (rule only_mem_pcbs [where h = "pcbs t"]) (use t(3) in \<open>simp add: built_region0_def\<close>)
    moreover have "s0\<lparr>pcbs := pcbs s'\<rparr> = s\<lparr>pcbs := pcbs s', heap_top := Suc n, next_proc_id := int_inc (next_proc_id s)\<rparr>"
      by (simp add: s0_def)
    ultimately have om: "only_mem (s\<lparr>pcbs := pcbs s', heap_top := Suc n, next_proc_id := int_inc (next_proc_id s)\<rparr>) (t\<lparr>pcbs := pcbs s'\<rparr>)"
      by simp
    have tt: "tbl (s0) w = tbl s w" for w by (cases w) (simp_all add: s0_def tbl_def)
    have "free_list (t\<lparr>pcbs := p\<rparr>) = free_list t" "frames_wf (t\<lparr>pcbs := p\<rparr>) = frames_wf t"
       "tbl_len w k (t\<lparr>pcbs := p\<rparr>) = tbl_len w k t" for p w k
      by (simp_all add: frames_wf_def tbl_len_def)
    then have "fork_made M v fl n s (t\<lparr>pcbs := pcbs s'\<rparr>)" using t(3) tt om other
      by (auto simp: built_region0_def fork_made_def s0_def)
    then show ?thesis using e' by simp
  qed
  ultimately show ?thesis using s'(2) y(1) by blast
qed

text \<open>C6: \<open>Fork\<close> up to the switch. It creates a process with the next process id and the break and stack bottom of
  its parent, gives it the page \<open>v\<close> of Region 1 for its page table and free frames for its kernel
  stack, makes it the youngest child of the parent, and calls \<open>ContextSwitch\<close> with the two
  processes. The other entries of the new table are what the page happens to contain.\<close>

theorem ForkFunc_creates_child:
  assumes "hw_layout M" "heap_wf s" "curr_proc s = Some c" "pcbs s c = Some x" "child_q s c cs" "frames_wf s"
    "findFreeVirtualPage M s = Inr (s1, int v)" "length (region1Pt s) = PAGE_TABLE_LEN M" "length (r1_tables s v) = PAGE_TABLE_LEN M"
    "fl = removeAll (v + PAGE_TABLE_LEN M) (free_list s)" "KERNEL_STACK_PAGES M \<le> length fl"
    "base = PAGE_TABLE_LEN M - KERNEL_STACK_PAGES M" "n = heap_top s"
  shows "\<exists>s' y. ForkFunc M info s = Inr (s', Call_ContextSwitch SWITCH_FORK (Some c) (Some n) (K_ForkFunc info (Some n))) \<and>
    child_q s' c (cs @ [n]) \<and> pcbs s' n = Some y \<and> process_id y = next_proc_id s \<and> parent y = Some c \<and>
    brk y = brk x \<and> sp y = sp x \<and> region0 y = PT_R1 v \<and> free_vpn y = of_nat v \<and>
    (\<forall>j. entry (PT_R1 v) s' j = (if base \<le> j \<and> j < PAGE_TABLE_LEN M then Some \<lparr>pfn = c_pfn (int (fl ! (j - base))),
         uprot = PROT_NONE, kprot = {PROT_READ, PROT_WRITE}, valid = True\<rparr>
       else if j < PAGE_TABLE_LEN M then Some (r1_tables s v ! j) else None))"
  using ForkFunc_made [OF assms, of info] by blast

theorem ForkFunc_creates_child_witness:
  "\<exists>s' y. ForkFunc tiny zero_info demo = Inr (s', Call_ContextSwitch SWITCH_FORK (Some 2) (Some 10) (K_ForkFunc zero_info (Some 10))) \<and>
     child_q s' 2 [10] \<and> pcbs s' 10 = Some y \<and> region0 y = PT_R1 5 \<and>
     map_option (\<lambda>e. (unat (pfn e), valid e)) (entry (PT_R1 5) s' 6) = Some (0, True)"
proof -
  have L: "PAGE_TABLE_LEN tiny = 8" "KERNEL_STACK_PAGES tiny = 2" by (simp_all add: tiny_def)
  have d: "curr_proc demo = Some 2" "heap_wf demo" "10 = heap_top demo" using demo_facts by simp_all
  have x: "pcbs demo 2 = Some (zero_pcb\<lparr>process_id := 1\<rparr>)" by (simp add: demo_def)
  have q: "child_q demo 2 []" by (simp add: child_q_def x zero_pcb_def)
  have f: "frames_wf demo" "free_list demo = [0..<16]"
    using blank_frames(1,2) by (simp_all add: demo_def frames_wf_def free_list_def)
  have "down_addrs 64 832 600 = 832 # down_addrs 64 768 600" using down_addrs.simps [of 64 832 600] by simp
  moreover have "rd_r1 demo 5 = Inr zero_pte" by (simp add: rd_r1_def demo_def blank_def aget_def)
  moreover have "set_freePages 13 PAGE_USED demo = Inr (demo\<lparr>freePages := (freePages demo)[13 := PAGE_USED]\<rparr>)"
    by (simp add: set_freePages_def demo_def blank_def aset_def)
  moreover have "PAGESIZE tiny = 64" "VMEM_1_LIMIT tiny = 1024" "kbrk_addr tiny = 600" "\<not> valid zero_pte"
    by (simp_all add: tiny_def PAGESIZE_def zero_pte_def)
  ultimately have v: "findFreeVirtualPage tiny demo = Inr (demo\<lparr>freePages := (freePages demo)[13 := PAGE_USED]\<rparr>, int 5)"
    by (simp add: findFreeVirtualPage_def L Let_def)
  have r: "length (region1Pt demo) = PAGE_TABLE_LEN tiny" "length (r1_tables demo 5) = PAGE_TABLE_LEN tiny"
    by (simp_all add: demo_def blank_def L)
  have fl: "removeAll (5 + PAGE_TABLE_LEN tiny) (free_list demo) = 0 # 1 # [2..<13] @ [14..<16]"
    by (simp add: f(2) L upt_conv_Cons)
  have c: "KERNEL_STACK_PAGES tiny \<le> length (0 # 1 # [2..<13] @ [14..<16::nat])" "6 = PAGE_TABLE_LEN tiny - KERNEL_STACK_PAGES tiny"
    by (simp_all add: L)
  from ForkFunc_creates_child [OF hw_layout_tiny d(2,1) x q f(1) v r fl [symmetric] c d(3), of zero_info]
  obtain s' y where y: "ForkFunc tiny zero_info demo = Inr (s', Call_ContextSwitch SWITCH_FORK (Some 2) (Some 10) (K_ForkFunc zero_info (Some 10)))"
      "child_q s' 2 ([] @ [10])" "pcbs s' 10 = Some y" "region0 y = PT_R1 5"
      "entry (PT_R1 5) s' 6 = (if 6 \<le> (6::nat) \<and> 6 < PAGE_TABLE_LEN tiny then Some \<lparr>pfn = c_pfn (int ((0 # 1 # [2..<13] @ [14..<16]) ! (6 - 6))),
         uprot = PROT_NONE, kprot = {PROT_READ, PROT_WRITE}, valid = True\<rparr>
       else if 6 < PAGE_TABLE_LEN tiny then Some (r1_tables demo 5 ! 6) else None)" by blast
  from y(5) have "entry (PT_R1 5) s' 6 = Some \<lparr>pfn = 0, uprot = PROT_NONE, kprot = {PROT_READ, PROT_WRITE}, valid = True\<rparr>"
    by (simp add: L)
  with y(1-4) show ?thesis by auto
qed

end
