(* ===== verification/Tty.thy ===== *)
theory Tty
  imports Switch
begin

text \<open>
  Terminals: \<open>TtyReceiveFunc\<close> and \<open>TtyReadFunc\<close> (src/ttyread.c), \<open>TtyWriteFunc\<close> and
  \<open>TtyTransmitFunc\<close> (src/ttywrite.c).
\<close>

definition rd_term :: "kstate \<Rightarrow> int \<Rightarrow> tty_term res" where
  "rd_term s i = aget (terms s) i"

definition wr_term :: "int \<Rightarrow> (tty_term \<Rightarrow> tty_term) \<Rightarrow> kstate \<Rightarrow> kstate res" where
  "wr_term i f s =
     rbind (aget (terms s) i) (\<lambda>t. rbind (aset (terms s) i (f t)) (\<lambda>ts. Inr (s\<lparr>terms := ts\<rparr>)))"

text \<open>\<open>terms0\<close> is what the array of terminals contains when it is allocated.\<close>

definition init_terms :: "machine \<Rightarrow> (nat \<Rightarrow> tty_term) \<Rightarrow> kstate \<Rightarrow> kstate" where
  "init_terms M terms0 s =
     s\<lparr>terms := map (\<lambda>i. (terms0 i)\<lparr>read_in := NULL, write_out := NULL, write_queue := NULL,
                       read_queue := NULL, mutex := 1\<rparr>) [0..<NUM_TERMINALS M]\<rparr>"

section \<open>Appending to a list of lines or processes\<close>

text \<open>
  The head is passed by value: when it is \<open>NULL\<close> only the parameter is assigned, and the list of the
  caller stays empty.
\<close>

definition line_tail :: "ptr \<Rightarrow> kstate \<Rightarrow> ptr res" where
  "line_tail first s =
     while_res (\<lambda>curr. case rd_line s curr of Inl _ \<Rightarrow> True | Inr l \<Rightarrow> next_line l \<noteq> NULL)
       (\<lambda>curr. rbind (rd_line s curr) (\<lambda>l. Inr (next_line l))) first"

definition addToLineTail :: "ptr \<Rightarrow> ptr \<Rightarrow> kstate \<Rightarrow> kstate res" where
  "addToLineTail head new s =
     (if head = NULL then Inr s
      else rbind (line_tail head s) (\<lambda>curr. wr_line curr (next_line_update (\<lambda>_. new)) s))"

definition proc_tail :: "(pcb \<Rightarrow> ptr) \<Rightarrow> ptr \<Rightarrow> kstate \<Rightarrow> ptr res" where
  "proc_tail nx first s =
     while_res (\<lambda>curr. case rd_pcb s curr of Inl _ \<Rightarrow> True | Inr p \<Rightarrow> nx p \<noteq> NULL)
       (\<lambda>curr. rbind (rd_pcb s curr) (\<lambda>p. Inr (nx p))) first"

definition addToProcTail :: "ptr \<Rightarrow> ptr \<Rightarrow> kstate \<Rightarrow> kstate res" where
  "addToProcTail head new s =
     (if head = NULL then Inr s
      else rbind (proc_tail write_q_next head s) (\<lambda>curr. wr_pcb curr (write_q_next_update (\<lambda>_. new)) s))"

section \<open>Output\<close>

definition TtyTransmit :: "int \<Rightarrow> 64 word \<Rightarrow> int \<Rightarrow> kstate \<Rightarrow> kstate" where
  "TtyTransmit tty buf n s = s\<lparr>tty_log := tty_log s @ [(tty, buf, n)]\<rparr>"

definition TtyTransmitFunc :: "machine \<Rightarrow> int \<Rightarrow> exc_info \<Rightarrow> kstate \<Rightarrow> (kstate \<times> int flow) res" where
  "TtyTransmitFunc M tty info s =
     rbind (rd_term s tty) (\<lambda>t.
     rbind (if write_out t \<noteq> NULL
            then rbind (rd_line s (write_out t)) (\<lambda>l. Inr (TtyTransmit tty (content l) (len l) s))
            else Inr s) (\<lambda>s.
     if write_queue t = NULL
     then rbind (FindReadyPcb M s) (\<lambda>(s, next_pcb).
          Inr (s, Call_ContextSwitch SWITCH_EXIST (curr_proc s) next_pcb (K_TtyTransmit_null info)))
     else Inr (s, Call_ContextSwitch SWITCH_EXIST (curr_proc s) (write_queue t) (K_TtyTransmit info (nat tty)))))"

definition TtyTransmitFunc_resume :: "nat \<Rightarrow> kstate \<Rightarrow> (kstate \<times> int) res" where
  "TtyTransmitFunc_resume tty s = rbind (wr_term (int tty) (mutex_update (\<lambda>_. 1)) s) (\<lambda>s. Inr (s, 0))"

definition TtyWriteFunc :: "machine \<Rightarrow> int \<Rightarrow> 64 word \<Rightarrow> int \<Rightarrow> exc_info \<Rightarrow> kstate \<Rightarrow> (kstate \<times> int flow) res" where
  "TtyWriteFunc M tty buf n info s =
     (let new = Some (heap_top s) in
      rbind (wr_line new (\<lambda>l. l\<lparr>content := buf, len := n, next_line := NULL\<rparr>) (malloc_line M s)) (\<lambda>s.
      rbind (rd_term s tty) (\<lambda>t.
      rbind (addToLineTail (write_out t) new s) (\<lambda>s.
      rbind (addToProcTail (write_queue t) (curr_proc s) s) (\<lambda>s.
      let s = (if mutex t = 1 then TtyTransmit tty buf n s else s) in
      rbind (FindReadyPcb M s) (\<lambda>(s, next_pcb).
      Inr (s, Call_ContextSwitch SWITCH_EXIST (curr_proc s) next_pcb (K_TtyWrite info n))))))))"

section \<open>Input\<close>

text \<open>
  \<open>TtyReceive(tty_id, &new_line, \<dots>)\<close> stores the line over the pointer variable \<open>new_line\<close> itself,
  which has eight bytes, instead of into the buffer it points to. \<open>received\<close> is the line the hardware
  delivers.
\<close>

definition overlay :: "8 word list \<Rightarrow> 64 word \<Rightarrow> 64 word res" where
  "overlay bs w =
     (if length bs \<le> 8 then Inr (word_rcat (rev (bs @ drop (length bs) (le_bytes w)))) else Inl ArrayBounds)"

definition TtyReceiveFunc :: "machine \<Rightarrow> 8 word list \<Rightarrow> int \<Rightarrow> kstate \<Rightarrow> (kstate \<times> int) res" where
  "TtyReceiveFunc M received tty s =
     rbind (overlay received (of_nat (heap_top s))) (\<lambda>new_line.
     let s = s\<lparr>heap_top := Suc (heap_top s)\<rparr>; n = int (length received); new = Some (heap_top s) in
     rbind (wr_line new (\<lambda>l. l\<lparr>content := new_line, len := n, next_line := NULL\<rparr>) (malloc_line M s)) (\<lambda>s.
     rbind (rd_term s tty) (\<lambda>t.
     rbind (if read_in t = NULL then Inr s
            else rbind (line_tail (read_in t) s) (\<lambda>curr. wr_line curr (next_line_update (\<lambda>_. new)) s)) (\<lambda>s.
     Inr (s, n)))))"

definition TtyReadFunc :: "int \<Rightarrow> kstate \<Rightarrow> (kstate \<times> int flow) res" where
  "TtyReadFunc tty s =
     rbind (rd_term s tty) (\<lambda>t.
     rbind (if read_queue t = NULL
            then wr_term tty (read_queue_update (\<lambda>_. curr_proc s)) s
            else rbind (proc_tail read_q_next (read_queue t) s) (\<lambda>p.
                 wr_pcb p (read_q_next_update (\<lambda>_. curr_proc s)) s)) (\<lambda>s.
     Inr (s, Halted)))"

section \<open>The lists of a terminal stay empty\<close>

text \<open>A terminal as \<open>KernelStart\<close> leaves it.\<close>

definition idle_term :: "tty_term \<Rightarrow> bool" where
  "idle_term t \<longleftrightarrow> read_in t = NULL \<and> write_out t = NULL \<and> write_queue t = NULL \<and> mutex t = 1"

definition idle_terms :: "kstate \<Rightarrow> bool" where
  "idle_terms s \<longleftrightarrow> (\<forall>t\<in>set (terms s). idle_term t)"

text \<open>
  The states that terminal operations reach from the initial one, with any other steps of the kernel
  in between: no other function of the kernel writes the terminals. \<open>TtyReadFunc\<close> halts the machine
  and reaches no further state.
\<close>

inductive tty_reach :: "machine \<Rightarrow> kstate \<Rightarrow> bool" for M where
  tty_start: "tty_reach M (init_terms M terms0 s)"
| tty_write: "tty_reach M s \<Longrightarrow> TtyWriteFunc M tty buf n info s = Inr (s', f) \<Longrightarrow> tty_reach M s'"
| tty_transmit: "tty_reach M s \<Longrightarrow> TtyTransmitFunc M tty info s = Inr (s', f) \<Longrightarrow> tty_reach M s'"
| tty_transmitted: "tty_reach M s \<Longrightarrow> TtyTransmitFunc_resume n s = Inr (s', r) \<Longrightarrow> tty_reach M s'"
| tty_receive: "tty_reach M s \<Longrightarrow> TtyReceiveFunc M received tty s = Inr (s', r) \<Longrightarrow> tty_reach M s'"
| tty_other: "tty_reach M s \<Longrightarrow> terms s' = terms s \<Longrightarrow> tty_reach M s'"

lemma FindReadyPcb_terms [frame_dests]: "FindReadyPcb M s = Inr (s', p) \<Longrightarrow> terms s' = terms s"
  by (auto simp: FindReadyPcb_def RemoveItemFromReadyQueue_def wr_item_def free_item_def Let_def
      elim!: rbind_OkE split: if_splits option.splits)

lemma wr_line_terms [frame_dests]: "wr_line p f s = Inr s' \<Longrightarrow> terms s' = terms s"
  by (auto simp: wr_line_def elim!: rbind_OkE)

lemma wr_pcb_terms [frame_dests]: "wr_pcb p f s = Inr s' \<Longrightarrow> terms s' = terms s"
  by (auto simp: wr_pcb_def elim!: rbind_OkE)

lemma malloc_line_terms [simp]: "terms (malloc_line M s) = terms s"
  by (simp add: malloc_line_def)

lemma TtyTransmit_terms [simp]: "terms (TtyTransmit tty buf n s) = terms s"
  by (simp add: TtyTransmit_def)

lemma addTail_terms [frame_dests]:
  "addToLineTail h n s = Inr s' \<Longrightarrow> terms s' = terms s" "addToProcTail h n s = Inr s' \<Longrightarrow> terms s' = terms s"
  by (auto simp: addToLineTail_def addToProcTail_def dest: frame_dests elim!: rbind_OkE split: if_splits)

lemma TtyWriteFunc_terms [frame_dests]: "TtyWriteFunc M tty buf n info s = Inr (s', f) \<Longrightarrow> terms s' = terms s"
  by (auto simp: TtyWriteFunc_def Let_def dest!: frame_dests elim!: rbind_OkE split: if_splits)

lemma TtyTransmitFunc_terms [frame_dests]: "TtyTransmitFunc M tty info s = Inr (s', f) \<Longrightarrow> terms s' = terms s"
  by (auto simp: TtyTransmitFunc_def dest!: frame_dests elim!: rbind_OkE split: if_splits)

lemma TtyReceiveFunc_terms [frame_dests]: "TtyReceiveFunc M received tty s = Inr (s', r) \<Longrightarrow> terms s' = terms s"
  by (auto simp: TtyReceiveFunc_def Let_def dest!: frame_dests elim!: rbind_OkE split: if_splits)

lemma TtyTransmitFunc_resume_idle:
  assumes "TtyTransmitFunc_resume n s = Inr (s', r)" "idle_terms s"
  shows "idle_terms s'" "length (terms s') = length (terms s)"
  using assms
  by (auto simp: TtyTransmitFunc_resume_def wr_term_def idle_terms_def idle_term_def aget_Ok_iff aset_Ok_iff
      elim!: rbind_OkE dest!: set_update_subset_insert [THEN subsetD])

lemma tty_reach_idle: "tty_reach M s \<Longrightarrow> idle_terms s \<and> length (terms s) = NUM_TERMINALS M"
proof (induction rule: tty_reach.induct)
  case (tty_start terms0 s)
  then show ?case by (auto simp: idle_terms_def idle_term_def init_terms_def)
next
  case (tty_transmitted s n s' r)
  then show ?case using TtyTransmitFunc_resume_idle by metis
qed (auto simp: idle_terms_def dest!: frame_dests)

text \<open>C25: terminal output never waits. In every state that the terminal operations can reach, all lists of
  a terminal are empty and its lock is free - the lines and processes that are appended get lost, because the
  head of a list is passed by value. Hence \<open>TtyWrite\<close> starts a transmission at once, whether or not
  an earlier one has completed, then blocks the process and leaves the terminals as they were.\<close>

theorem TtyWrite_never_waits:
  assumes "tty_reach M s" "ready_repr s ps" "0 \<le> tty" "tty < int (NUM_TERMINALS M)"
  shows "\<exists>s'. TtyWriteFunc M tty buf n info s =
      Inr (s', Call_ContextSwitch SWITCH_EXIST (curr_proc s) (next_ready s ps) (K_TtyWrite info n)) \<and>
    tty_log s' = tty_log s @ [(tty, buf, n)] \<and> ready_repr s' (tl ps) \<and>
    (\<forall>t\<in>set (terms s'). read_in t = NULL \<and> write_out t = NULL \<and> write_queue t = NULL \<and> mutex t = 1)"
proof -
  have i: "idle_terms s" "length (terms s) = NUM_TERMINALS M" using tty_reach_idle [OF assms(1)] by simp_all
  then have t: "rd_term u tty = Inr (terms s ! nat tty)" "idle_term (terms s ! nat tty)" if "terms u = terms s" for u
    using assms(3,4) that by (auto simp: rd_term_def aget_def idle_terms_def)
  let ?h = "(lines s)(heap_top s \<mapsto> (junk_line M (heap_top s))\<lparr>content := buf, len := n, next_line := NULL\<rparr>)"
  define u where "u = s\<lparr>lines := ?h, heap_top := Suc (heap_top s)\<rparr>"
  have w: "wr_line (Some (heap_top s)) (\<lambda>l. l\<lparr>content := buf, len := n, next_line := NULL\<rparr>) (malloc_line M s) = Inr u"
    by (simp add: malloc_line_def u_def)
  have "heap_wf u" using assms(2) by (simp add: u_def ready_repr_def heap_wf_def)
  then have "ready_repr (TtyTransmit tty buf n u) ps"
    by (intro ready_repr_cong [OF assms(2)]) (simp_all add: TtyTransmit_def u_def is_pcb_def heap_wf_def)
  from FindReadyPcb_ok [OF this, of M] obtain s' where s':
      "FindReadyPcb M (TtyTransmit tty buf n u) = Inr (s', next_ready (TtyTransmit tty buf n u) ps)"
      "ready_repr s' (tl ps)" "only_ready (TtyTransmit tty buf n u) s'" by blast
  have n: "next_ready (TtyTransmit tty buf n u) ps = next_ready s ps"
    by (simp add: next_ready_def TtyTransmit_def u_def split: list.split)
  have o: "terms s' = terms s" "tty_log s' = tty_log s @ [(tty, buf, n)]" "curr_proc s' = curr_proc s"
    using only_readyD [OF s'(3)] by (simp_all add: TtyTransmit_def u_def)
  have "TtyWriteFunc M tty buf n info s = Inr (s', Call_ContextSwitch SWITCH_EXIST (curr_proc s) (next_ready s ps) (K_TtyWrite info n))"
    using w t [of u] s'(1) n o(3)
    by (simp add: TtyWriteFunc_def u_def idle_term_def addToLineTail_def addToProcTail_def)
  with s'(2) o i(1) show ?thesis by (auto simp: idle_terms_def idle_term_def)
qed

theorem TtyWrite_never_waits_witness:
  "\<exists>s'. TtyWriteFunc tiny 1 100 5 zero_info (init_terms tiny (\<lambda>_. zero_term) demo) =
     Inr (s', Call_ContextSwitch SWITCH_EXIST (Some 2) (Some 1) (K_TtyWrite zero_info 5)) \<and> tty_log s' = [(1, 100, 5)]"
proof -
  let ?s = "init_terms tiny (\<lambda>_. zero_term) demo"
  have "ready_repr ?s []"
    by (rule ready_repr_cong [OF demo_repr]) (use demo_facts(3) in \<open>simp_all add: init_terms_def is_pcb_def heap_wf_def\<close>)
  from TtyWrite_never_waits [OF tty_start this, of 1 100 5 zero_info] show ?thesis
    by (simp add: tiny_def next_ready_def) (auto simp: init_terms_def demo_def blank_def)
qed

end
