(* ===== verification/Traps.thy ===== *)
theory Traps
  imports Load Sched Process Tty
begin

text \<open>
  Entering the kernel: the trap handlers (src/handlers.c), the interrupt vector and \<open>KernelStart\<close>
  (src/yalnix.c), resuming a saved context, and running the kernel from a trap until a user process
  runs again.
\<close>

section \<open>Kernel calls\<close>

definition reg :: "exc_info \<Rightarrow> nat \<Rightarrow> 64 word" where
  "reg info i = (if i < length (i_regs info) then i_regs info ! i else 0)"

definition set_result :: "int \<Rightarrow> exc_info \<Rightarrow> exc_info" where
  "set_result r info = info\<lparr>i_regs := (i_regs info)[0 := c_ulong r]\<rparr>"

text \<open>Storing the value of a kernel call in \<open>info->regs[0]\<close>, when the call returns at all.\<close>

primrec deliver :: "exc_info \<Rightarrow> int flow \<Rightarrow> exc_info flow" where
  "deliver info (Ret r) = Ret (set_result r info)"
| "deliver info (Call_ContextSwitch f p1 p2 k) = Call_ContextSwitch f p1 p2 k"
| "deliver info Spin = Spin"
| "deliver info Halted = Halted"

definition delivered :: "exc_info \<Rightarrow> (kstate \<times> int flow) res \<Rightarrow> (kstate \<times> exc_info flow) res" where
  "delivered info r = rbind r (\<lambda>(s, f). Inr (s, deliver info f))"

text \<open>
  \<open>cstr\<close> and \<open>cstrs\<close> read a C string and a null-terminated vector of C strings from the memory of
  the calling process; they are arguments because nothing in the kernel defines them.
\<close>

definition TrapKernelHandler ::
    "machine \<Rightarrow> (kstate \<Rightarrow> 64 word \<Rightarrow> string) \<Rightarrow> (kstate \<Rightarrow> 64 word \<Rightarrow> string list) \<Rightarrow> exc_info \<Rightarrow> kstate \<Rightarrow>
     (kstate \<times> exc_info flow) res" where
  "TrapKernelHandler M cstr cstrs info s =
     (case i_code info of
        YALNIX_FORK \<Rightarrow> delivered info (ForkFunc M info s)
      | YALNIX_EXEC \<Rightarrow>
          rbind (ExecFunc M (cstr s (reg info 1)) (cstrs s (reg info 2)) info s) (\<lambda>(s, info, r).
          Inr (s, Ret (set_result r info)))
      | YALNIX_EXIT \<Rightarrow> ExitFunc M 0 s
      | YALNIX_WAIT \<Rightarrow> delivered info (WaitFunc M info s)
      | YALNIX_GETPID \<Rightarrow> rbind (GetPid (curr_proc s) s) (\<lambda>r. Inr (s, Ret (set_result r info)))
      | YALNIX_BRK \<Rightarrow> rbind (BrkFunc M (reg info 1) s) (\<lambda>(s, r). Inr (s, Ret (set_result r info)))
      | YALNIX_DELAY \<Rightarrow> delivered info (DelayFunc M (c_int (reg info 1)) info s)
      | YALNIX_TTY_READ \<Rightarrow> delivered info (TtyReadFunc (c_int (reg info 1)) s)
      | YALNIX_TTY_WRITE \<Rightarrow>
          delivered info (TtyWriteFunc M (c_int (reg info 1)) (reg info 2) (c_int (reg info 3)) info s)
      | _ \<Rightarrow> Inr (s, Ret info))"

section \<open>Exceptions\<close>

text \<open>The message for each exception; a code that is not listed has none.\<close>

definition illegal_message :: "trap_code \<Rightarrow> string option" where
  "illegal_message c = (case c of
      TRAP_ILLEGAL_ILLOPC \<Rightarrow> Some ''Illegal opcode''
    | TRAP_ILLEGAL_ILLOPN \<Rightarrow> Some ''Illegal operand''
    | TRAP_ILLEGAL_ILLADR \<Rightarrow> Some ''Illegal addressing mode''
    | TRAP_ILLEGAL_ILLTRP \<Rightarrow> Some ''Illegal software trap''
    | TRAP_ILLEGAL_PRVOPC \<Rightarrow> Some ''Privileged opcode''
    | TRAP_ILLEGAL_PRVREG \<Rightarrow> Some ''Privileged register''
    | TRAP_ILLEGAL_COPROC \<Rightarrow> Some ''Coprocessor error''
    | TRAP_ILLEGAL_BADSTK \<Rightarrow> Some ''Bad stack''
    | TRAP_ILLEGAL_KERNELI \<Rightarrow> Some ''Linux kernel sent SIGILL''
    | TRAP_ILLEGAL_USERIB \<Rightarrow> Some ''Received SIGILL or SIGBUS from user''
    | TRAP_ILLEGAL_ADRALN \<Rightarrow> Some ''Invalid address alignment''
    | TRAP_ILLEGAL_ADRERR \<Rightarrow> Some ''Non-existent physical address''
    | TRAP_ILLEGAL_OBJERR \<Rightarrow> Some ''Object-specific HW error''
    | TRAP_ILLEGAL_KERNELB \<Rightarrow> Some ''Linux kernel sent SIGBUS''
    | _ \<Rightarrow> None)"

definition math_message :: "trap_code \<Rightarrow> string option" where
  "math_message c = (case c of
      TRAP_MATH_INTDIV \<Rightarrow> Some ''Integer divide by zero''
    | TRAP_MATH_INTOVF \<Rightarrow> Some ''Integer overflow''
    | TRAP_MATH_FLTDIV \<Rightarrow> Some ''Floating divide by zero''
    | TRAP_MATH_FLTOVF \<Rightarrow> Some ''Floating overflow''
    | TRAP_MATH_FLTUND \<Rightarrow> Some ''Floating underflow''
    | TRAP_MATH_FLTRES \<Rightarrow> Some ''Floating inexact result''
    | TRAP_MATH_FLTINV \<Rightarrow> Some ''Invalid floating operation''
    | TRAP_MATH_FLTSUB \<Rightarrow> Some ''FP subscript out of range''
    | TRAP_MATH_KERNEL \<Rightarrow> Some ''Linux kernel sent SIGFPE''
    | TRAP_MATH_USER \<Rightarrow> Some ''Received SIGFPE from user''
    | _ \<Rightarrow> None)"

definition report :: "string option \<Rightarrow> kstate \<Rightarrow> kstate res" where
  "report m s = (case m of
      None \<Rightarrow> Inr (s\<lparr>console := console s @ [Code_not_found]\<rparr>)
    | Some text \<Rightarrow> rbind (GetPid (curr_proc s) s) (\<lambda>pid.
        Inr (s\<lparr>console := console s @ [Report pid text]\<rparr>)))"

definition TrapIllegalHandler :: "machine \<Rightarrow> exc_info \<Rightarrow> kstate \<Rightarrow> (kstate \<times> exc_info flow) res" where
  "TrapIllegalHandler M info s =
     rbind (report (illegal_message (i_code info)) s) (\<lambda>s. ExitFunc M 1 s)"

text \<open>\<open>ExitFunc\<close> does not return, so the call of \<open>Halt\<close> after it is not reached.\<close>

definition TrapMathHandler :: "machine \<Rightarrow> exc_info \<Rightarrow> kstate \<Rightarrow> (kstate \<times> exc_info flow) res" where
  "TrapMathHandler M info s =
     rbind (report (math_message (i_code info)) s) (\<lambda>s. ExitFunc M 1 s)"

text \<open>
  The memory handler prints a message in every branch; when the stack grows, only the first of them.
\<close>

definition memory_message :: "trap_code \<Rightarrow> bool \<Rightarrow> bool \<Rightarrow> string option list" where
  "memory_message c in_kstack in_heap = (case c of
      TRAP_MEMORY_MAPERR \<Rightarrow> Some ''No mapping at addr'' #
        (if in_kstack then [Some ''address is in the kernel stack'']
         else if in_heap then [Some ''address is in the user heap''] else [])
    | TRAP_MEMORY_ACCERR \<Rightarrow> [Some ''Protection violation at addr'']
    | TRAP_MEMORY_KERNEL \<Rightarrow> [Some ''Linux kernel sent SIGSEGV at addr'']
    | TRAP_MEMORY_USER \<Rightarrow> [Some ''Received SIGSEGV from user'']
    | _ \<Rightarrow> [None])"

definition TrapMemoryHandler :: "machine \<Rightarrow> exc_info \<Rightarrow> kstate \<Rightarrow> (kstate \<times> exc_info flow) res" where
  "TrapMemoryHandler M info s =
     (let addri = i_addr info;
          addr_vpn = drop_bit (PAGESHIFT M) (DOWN_TO_PAGE M (i_addr info)) in
      rbind (rd_pcb s (curr_proc s)) (\<lambda>c.
      let curr_limit = c_int (sp c);
          in_kstack = addri > of_nat (KERNEL_STACK_BASE M); in_heap = addr_vpn < brk c in
      rbind (fold_res report (memory_message (i_code info) in_kstack in_heap) s) (\<lambda>s.
      if i_code info = TRAP_MEMORY_MAPERR \<and> \<not> in_kstack \<and> \<not> in_heap
      then
        let pgs_up = c_int (c_ulong curr_limit - addr_vpn) in
        rbind (fold_res (\<lambda>i. setup_pte (region0 c) {PROT_READ, PROT_WRITE} {PROT_READ, PROT_WRITE}
                 (uint (addr_vpn + of_nat i))) [0..<nat pgs_up] s) (\<lambda>s.
        let s = WriteRegister (REG_TLB_FLUSH TLB_FLUSH_0) s in
        rbind (wr_pcb (curr_proc s) (sp_update (\<lambda>_. addr_vpn)) s) (\<lambda>s.
        Inr (s, Ret info)))
      else ExitFunc M 1 s)))"

section \<open>Terminal interrupts\<close>

definition tty_of :: "exc_info \<Rightarrow> int" where
  "tty_of info = (case i_code info of TTY_CODE n \<Rightarrow> int n | _ \<Rightarrow> - 1)"

definition TrapTTYReceiveHandler ::
    "machine \<Rightarrow> 8 word list \<Rightarrow> exc_info \<Rightarrow> kstate \<Rightarrow> (kstate \<times> exc_info flow) res" where
  "TrapTTYReceiveHandler M received info s =
     rbind (TtyReceiveFunc M received (tty_of info) s) (\<lambda>(s, _). Inr (s, Ret info))"

primrec discard :: "exc_info \<Rightarrow> int flow \<Rightarrow> exc_info flow" where
  "discard info (Ret r) = Ret info"
| "discard info (Call_ContextSwitch f p1 p2 k) = Call_ContextSwitch f p1 p2 k"
| "discard info Spin = Spin"
| "discard info Halted = Halted"

definition TrapTTYTransmitHandler :: "machine \<Rightarrow> exc_info \<Rightarrow> kstate \<Rightarrow> (kstate \<times> exc_info flow) res" where
  "TrapTTYTransmitHandler M info s =
     rbind (TtyTransmitFunc M (tty_of info) info s) (\<lambda>(s, f). Inr (s, discard info f))"

section \<open>Starting the kernel\<close>

datatype trap = TRAP_KERNEL | TRAP_CLOCK | TRAP_ILLEGAL | TRAP_MEMORY | TRAP_MATH
  | TRAP_TTY_RECEIVE | TRAP_TTY_TRANSMIT | TRAP_DISK

datatype handler = H_Kernel | H_Clock | H_Illegal | H_Memory | H_Math | H_TTYReceive | H_TTYTransmit

definition interruptVector :: "trap \<Rightarrow> handler option" where
  "interruptVector t = (case t of
      TRAP_KERNEL \<Rightarrow> Some H_Kernel | TRAP_CLOCK \<Rightarrow> Some H_Clock | TRAP_ILLEGAL \<Rightarrow> Some H_Illegal
    | TRAP_MEMORY \<Rightarrow> Some H_Memory | TRAP_MATH \<Rightarrow> Some H_Math
    | TRAP_TTY_RECEIVE \<Rightarrow> Some H_TTYReceive | TRAP_TTY_TRANSMIT \<Rightarrow> Some H_TTYTransmit
    | TRAP_DISK \<Rightarrow> None)"

definition KernelStart ::
    "machine \<Rightarrow> (nat \<Rightarrow> tty_term) \<Rightarrow> exc_info \<Rightarrow> 32 word \<Rightarrow> 64 word \<Rightarrow> string list \<Rightarrow> kstate \<Rightarrow>
     (kstate \<times> exc_info flow) res" where
  "KernelStart M terms0 info pmem_size orig_brk cmd_args s =
     (let s = WriteRegister REG_VECTOR_BASE (s\<lparr>currKernelBrk := orig_brk\<rparr>) in
      let s = buildFreePages M pmem_size s in
      rbind (initPT M s) (\<lambda>s.
      let s = init_terms M terms0 s in
      let s = (WriteRegister REG_VM_ENABLE s)\<lparr>vm_enabled := True\<rparr> in
      rbind (create_pcb M s) (\<lambda>(s, pcb1).
      rbind (wr_pcb pcb1 (region0_update (\<lambda>_. PT_region0Pt)) s) (\<lambda>s.
      let s = s\<lparr>curr_proc := pcb1\<rparr> in
      rbind (LoadProgram M ''idle'' cmd_args info PT_region0Pt s) (\<lambda>(s, info, _).
      let s = s\<lparr>idle_pcb := pcb1\<rparr> in
      rbind (create_pcb M s) (\<lambda>(s, pcb2).
      rbind (BuildRegion0 M pcb2 s) (\<lambda>s.
      Inr (s, Call_ContextSwitch SWITCH_NEW_PROC pcb1 pcb2 (K_KernelStart info cmd_args pcb2)))))))))"

text \<open>
  The rest of \<open>KernelStart\<close>. Both processes that leave the switch continue here, with the same local
  variables: \<open>pcb2\<close> is the new process in either of them.
\<close>

definition KernelStart_resume :: "machine \<Rightarrow> exc_info \<Rightarrow> string list \<Rightarrow> ptr \<Rightarrow> kstate \<Rightarrow> (kstate \<times> exc_info flow) res" where
  "KernelStart_resume M info cmd_args pcb2 s =
     rbind (rd_pcb s pcb2) (\<lambda>p.
     case cmd_args of [] \<Rightarrow> Inr (s, Ret info)
     | name # _ \<Rightarrow> rbind (LoadProgram M name cmd_args info (region0 p) s) (\<lambda>(s, info, _). Inr (s, Ret info)))"

section \<open>Resuming a saved context\<close>

fun resume :: "machine \<Rightarrow> kctx \<Rightarrow> kstate \<Rightarrow> (kstate \<times> exc_info flow) res" where
  "resume M K_none s = Inl WildDeref"
| "resume M (K_KernelStart info cmd_args pcb2) s = KernelStart_resume M info cmd_args pcb2 s"
| "resume M (K_DelayFunc info) s = Inr (s, Ret (set_result 0 info))"
| "resume M (K_ForkFunc info child) s = rbind (ForkFunc_resume child s) (\<lambda>r. Inr (s, Ret (set_result r info)))"
| "resume M (K_WaitFunc info) s = rbind (WaitFunc_resume M s) (\<lambda>(s, r). Inr (s, Ret (set_result r info)))"
| "resume M K_ExitFunc s = ExitFunc_resume s"
| "resume M (K_TrapClock info item) s = TrapClock_resume M info item s"
| "resume M (K_TtyWrite info n) s = Inr (s, Ret (set_result n info))"
| "resume M (K_TtyTransmit_null info) s = Inr (s, Ret info)"
| "resume M (K_TtyTransmit info tty) s = rbind (TtyTransmitFunc_resume tty s) (\<lambda>(s, _). Inr (s, Ret info))"

text \<open>
  Running the kernel: a context switch resumes another kernel function, which may switch again; the
  kernel is left when a function returns to user mode, spins or halts the machine.
\<close>

inductive kruns :: "machine \<Rightarrow> kstate \<Rightarrow> exc_info flow \<Rightarrow> kstate \<Rightarrow> exc_info flow \<Rightarrow> bool" for M where
  kruns_leave: "kruns M s (Ret info) s (Ret info)"
| kruns_spin: "kruns M s Spin s Spin"
| kruns_halt: "kruns M s Halted s Halted"
| kruns_switch: "ContextSwitch M f p1 p2 k s = Inr (s1, k1) \<Longrightarrow> resume M k1 s1 = Inr (s2, f2) \<Longrightarrow>
    kruns M s2 f2 s3 f3 \<Longrightarrow> kruns M s (Call_ContextSwitch f p1 p2 k) s3 f3"

inductive_cases kruns_RetE: "kruns M s (Ret info) s' f"
inductive_cases kruns_switchE: "kruns M s (Call_ContextSwitch f p1 p2 k) s' f'"

text \<open>One step of it, executable.\<close>

definition kstep :: "machine \<Rightarrow> kstate \<times> exc_info flow \<Rightarrow> (kstate \<times> exc_info flow) res" where
  "kstep M = (\<lambda>(s, fl). case fl of
     Call_ContextSwitch f p1 p2 k \<Rightarrow> rbind (ContextSwitch M f p1 p2 k s) (\<lambda>(s, k). resume M k s)
   | _ \<Rightarrow> Inr (s, fl))"

lemma kruns_kstep:
  assumes "kstep M (s, Call_ContextSwitch f p1 p2 k) = Inr (s2, f2)" "kruns M s2 f2 s3 f3"
  shows "kruns M s (Call_ContextSwitch f p1 p2 k) s3 f3"
  using assms by (auto simp: kstep_def rbind_eq_Ok_iff intro: kruns_switch)

section \<open>Growing the stack\<close>

text \<open>C18: an access below the stack. When a process refers to a page \<open>a\<close> at or above its break and below the
  bottom \<open>p\<close> of its stack, and there are enough free frames, the memory handler maps the pages from \<open>a\<close>
  up to \<open>p\<close> readable and writable, each to a frame of its own, makes \<open>a\<close> the new bottom, and lets the
  process continue. All other pages are unchanged. No page is kept free between heap and stack.\<close>

theorem TrapMemoryHandler_grows_stack:
  assumes "hw_layout M" "frames_wf s" "curr_proc s = Some c" "pcbs s c = Some x" "tbl_len (region0 x) (PAGE_TABLE_LEN M) s"
    "i_code info = TRAP_MEMORY_MAPERR" "unat (i_addr info) \<le> KERNEL_STACK_BASE M" "a = unat (i_addr info) div PAGESIZE M"
    "p = unat (sp x)" "unat (brk x) \<le> a" "a \<le> p" "p \<le> PAGE_TABLE_LEN M" "p - a \<le> length (free_list s)"
  shows "\<exists>s'. TrapMemoryHandler M info s = Inr (s', Ret info) \<and>
    map_option (unat \<circ> sp) (pcbs s' c) = Some a \<and> free_list s' = drop (p - a) (free_list s) \<and>
    (\<forall>j. entry (region0 x) s' j =
       (if a \<le> j \<and> j < p then Some \<lparr>pfn = c_pfn (int (free_list s ! (j - a))),
          uprot = {PROT_READ, PROT_WRITE}, kprot = {PROT_READ, PROT_WRITE}, valid = True\<rparr>
        else entry (region0 x) s j))"
proof -
  let ?w = "drop_bit (PAGESHIFT M) (DOWN_TO_PAGE M (i_addr info))" and ?RW = "{PROT_READ, PROT_WRITE}"
  have a: "unat ?w = a" using assms(8) by (simp add: page_DOWN_TO_PAGE unat_page)
  have small: "PAGE_TABLE_LEN M < 2 ^ 20" "KERNEL_STACK_BASE M < 2 ^ 64" "p < 2 ^ 31"
    using assms(1,12) kernel_stack_below [OF assms(1)] by (simp_all add: hw_layout_def)
  have ul: "c_ulong (c_int (sp x)) = sp x" using small(3) assms(9) by (simp add: c_int_small)
  have pg: "nat (c_int (sp x - ?w)) = p - a"
  proof -
    have "?w \<le> sp x" using a assms(9,11) by (simp add: word_le_nat_alt)
    from c_int_diff [OF this] show ?thesis using a assms(9) small(3) by (simp only: nat_int)
  qed
  have ks: "\<not> i_addr info > of_nat (KERNEL_STACK_BASE M)"
    using assms(7) small(2) by (simp add: word_less_nat_alt unat_of_nat not_less)
  have heap: "\<not> ?w < brk x" using assms(10) a by (simp add: word_less_nat_alt not_less)
  define s1 where "s1 = s\<lparr>console := console s @ [Report (process_id x) ''No mapping at addr'']\<rparr>"
  have rep: "fold_res report (memory_message (i_code info) False False) s = Inr s1"
    using assms(3,4,6) by (simp add: memory_message_def report_def GetPid_def s1_def)
  have s1: "frames_wf s1" "free_list s1 = free_list s" "tbl s1 = tbl s" "curr_proc s1 = Some c" "pcbs s1 = pcbs s"
    using assms(2,3) by (auto simp: s1_def frames_wf_def free_list_def tbl_def fun_eq_iff split: ptref.split)
  then have e1: "entry t s1 = entry t s" "tbl_len t n s1 = tbl_len t n s" for t n by (simp_all add: entry_def fun_eq_iff tbl_len_def)
  have "set [a..<p] \<subseteq> {..<PAGE_TABLE_LEN M}" using assms(12) by auto
  moreover have "length [a..<p] \<le> length (free_list s1)" using assms(13) s1(2) by simp
  ultimately obtain u where u: "fold_res (setup_pte (region0 x) ?RW ?RW) (map int [a..<p]) s1 = Inr u"
      "mapped_run (region0 x) (PAGE_TABLE_LEN M) ?RW ?RW [a..<p] s1 u"
    using setup_run [OF s1(1) _ distinct_upt, of "region0 x" "PAGE_TABLE_LEN M" a p ?RW ?RW] assms(5) e1(2) by auto
  have pages: "map int [a..<p] = map (\<lambda>i. uint (?w + of_nat i)) [0..<p - a]"
    using vpn_run [of ?w "p - a"] a assms(11) small(3) by simp
  have run: "fold_res (\<lambda>i. setup_pte (region0 x) ?RW ?RW (uint (?w + of_nat i))) [0..<p - a] s1 = Inr u"
    using u(1) unfolding pages fold_res_map .
  have o: "curr_proc u = Some c" "pcbs u = pcbs s" using u(2) s1(4,5) by (auto simp: mapped_run_def only_mapsD)
  have "TrapMemoryHandler M info s =
      Inr ((WriteRegister (REG_TLB_FLUSH TLB_FLUSH_0) u)\<lparr>pcbs := (pcbs s)(c \<mapsto> x\<lparr>sp := ?w\<rparr>)\<rparr>, Ret info)"
    using assms(3,4,6) ks heap rep run o ul pg s1(4)
    by (simp add: TrapMemoryHandler_def Let_def) (simp add: WriteRegister_def)
  moreover have "entry (region0 x) u j = (if a \<le> j \<and> j < p then Some \<lparr>pfn = c_pfn (int (free_list s ! (j - a))),
          uprot = ?RW, kprot = ?RW, valid = True\<rparr> else entry (region0 x) s j)" for j
    using u(2) s1(2) e1 by (auto simp: mapped_run_def dest!: spec [of _ "j - a"])
  ultimately show ?thesis using u(2) a s1(2) by (simp add: mapped_run_def)
qed

definition demo_stack :: kstate where
  "demo_stack = demo_brk\<lparr>pcbs := [1 \<mapsto> zero_pcb\<lparr>process_id := 1, region0 := PT_region0Pt, brk := 2, sp := 6\<rparr>]\<rparr>"

theorem TrapMemoryHandler_grows_stack_witness:
  "\<exists>s'. TrapMemoryHandler tiny (zero_info\<lparr>i_code := TRAP_MEMORY_MAPERR, i_addr := 259\<rparr>) demo_stack =
       Inr (s', Ret (zero_info\<lparr>i_code := TRAP_MEMORY_MAPERR, i_addr := 259\<rparr>)) \<and>
     map (\<lambda>j. map_option (\<lambda>e. (pfn e, valid e)) (entry PT_region0Pt s' j)) [3, 4, 5] =
       [Some (0, False), Some (0, True), Some (1, True)]"
proof -
  let ?i = "zero_info\<lparr>i_code := TRAP_MEMORY_MAPERR, i_addr := 259\<rparr>"
  let ?x = "zero_pcb\<lparr>process_id := 1, region0 := PT_region0Pt, brk := 2, sp := 6\<rparr>"
  have f: "frames_wf demo_stack" "free_list demo_stack = [0..<16]"
    using demo_brk_frames(1,2) by (simp_all add: demo_stack_def frames_wf_def)
  have d: "curr_proc demo_stack = Some 1" "pcbs demo_stack 1 = Some ?x" "tbl_len (region0 ?x) (PAGE_TABLE_LEN tiny) demo_stack"
    "entry PT_region0Pt demo_stack 3 = Some zero_pte"
    by (simp_all add: demo_stack_def region0Pt_len region0Pt_entry) (simp_all add: demo_brk_def blank_def tiny_def)
  have m: "4 = unat (i_addr ?i) div PAGESIZE tiny" "6 = unat (sp ?x)" "unat (i_addr ?i) \<le> KERNEL_STACK_BASE tiny"
    "i_code ?i = TRAP_MEMORY_MAPERR" "unat (brk ?x) \<le> 4" "(6::nat) \<le> PAGE_TABLE_LEN tiny"
    by (simp_all add: tiny_def PAGESIZE_def)
  have l: "[0..<16] ! 0 = (0::nat)" "[0..<16] ! Suc 0 = (1::nat)" by (simp_all add: nth_upt)
  from TrapMemoryHandler_grows_stack [OF hw_layout_tiny f(1) d(1-3) m(4,3,1,2,5) _ m(6)] show ?thesis
    by (simp add: f(2) l d(4)) (elim ex_forward, simp add: d(4) f(2) l zero_pte_def)
qed

section \<open>A process that exits while it is in the ready queue\<close>

lemma kruns_switch_iff:
  assumes "kstep M (s, Call_ContextSwitch f p1 p2 k) = Inr (s2, f2)"
  shows "kruns M s (Call_ContextSwitch f p1 p2 k) s3 f3 \<longleftrightarrow> kruns M s2 f2 s3 f3"
  using assms kruns_kstep [OF assms]
  by (auto simp: kstep_def rbind_eq_Ok_iff elim!: kruns_switchE)

lemma kruns_Spin_iff: "kruns M s Spin s' f \<longleftrightarrow> s' = s \<and> f = Spin"
  by (auto intro: kruns_spin elim: kruns.cases)

lemma array_uint [simp]:
  "unat w < length xs \<Longrightarrow> aget xs (uint w) = Inr (xs ! unat w)"
  "unat w < length xs \<Longrightarrow> aset xs (uint w) v = Inr (xs[unat w := v])"
  using aget_nat [of "unat w" xs] aset_nat [of "unat w" xs v] by simp_all

text \<open>The exiting process is switched to itself, and goes on behind its own call of \<open>ContextSwitch\<close>.\<close>

lemma exit_to_itself:
  assumes "hw_layout M" "curr_proc s = Some c" "pcbs s c = Some x" "tbl_len (region0 x) (PAGE_TABLE_LEN M) s"
    "\<forall>f\<in>owned_frames (region0 x) (PAGE_TABLE_LEN M) s. f < length (freePages s)"
    "unat (free_vpn x) < length (region1Pt s)" "unat (pfn (region1Pt s ! unat (free_vpn x))) < length (freePages s)"
  shows "\<exists>s'. kstep M (s, Call_ContextSwitch SWITCH_EXIT (Some c) (Some c) K_ExitFunc) = Inr (s', Spin)"
proof -
  let ?x = "x\<lparr>ctx := K_ExitFunc\<rparr>"
  let ?t = "s\<lparr>pcbs := (pcbs s)(c \<mapsto> ?x)\<rparr>"
  have o: "owned_frames t n ?t = owned_frames t n s" "tbl_len t n ?t = tbl_len t n s" for t n
    by (simp_all add: owned_frames_def tbl_len_def)
  have p: "pcbs ?t c = Some ?x" "region0 ?x = region0 x" by simp_all
  obtain u where u: "SwitchExit M (Some c) (Some c) ?t = Inr (left_exited c ?x u, Some c)" "only_frames ?t u"
      "length (freePages u) = length (freePages s)"
    using SwitchExit_ok [OF assms(1) p(1,1)] assms(4,5) unfolding p(2) o by auto
  let ?v = "left_exited c ?x u" and ?k = "unat (free_vpn x)"
  have v: "pcbs ?v c = Some ?x" "region1Pt ?v = region1Pt s" "curr_proc ?v = Some c" "length (freePages ?v) = length (freePages s)"
    using only_mapsD [OF only_frames_maps [OF u(2)]] u(3) by simp_all
  have "ContextSwitch M SWITCH_EXIT (Some c) (Some c) K_ExitFunc s = Inr (?v, K_ExitFunc)"
    using assms(3) u(1) v(1) by (simp add: ContextSwitch_def)
  moreover have "\<exists>s'. ExitFunc_resume ?v = Inr (s', Spin :: exc_info flow)"
  proof -
    let ?w = "?v\<lparr>region1Pt := (region1Pt s)[?k := (region1Pt s ! ?k)\<lparr>valid := False\<rparr>]\<rparr>"
    have "wr_r1 (int ?k) (valid_update (\<lambda>_. False)) ?v = Inr ?w" "rd_r1 ?w (int ?k) = Inr ((region1Pt s ! ?k)\<lparr>valid := False\<rparr>)"
      using assms(6) v(2) by (simp_all add: wr_r1_def rd_r1_def)
    moreover have "\<exists>s'. freePage (uint (pfn (region1Pt s ! ?k))) ?w = Inr s'"
      using freePage_uint [of "pfn (region1Pt s ! ?k)" ?w] assms(7) v(4) by simp
    ultimately show ?thesis using v(1,3) by (auto simp: ExitFunc_resume_def)
  qed
  ultimately show ?thesis by (simp add: kstep_def)
qed

text \<open>C19: the kernel hangs when a process exits while it is first in the ready queue, as a process is that
  the clock handler has woken. An orphan without children is switched to itself, and whatever the kernel does
  then ends in the endless loop behind the call of \<open>ContextSwitch\<close>; no user process runs again.\<close>

theorem ExitFunc_of_ready_process_spins:
  assumes "hw_layout M" "curr_proc s = Some c" "pcbs s c = Some x" "tbl_len (region0 x) (PAGE_TABLE_LEN M) s"
    "\<forall>f\<in>owned_frames (region0 x) (PAGE_TABLE_LEN M) s. f < length (freePages s)"
    "unat (free_vpn x) < length (region1Pt s)" "unat (pfn (region1Pt s ! unat (free_vpn x))) < length (freePages s)"
    "ready_repr s (Some c # ps)" "parent x = NULL" "children_head x = NULL"
  shows "\<exists>s1 fl. ExitFunc M st s = Inr (s1, fl) \<and> (\<exists>s2. kruns M s1 fl s2 Spin) \<and>
    (\<forall>s2 f2. kruns M s1 fl s2 f2 \<longrightarrow> f2 = (Spin :: exc_info flow))"
proof -
  obtain s1 where s1: "FindReadyPcb M s = Inr (s1, Some c)" "only_ready s s1"
    using FindReadyPcb_ok [OF assms(8), of M] by (auto simp: next_ready_def)
  note d = only_readyD [OF s1(2)] only_ready_mem [OF s1(2)]
  have t: "tbl s1 = tbl s" using d by (simp add: fun_eq_iff tbl_def split: ptref.split)
  then have "owned_frames t n s1 = owned_frames t n s" "tbl_len t n s1 = tbl_len t n s" for t n
    by (simp_all add: owned_frames_def tbl_len_def entry_def)
  with assms d obtain s2 where
    "kstep M (s1, Call_ContextSwitch SWITCH_EXIT (Some c) (Some c) K_ExitFunc) = Inr (s2, Spin)"
    using exit_to_itself [OF assms(1), of s1 c x] by auto
  note k = kruns_switch_iff [OF this]
  have "ExitFunc M st s = Inr (s1, Call_ContextSwitch SWITCH_EXIT (Some c) (Some c) K_ExitFunc :: exc_info flow)"
    using assms(2,3,9,10) s1(1) d(4) by (simp add: ExitFunc_def)
  then show ?thesis using k by (auto simp: kruns_Spin_iff)
qed

definition demo_woken :: kstate where
  "demo_woken = demo_ready\<lparr>curr_proc := Some 3, pcbs := [2 \<mapsto> zero_pcb, 3 \<mapsto> zero_pcb\<lparr>process_id := 2, region0 := PT_region0Pt, free_vpn := 5\<rparr>]\<rparr>"

theorem ExitFunc_of_ready_process_spins_witness:
  "\<exists>s1 fl s2. ExitFunc tiny 1 demo_woken = Inr (s1, fl) \<and> kruns tiny s1 fl s2 (Spin :: exc_info flow)"
proof -
  let ?x = "zero_pcb\<lparr>process_id := 2, region0 := PT_region0Pt, free_vpn := 5\<rparr>"
  have "ready_repr demo_woken [Some 3]"
    unfolding ready_repr_def ready_procs_def
    by (intro conjI exI [of _ "[4]"])
      (simp_all add: demo_woken_def demo_ready_def demo_def blank_def ready_q_def heap_wf_def is_pcb_def proc_of_def zero_item_def)
  moreover have "owned_frames PT_region0Pt n demo_woken = {}" for n
    by (auto simp: owned_frames_def region0Pt_entry demo_woken_def demo_ready_def demo_def blank_def zero_pte_def)
  moreover have "curr_proc demo_woken = Some 3" "pcbs demo_woken 3 = Some ?x" "length (region1Pt demo_woken) = 8"
      "length (freePages demo_woken) = 16" "region1Pt demo_woken ! 5 = zero_pte"
      "tbl_len PT_region0Pt (PAGE_TABLE_LEN tiny) demo_woken"
    by (simp_all add: region0Pt_len) (simp_all add: demo_woken_def demo_ready_def demo_def blank_def tiny_def)
  ultimately show ?thesis
    using ExitFunc_of_ready_process_spins [OF hw_layout_tiny, of demo_woken 3 ?x "[]" 1]
    by (simp add: zero_pcb_def zero_pte_def) blast
qed

end
