(* ===== verification/Typing.thy ===== *)
theory Typing
  imports Traps
begin

text \<open>
  Well-typed states: the tables of frames and pages have their lengths, every frame has the size of a
  page, nothing is allocated above \<open>heap_top\<close>, and the current process exists. Every operation of the
  kernel keeps this (\<open>keeps\<close>, collected in \<open>keeps_intros\<close>), so it holds in every state that the kernel
  reaches from its start through traps, user code and the growth of its own heap.
\<close>

section \<open>Well-typed states\<close>

definition typed :: "machine \<Rightarrow> kstate \<Rightarrow> bool" where
  "typed M s \<longleftrightarrow> length (freePages s) = num_pages s \<and> length (region0Pt s) = PAGE_TABLE_LEN M \<and>
     length (region1Pt s) = PAGE_TABLE_LEN M \<and> (\<forall>v. length (r1_tables s v) = PAGE_TABLE_LEN M) \<and>
     (\<forall>f. length (frames s f) = PAGESIZE M) \<and> heap_wf s"

definition keeps :: "machine \<Rightarrow> kstate \<Rightarrow> kstate \<Rightarrow> bool" where
  "keeps M s s' \<longleftrightarrow> (typed M s \<longrightarrow> typed M s') \<and> (\<forall>p. is_pcb s p \<longrightarrow> is_pcb s' p) \<and>
     (typed M s \<longrightarrow> is_pcb s (curr_proc s) \<longrightarrow> is_pcb s' (curr_proc s'))"

lemma keeps_refl [simp]: "keeps M s s"
  by (simp add: keeps_def)

lemma keeps_trans: "keeps M s t \<Longrightarrow> keeps M t u \<Longrightarrow> keeps M s u"
  by (simp add: keeps_def)

lemma typed_update [simp]:
  "typed M (num_free_pages_update g1 s) = typed M s" "typed M (currKernelBrk_update g2 s) = typed M s"
  "typed M (next_proc_id_update g3 s) = typed M s" "typed M (waiting_queue_head_update g4 s) = typed M s"
  "typed M (waiting_queue_tail_update g5 s) = typed M s" "typed M (queue_head_update g6 s) = typed M s"
  "typed M (queue_tail_update g7 s) = typed M s" "typed M (curr_proc_update g8 s) = typed M s"
  "typed M (idle_pcb_update g9 s) = typed M s" "typed M (queue_size_update g10 s) = typed M s"
  "typed M (waiting_queue_size_update g11 s) = typed M s" "typed M (terms_update g12 s) = typed M s"
  "typed M (vm_enabled_update g13 s) = typed M s" "typed M (ticks_passed_update g14 s) = typed M s"
  "typed M (reg_ptr0_update g15 s) = typed M s" "typed M (reg_log_update g16 s) = typed M s"
  "typed M (console_update g17 s) = typed M s" "typed M (tty_log_update g18 s) = typed M s"
  "typed M (WriteRegister w s) = typed M s"
  by (simp_all add: typed_def heap_wf_def WriteRegister_def Let_def split: reg_write.split)

lemma is_pcb_update [simp]:
  "is_pcb (num_free_pages_update g1 s) q = is_pcb s q" "is_pcb (currKernelBrk_update g2 s) q = is_pcb s q"
  "is_pcb (next_proc_id_update g3 s) q = is_pcb s q" "is_pcb (waiting_queue_head_update g4 s) q = is_pcb s q"
  "is_pcb (waiting_queue_tail_update g5 s) q = is_pcb s q" "is_pcb (queue_head_update g6 s) q = is_pcb s q"
  "is_pcb (queue_tail_update g7 s) q = is_pcb s q" "is_pcb (curr_proc_update g8 s) q = is_pcb s q"
  "is_pcb (idle_pcb_update g9 s) q = is_pcb s q" "is_pcb (queue_size_update g10 s) q = is_pcb s q"
  "is_pcb (waiting_queue_size_update g11 s) q = is_pcb s q" "is_pcb (terms_update g12 s) q = is_pcb s q"
  "is_pcb (vm_enabled_update g13 s) q = is_pcb s q" "is_pcb (ticks_passed_update g14 s) q = is_pcb s q"
  "is_pcb (reg_ptr0_update g15 s) q = is_pcb s q" "is_pcb (reg_log_update g16 s) q = is_pcb s q"
  "is_pcb (console_update g17 s) q = is_pcb s q" "is_pcb (tty_log_update g18 s) q = is_pcb s q"
  "is_pcb (WriteRegister w s) q = is_pcb s q" "is_pcb (malloc_item N s) q = is_pcb s q"
  "is_pcb (malloc_exited N s) q = is_pcb s q" "is_pcb (malloc_line N s) q = is_pcb s q"
  "is_pcb (malloc_pcb N s) q = (is_pcb s q \<or> q = Some (heap_top s))"
  by (auto simp: is_pcb_def WriteRegister_def Let_def malloc_item_def malloc_exited_def malloc_line_def malloc_pcb_def
      split: reg_write.split)

lemma curr_proc_update [simp]:
  "curr_proc (WriteRegister w s) = curr_proc s" "curr_proc (malloc_item N s) = curr_proc s"
  "curr_proc (malloc_exited N s) = curr_proc s" "curr_proc (malloc_line N s) = curr_proc s" "curr_proc (malloc_pcb N s) = curr_proc s"
  by (simp_all add: WriteRegister_def Let_def malloc_item_def malloc_exited_def malloc_line_def malloc_pcb_def
      split: reg_write.split)

lemma typed_malloc [simp]:
  "typed M s \<Longrightarrow> typed M (malloc_item N s)" "typed M s \<Longrightarrow> typed M (malloc_exited N s)"
  "typed M s \<Longrightarrow> typed M (malloc_line N s)" "typed M s \<Longrightarrow> typed M (malloc_pcb N s)"
  by (auto simp: typed_def heap_wf_def malloc_item_def malloc_exited_def malloc_line_def malloc_pcb_def)

lemma keeps_after: "keeps M t u \<Longrightarrow> keeps M s t \<Longrightarrow> keeps M s u"
  by (rule keeps_trans)

named_theorems keeps_intros \<open>operations keep a state well-typed\<close>

lemma keeps_update:
  "keeps M r s \<Longrightarrow> keeps M r (num_free_pages_update g1 s)" "keeps M r s \<Longrightarrow> keeps M r (currKernelBrk_update g2 s)"
  "keeps M r s \<Longrightarrow> keeps M r (next_proc_id_update g3 s)" "keeps M r s \<Longrightarrow> keeps M r (waiting_queue_head_update g4 s)"
  "keeps M r s \<Longrightarrow> keeps M r (waiting_queue_tail_update g5 s)" "keeps M r s \<Longrightarrow> keeps M r (queue_head_update g6 s)"
  "keeps M r s \<Longrightarrow> keeps M r (queue_tail_update g7 s)" "keeps M r s \<Longrightarrow> keeps M r (idle_pcb_update g8 s)"
  "keeps M r s \<Longrightarrow> keeps M r (queue_size_update g9 s)" "keeps M r s \<Longrightarrow> keeps M r (waiting_queue_size_update g10 s)"
  "keeps M r s \<Longrightarrow> keeps M r (terms_update g11 s)" "keeps M r s \<Longrightarrow> keeps M r (vm_enabled_update g12 s)"
  "keeps M r s \<Longrightarrow> keeps M r (ticks_passed_update g13 s)" "keeps M r s \<Longrightarrow> keeps M r (reg_ptr0_update g14 s)"
  "keeps M r s \<Longrightarrow> keeps M r (reg_log_update g15 s)" "keeps M r s \<Longrightarrow> keeps M r (console_update g16 s)"
  "keeps M r s \<Longrightarrow> keeps M r (tty_log_update g17 s)" "keeps M r s \<Longrightarrow> keeps M r (WriteRegister w s)"
  "keeps M r s \<Longrightarrow> keeps M r (malloc_item N s)" "keeps M r s \<Longrightarrow> keeps M r (malloc_exited N s)"
  "keeps M r s \<Longrightarrow> keeps M r (malloc_line N s)" "keeps M r s \<Longrightarrow> keeps M r (malloc_pcb N s)"
  by (simp_all add: keeps_def)

lemma keeps_heaps:
  "wr_pcb p f1 s = Inr s' \<Longrightarrow> keeps M s s'" "wr_item p f2 s = Inr s' \<Longrightarrow> keeps M s s'"
  "wr_exited p f3 s = Inr s' \<Longrightarrow> keeps M s s'" "wr_line p f4 s = Inr s' \<Longrightarrow> keeps M s s'"
  "free_item N p s = Inr s' \<Longrightarrow> keeps M s s'" "free_exited N p s = Inr s' \<Longrightarrow> keeps M s s'"
proof -
  assume "wr_pcb p f1 s = Inr s'"
  then obtain a x where "pcbs s a = Some x" "s' = s\<lparr>pcbs := (pcbs s)(a \<mapsto> f1 x)\<rparr>"
    by (auto simp: wr_pcb_def hmod_Ok_iff elim!: rbind_OkE)
  then show "keeps M s s'" by (auto simp: keeps_def typed_def heap_wf_def is_pcb_def)
next
  assume "wr_item p f2 s = Inr s'"
  then obtain a x where "items s a = Some x" "s' = s\<lparr>items := (items s)(a \<mapsto> f2 x)\<rparr>"
    by (auto simp: wr_item_def hmod_Ok_iff elim!: rbind_OkE)
  then show "keeps M s s'" by (auto simp: keeps_def typed_def heap_wf_def is_pcb_def)
next
  assume "wr_exited p f3 s = Inr s'"
  then obtain a x where "exiteds s a = Some x" "s' = s\<lparr>exiteds := (exiteds s)(a \<mapsto> f3 x)\<rparr>"
    by (auto simp: wr_exited_def hmod_Ok_iff elim!: rbind_OkE)
  then show "keeps M s s'" by (auto simp: keeps_def typed_def heap_wf_def is_pcb_def)
next
  assume "wr_line p f4 s = Inr s'"
  then obtain a x where "lines s a = Some x" "s' = s\<lparr>lines := (lines s)(a \<mapsto> f4 x)\<rparr>"
    by (auto simp: wr_line_def hmod_Ok_iff elim!: rbind_OkE)
  then show "keeps M s s'" by (auto simp: keeps_def typed_def heap_wf_def is_pcb_def)
next
  assume "free_item N p s = Inr s'"
  then have "s' = s \<or> (\<exists>a x. items s a = Some x \<and> s' = s\<lparr>items := (items s)(a := freed_item N x)\<rparr>)"
    by (auto simp: free_item_def rd_item_def hget_Ok_iff elim!: rbind_OkE split: option.splits) blast
  then show "keeps M s s'" by (auto simp: keeps_def typed_def heap_wf_def is_pcb_def)
next
  assume "free_exited N p s = Inr s'"
  then have "s' = s \<or> (\<exists>a x. exiteds s a = Some x \<and> s' = s\<lparr>exiteds := (exiteds s)(a := freed_exited N x)\<rparr>)"
    by (auto simp: free_exited_def rd_exited_def hget_Ok_iff elim!: rbind_OkE split: option.splits) blast
  then show "keeps M s s'" by (auto simp: keeps_def typed_def heap_wf_def is_pcb_def)
qed
lemmas keeps_heaps_after [keeps_intros] = keeps_heaps [THEN keeps_after]

lemma keeps_arrays:
  "wr_pte t i f s = Inr s' \<Longrightarrow> keeps M s s'" "wr_r1 i f s = Inr s' \<Longrightarrow> keeps M s s'"
  "set_freePages i v s = Inr s' \<Longrightarrow> keeps M s s'" "store_byte N a b s = Inr s' \<Longrightarrow> keeps M s s'"
  "copy_page N d a s = Inr s' \<Longrightarrow> keeps M s s'"
proof -
  have "tbl s t = Inr ps \<Longrightarrow> typed M s \<Longrightarrow> length ps = PAGE_TABLE_LEN M" for ps
    by (auto simp: tbl_def typed_def split: ptref.splits if_splits)
  then show "wr_pte t i f s = Inr s' \<Longrightarrow> keeps M s s'"
    by (auto simp: wr_pte_def keeps_def typed_def heap_wf_def is_pcb_def put_tbl_def aset_Ok_iff elim!: rbind_OkE split: ptref.splits)
  show "wr_r1 i f s = Inr s' \<Longrightarrow> keeps M s s'" "set_freePages i v s = Inr s' \<Longrightarrow> keeps M s s'"
    "store_byte N a b s = Inr s' \<Longrightarrow> keeps M s s'" "copy_page N d a s = Inr s' \<Longrightarrow> keeps M s s'"
    by (auto simp: keeps_def typed_def heap_wf_def is_pcb_def wr_r1_def set_freePages_def store_byte_def copy_page_def aset_Ok_iff
        elim!: rbind_OkE split: if_splits)
qed

lemmas keeps_arrays_after [keeps_intros] = keeps_arrays [THEN keeps_after]

lemma keeps_fold:
  assumes "fold_res f xs s = Inr s'" "\<And>x s t. f x s = Inr t \<Longrightarrow> keeps M s t"
  shows "keeps M s s'"
  by (rule fold_res_inv [OF assms(1)]) (use assms(2) keeps_trans in \<open>auto\<close>)

lemma while_res_inv:
  assumes "while_res b c s = Inr s'" "P s" "\<And>s t. P s \<Longrightarrow> c s = Inr t \<Longrightarrow> P t"
  shows "P s'"
proof -
  let ?P = "\<lambda>r. case r of Inl _ \<Rightarrow> True | Inr s \<Rightarrow> P s"
  obtain r where r: "while_option (\<lambda>r. case r of Inl _ \<Rightarrow> False | Inr s \<Rightarrow> b s) (\<lambda>r. rbind r c) (Inr s) = Some r" "r = Inr s'"
    using assms(1) by (auto simp: while_res_def split: option.splits)
  have "?P r"
    by (rule while_option_rule [OF _ r(1)]) (use assms(2,3) in \<open>auto simp: rbind_def split: sum.splits\<close>)
  with r(2) show ?thesis by simp
qed

lemma keeps_while:
  assumes "while_res b c z = Inr z'" "\<And>z t. c z = Inr t \<Longrightarrow> keeps M (fst z) (fst t)"
  shows "keeps M (fst z) (fst z')"
  by (rule while_res_inv [OF assms(1)]) (use assms(2) keeps_trans in \<open>auto\<close>)

section \<open>Queues and families\<close>

lemma keeps_frames:
  "findFreePage s = Inr (s', f) \<Longrightarrow> keeps M s s'" "freePage g s = Inr s' \<Longrightarrow> keeps M s s'"
proof -
  have "findFreePage_loop ps s = Inr (s', f) \<Longrightarrow> keeps M s s'" for ps
    by (induction ps) (auto elim!: rbind_OkE split: if_splits, (rule keeps_refl keeps_update | (rule keeps_intros, assumption))+)
  then show "findFreePage s = Inr (s', f) \<Longrightarrow> keeps M s s'" by (simp add: findFreePage_def)
  show "freePage g s = Inr s' \<Longrightarrow> keeps M s s'"
    by (auto simp: freePage_def elim!: rbind_OkE) (rule keeps_refl keeps_update | (rule keeps_intros, assumption))+
qed
lemmas keeps_frames_after [keeps_intros] = keeps_frames [THEN keeps_after]

lemma keeps_ready:
  "PushProcToQueue N p s = Inr s' \<Longrightarrow> keeps M s s'" "RemoveItemFromReadyQueue N p s = Inr s' \<Longrightarrow> keeps M s s'"
  "PushItemToWaitingQueue p s = Inr s' \<Longrightarrow> keeps M s s'" "RemoveItemFromWaitingQueue N p s = Inr s' \<Longrightarrow> keeps M s s'"
  by (auto simp: PushProcToQueue_def RemoveItemFromReadyQueue_def PushItemToWaitingQueue_def RemoveItemFromWaitingQueue_def
      Let_def elim!: rbind_OkE split: if_splits) (rule keeps_refl keeps_update | (rule keeps_intros, assumption))+
lemmas keeps_ready_after [keeps_intros] = keeps_ready [THEN keeps_after]

lemma is_pcb_rd: "rd_pcb s p = Inr x \<Longrightarrow> is_pcb s p"
  by (auto simp: rd_pcb_def hget_Ok_iff is_pcb_def)

lemma keeps_curr: "keeps M r s \<Longrightarrow> is_pcb s p \<Longrightarrow> keeps M r (s\<lparr>curr_proc := p\<rparr>)"
  by (simp add: keeps_def)

lemma keeps_rd_curr [keeps_intros]:
  "rd_pcb t p = Inr x \<Longrightarrow> keeps M t s \<Longrightarrow> keeps M r s \<Longrightarrow> keeps M r (s\<lparr>curr_proc := p\<rparr>)"
  by (rule keeps_curr) (simp_all add: keeps_def is_pcb_rd)

lemma keeps_pcb: "keeps M r s \<Longrightarrow> is_pcb r p \<Longrightarrow> is_pcb s p"
  by (simp add: keeps_def)

lemma keeps_FindReadyPcb: "FindReadyPcb N s = Inr (s', p) \<Longrightarrow> keeps M s s'"
  by (auto simp: FindReadyPcb_def elim!: rbind_OkE split: if_splits) (rule keeps_refl keeps_update | (rule keeps_intros, assumption))+
lemmas keeps_FindReadyPcb_after [keeps_intros] = keeps_FindReadyPcb [THEN keeps_after]

text \<open>The head of the queue keeps its process, so the process that \<open>SetNextProc\<close> makes current exists.\<close>

lemma PushProcToQueue_head:
  assumes "PushProcToQueue N p s = Inr t" "queue_size s \<noteq> 0"
  shows "queue_head t = queue_head s \<and> (\<forall>a. a \<noteq> heap_top s \<longrightarrow> map_option q_proc (items t a) = map_option q_proc (items s a))"
  using assms by (auto simp: PushProcToQueue_def Let_def malloc_item_def wr_item_def hmod_Ok_iff elim!: rbind_OkE)

lemma keeps_SetNextProc: "SetNextProc N s = Inr (s', r) \<Longrightarrow> keeps M s s'"
proof (cases "queue_size s = 0")
  case False
  assume "SetNextProc N s = Inr (s', r)"
  then obtain i t j where i: "rd_item s (queue_head s) = Inr i" "is_pcb s (q_proc i)" "PushProcToQueue N (curr_proc s) s = Inr t"
      "rd_item t (queue_head t) = Inr j" "s' = t\<lparr>curr_proc := q_proc j, queue_head := q_next j, queue_size := queue_size t - 1\<rparr>"
    using False by (auto simp: SetNextProc_def is_pcb_rd elim!: rbind_OkE)
  have t: "keeps M s t" by (rule keeps_ready(1) [OF i(3)])
  have "is_pcb t (q_proc j)" if "typed M s"
  proof -
    obtain a where a: "queue_head s = Some a" "items s a = Some i" using i(1) by (auto simp: rd_item_def hget_Ok_iff)
    then have "a \<noteq> heap_top s" using that by (auto simp: typed_def heap_wf_def)
    with PushProcToQueue_head [OF i(3) False] a i(4) have "q_proc j = q_proc i"
      by (auto simp: rd_item_def hget_Ok_iff)
    with i(2) t show ?thesis by (simp add: keeps_pcb)
  qed
  with t i(5) show ?thesis by (simp add: keeps_def)
qed (simp add: SetNextProc_def)
lemmas keeps_SetNextProc_after [keeps_intros] = keeps_SetNextProc [THEN keeps_after]

lemma keeps_RemoveProc: "RemoveProcFromReadyQueue N p s = Inr s' \<Longrightarrow> keeps M s s'"
proof -
  assume "RemoveProcFromReadyQueue N p s = Inr s'"
  then obtain q where "while_res (\<lambda>(s, curr_proc_item). curr_proc_item \<noteq> NULL)
       (\<lambda>(s, curr_proc_item).
          rbind (rd_item s curr_proc_item) (\<lambda>i.
          rbind (rd_pcb s (q_proc i)) (\<lambda>current_proc.
          rbind (rd_pcb s p) (\<lambda>x.
          rbind (if process_id current_proc = process_id x
                 then RemoveItemFromReadyQueue N curr_proc_item s else Inr s) (\<lambda>s.
          rbind (rd_item s curr_proc_item) (\<lambda>i. Inr (s, q_next i)))))))
       (s, queue_head s) = Inr (s', q)"
    by (auto simp: RemoveProcFromReadyQueue_def elim!: rbind_OkE)
  then have "keeps M (fst (s, queue_head s)) (fst (s', q))"
    by (rule keeps_while) (auto elim!: rbind_OkE split: if_splits intro: keeps_ready)
  then show ?thesis by simp
qed
lemmas keeps_RemoveProc_after [keeps_intros] = keeps_RemoveProc [THEN keeps_after]

lemma keeps_family:
  "SetProcID p s = Inr s' \<Longrightarrow> keeps M s s'"
  "PushExitToExited p q s = Inr s' \<Longrightarrow> keeps M s s'" "RemoveHeadFromExitQueue N p s = Inr s' \<Longrightarrow> keeps M s s'"
  "RemoveChildFromParent p q s = Inr s' \<Longrightarrow> keeps M s s'" "adopt p q s = Inr s' \<Longrightarrow> keeps M s s'"
  by (auto simp: SetProcID_def PushExitToExited_def RemoveHeadFromExitQueue_def RemoveChildFromParent_def adopt_def
      Let_def elim!: rbind_OkE split: if_splits) (rule keeps_refl keeps_update | (rule keeps_intros, assumption))+
lemmas keeps_family_after [keeps_intros] = keeps_family [THEN keeps_after]

lemma keeps_create_pcb: "create_pcb N s = Inr (s', p) \<Longrightarrow> keeps M s s'"
  by (auto simp: create_pcb_def Let_def elim!: rbind_OkE) (rule keeps_refl keeps_update | (rule keeps_intros, assumption))+
lemmas keeps_create_pcb_after [keeps_intros] = keeps_create_pcb [THEN keeps_after]

lemma create_pcb_is_pcb: "create_pcb N s = Inr (s', p) \<Longrightarrow> is_pcb s' p"
  by (auto simp: create_pcb_eq is_pcb_def)

section \<open>Memory and loading\<close>

lemma keeps_setup_pte: "setup_pte t up kp i s = Inr s' \<Longrightarrow> keeps M s s'"
  by (auto simp: setup_pte_def elim!: rbind_OkE) (rule keeps_refl keeps_update | (rule keeps_intros, assumption))+
lemmas keeps_setup_pte_after [keeps_intros] = keeps_setup_pte [THEN keeps_after]

lemma keeps_folds:
  "fold_res (setup_pte t up kp) is s = Inr s' \<Longrightarrow> keeps M s s'"
  "fold_res (\<lambda>i. setup_pte t up kp (g i)) js s = Inr s' \<Longrightarrow> keeps M s s'"
  "fold_res (\<lambda>i. wr_pte t (h i) f) ks s = Inr s' \<Longrightarrow> keeps M s s'"
  by (erule keeps_fold, erule keeps_setup_pte)+ (erule keeps_fold, erule keeps_arrays)
lemmas keeps_folds_after [keeps_intros] = keeps_folds [THEN keeps_after]

lemma keeps_store_bytes: "store_bytes N a bs s = Inr s' \<Longrightarrow> keeps M s s'"
proof (induction bs arbitrary: a s)
  case (Cons b bs)
  then obtain t where "store_byte N a b s = Inr t" "store_bytes N (Suc a) bs t = Inr s'" by (auto elim: rbind_OkE)
  with Cons.IH show ?case by (blast intro: keeps_trans keeps_arrays)
qed simp
lemmas keeps_store_bytes_after [keeps_intros] = keeps_store_bytes [THEN keeps_after]

lemma keeps_initPT: "initPT N s = Inr s' \<Longrightarrow> keeps M s s'"
proof -
  have "init_r0_page N v u = Inr w \<Longrightarrow> keeps M u w" "init_r1_page N v u = Inr w \<Longrightarrow> keeps M u w" for v u w
    by (auto simp: init_r0_page_def init_r1_page_def Let_def elim!: rbind_OkE) (rule keeps_refl keeps_update | (rule keeps_intros, assumption))+
  then have "fold_res (init_r0_page N) vs u = Inr w \<Longrightarrow> keeps M u w" "fold_res (init_r1_page N) vs u = Inr w \<Longrightarrow> keeps M u w"
    for vs u w by (blast intro: keeps_fold)+
  note f = this [THEN keeps_after]
  assume "initPT N s = Inr s'"
  then show ?thesis
    by (auto simp: initPT_def Let_def elim!: rbind_OkE) (rule keeps_refl keeps_update | (rule f, assumption))+
qed
lemmas keeps_initPT_after [keeps_intros] = keeps_initPT [THEN keeps_after]

lemma keeps_findFreeVirtualPage: "findFreeVirtualPage N s = Inr (s', f) \<Longrightarrow> keeps M s s'"
proof -
  have "findFreeVirtualPage_loop N vs s = Inr (s', f) \<Longrightarrow> keeps M s s'" for vs
    by (induction vs) (auto simp: Let_def elim!: rbind_OkE split: if_splits, (rule keeps_refl keeps_update | (rule keeps_intros, assumption))+)
  then show "findFreeVirtualPage N s = Inr (s', f) \<Longrightarrow> keeps M s s'" by (simp add: findFreeVirtualPage_def)
qed
lemmas keeps_findFreeVirtualPage_after [keeps_intros] = keeps_findFreeVirtualPage [THEN keeps_after]

lemma keeps_BuildRegion0: "BuildRegion0 N p s = Inr s' \<Longrightarrow> keeps M s s'"
  by (auto simp: BuildRegion0_def Let_def elim!: rbind_OkE) (rule keeps_refl keeps_update | (rule keeps_intros, assumption))+
lemmas keeps_BuildRegion0_after [keeps_intros] = keeps_BuildRegion0 [THEN keeps_after]

lemma keeps_BrkFunc: "BrkFunc N a s = Inr (s', r) \<Longrightarrow> keeps M s s'"
proof -
  have d: "brk_down b n u = Inr w \<Longrightarrow> keeps M u w" for b n u w
    unfolding brk_down_def by (erule keeps_fold) (auto elim!: rbind_OkE, (rule keeps_refl keeps_update | (rule keeps_intros, assumption))+)
  have u: "brk_up b n u = Inr w \<Longrightarrow> keeps M u w" for b n u w unfolding brk_up_def by (rule keeps_folds(2))
  assume "BrkFunc N a s = Inr (s', r)"
  then show ?thesis
    by (auto simp: BrkFunc_def Let_def elim!: rbind_OkE split: if_splits)
      (rule keeps_refl keeps_update | (rule keeps_intros d [THEN keeps_after] u [THEN keeps_after], assumption))+
qed
lemmas keeps_BrkFunc_after [keeps_intros] = keeps_BrkFunc [THEN keeps_after]


lemma keeps_load_free_old: "load_free_old N t s = Inr s' \<Longrightarrow> keeps M s s'"
  unfolding load_free_old_def
  by (erule keeps_fold) (auto simp: free_old_page_def elim!: rbind_OkE split: if_splits, (rule keeps_refl keeps_update | (rule keeps_intros, assumption))+)
lemmas keeps_load_free_old_after [keeps_intros] = keeps_load_free_old [THEN keeps_after]

lemma keeps_load_stages:
  "load_map N t l s = Inr s' \<Longrightarrow> keeps M s s'" "load_image N li s = Inr (s', b) \<Longrightarrow> keeps M s s'"
  "load_protect N li t l s = Inr s' \<Longrightarrow> keeps M s s'"
  by (auto simp: load_map_def load_image_def load_protect_def Let_def elim!: rbind_OkE) (rule keeps_refl keeps_update | (rule keeps_intros, assumption))+
lemmas keeps_load_stages_after [keeps_intros] = keeps_load_stages [THEN keeps_after]

lemma keeps_load_argv: "load_argv N cp cpp as s = Inr (s', r) \<Longrightarrow> keeps M s s'"
proof (induction as arbitrary: cp cpp s)
  case (Cons a as)
  then show ?case by (auto elim!: rbind_OkE) (blast intro: keeps_trans keeps_store_bytes)
qed simp
lemmas keeps_load_argv_after [keeps_intros] = keeps_load_argv [THEN keeps_after]

lemma keeps_load_args: "load_args N l as s = Inr s' \<Longrightarrow> keeps M s s'"
  by (auto simp: load_args_def elim!: rbind_OkE) (rule keeps_refl keeps_update | (rule keeps_intros, assumption))+
lemmas keeps_load_args_after [keeps_intros] = keeps_load_args [THEN keeps_after]

lemma keeps_load_replace: "load_replace N li l as info t s = Inr (s', info', r) \<Longrightarrow> keeps M s s'"
  by (auto simp: load_replace_def Let_def elim!: rbind_OkE split: if_splits) (rule keeps_refl keeps_update | (rule keeps_intros, assumption))+
lemmas keeps_load_replace_after [keeps_intros] = keeps_load_replace [THEN keeps_after]

lemma keeps_LoadProgram: "LoadProgram N name as info t s = Inr (s', info', r) \<Longrightarrow> keeps M s s'"
  by (auto simp: LoadProgram_def Let_def elim!: rbind_OkE split: option.splits if_splits) (rule keeps_refl keeps_update | (rule keeps_intros, assumption))+
lemmas keeps_LoadProgram_after [keeps_intros] = keeps_LoadProgram [THEN keeps_after]

lemma keeps_ExecFunc: "ExecFunc N name as info s = Inr (s', info', r) \<Longrightarrow> keeps M s s'"
  by (auto simp: ExecFunc_def elim!: rbind_OkE split: if_splits) (rule keeps_refl keeps_update | (rule keeps_intros, assumption))+
lemmas keeps_ExecFunc_after [keeps_intros] = keeps_ExecFunc [THEN keeps_after]

section \<open>Switching\<close>

lemma keeps_switch_pages:
  "fold_res (copy_stack_page N t v) as s = Inr s' \<Longrightarrow> keeps M s s'" "fold_res (fork_page N t u v) as s = Inr s' \<Longrightarrow> keeps M s s'"
  "fold_res (\<lambda>a. exit_page t (g a)) as s = Inr s' \<Longrightarrow> keeps M s s'"
proof -
  have "copy_stack_page N t v a w = Inr w' \<Longrightarrow> keeps M w w'" "fork_page N t u v a w = Inr w' \<Longrightarrow> keeps M w w'"
    "exit_page t b w = Inr w' \<Longrightarrow> keeps M w w'" for a b w w'
    by (auto simp: copy_stack_page_def fork_page_def exit_page_def Let_def elim!: rbind_OkE split: if_splits) (rule keeps_refl keeps_update | (rule keeps_intros, assumption))+
  then show "fold_res (copy_stack_page N t v) as s = Inr s' \<Longrightarrow> keeps M s s'"
    "fold_res (fork_page N t u v) as s = Inr s' \<Longrightarrow> keeps M s s'"
    "fold_res (\<lambda>a. exit_page t (g a)) as s = Inr s' \<Longrightarrow> keeps M s s'"
    by (blast intro: keeps_fold)+
qed
lemmas keeps_switch_pages_after [keeps_intros] = keeps_switch_pages [THEN keeps_after]

lemma keeps_switches:
  "SwitchExist p q s = Inr (s', r) \<Longrightarrow> keeps M s s'" "SwitchExit N p q s = Inr (s', r) \<Longrightarrow> keeps M s s'"
  "SwitchNewProc N p q s = Inr (s', r) \<Longrightarrow> keeps M s s'" "SwitchFork N p q s = Inr (s', r) \<Longrightarrow> keeps M s s'"
  by (auto simp: SwitchExist_def SwitchExit_def SwitchNewProc_def SwitchFork_def Let_def elim!: rbind_OkE) (rule keeps_refl keeps_update | (rule keeps_intros, assumption))+

lemma keeps_ContextSwitch: "ContextSwitch N f p q k s = Inr (s', k') \<Longrightarrow> keeps M s s'"
proof -
  have "run_switch N f p q t = Inr (u, r) \<Longrightarrow> keeps M t u" for t u r by (cases f) (auto intro: keeps_switches)
  then show "ContextSwitch N f p q k s = Inr (s', k') \<Longrightarrow> keeps M s s'"
    by (auto simp: ContextSwitch_def elim!: rbind_OkE) (blast intro: keeps_trans keeps_heaps)
qed

section \<open>Delays and the clock\<close>

lemma keeps_DelayFunc: "DelayFunc N n info s = Inr (s', f) \<Longrightarrow> keeps M s s'"
  by (auto simp: DelayFunc_def Let_def elim!: rbind_OkE split: if_splits) (rule keeps_refl keeps_update | (rule keeps_intros, assumption))+
lemmas keeps_DelayFunc_after [keeps_intros] = keeps_DelayFunc [THEN keeps_after]

lemma keeps_Tick: "Tick N s = Inr s' \<Longrightarrow> keeps M s s'"
  by (auto simp: Tick_def Let_def elim!: rbind_OkE split: if_splits) (rule keeps_refl keeps_update | (rule keeps_intros, assumption))+
lemmas keeps_Tick_after [keeps_intros] = keeps_Tick [THEN keeps_after]

lemma keeps_clock_walk: "clock_walk N item s = Inr (s', item', p) \<Longrightarrow> keeps M s s'"
proof -
  have c: "keeps M (fst z) (fst t)" if "clock_body N z = Inr t" for z t
    using that by (cases z; cases t) (auto simp: clock_body_def Let_def elim!: rbind_OkE split: if_splits, (rule keeps_refl keeps_update | (rule keeps_intros, assumption))+)
  assume "clock_walk N item s = Inr (s', item', p)"
  from keeps_while [OF this [unfolded clock_walk_def] c] show ?thesis by simp
qed
lemmas keeps_clock_walk_after [keeps_intros] = keeps_clock_walk [THEN keeps_after]

lemma keeps_clock:
  "TrapClock_from N info item s = Inr (s', f) \<Longrightarrow> keeps M s s'"
  "TrapClockHandler N info s = Inr (s', f) \<Longrightarrow> keeps M s s'"
  "TrapClock_resume N info item s = Inr (s', f) \<Longrightarrow> keeps M s s'"
proof -
  have "keeps M s s'" if "TrapClock_from N info i s = Inr (s', f)" for i
    using that by (auto simp: TrapClock_from_def elim!: rbind_OkE split: option.splits) (rule keeps_refl keeps_update | (rule keeps_intros, assumption))+
  then show "TrapClock_from N info item s = Inr (s', f) \<Longrightarrow> keeps M s s'"
    "TrapClockHandler N info s = Inr (s', f) \<Longrightarrow> keeps M s s'" "TrapClock_resume N info item s = Inr (s', f) \<Longrightarrow> keeps M s s'"
    by (auto simp: TrapClockHandler_def TrapClock_resume_def elim!: rbind_OkE)
qed

section \<open>Fork, exit, wait\<close>

lemma keeps_ForkFunc: "ForkFunc N info s = Inr (s', f) \<Longrightarrow> keeps M s s'"
  by (auto simp: ForkFunc_def Let_def elim!: rbind_OkE) (rule keeps_refl keeps_update | (rule keeps_intros, assumption))+
lemmas keeps_ForkFunc_after [keeps_intros] = keeps_ForkFunc [THEN keeps_after]

lemma keeps_walks:
  "orphan_children q s = Inr s' \<Longrightarrow> keeps M s s'" "leave_parent q s = Inr s' \<Longrightarrow> keeps M s s'"
proof -
  have b: "keeps M (fst z) (fst t)" if "orphan_body z = Inr t" for z t
    using that by (cases z; cases t) (auto simp: orphan_body_def elim!: rbind_OkE, (rule keeps_refl keeps_update | (rule keeps_intros, assumption))+)
  have c: "keeps M (fst z) (fst t)" if "leave_body q z = Inr t" for z t
    using that by (cases z; cases t) (auto simp: leave_body_def elim!: rbind_OkE split: if_splits, (rule keeps_refl keeps_update | (rule keeps_intros, assumption))+)
  show "orphan_children q s = Inr s' \<Longrightarrow> keeps M s s'"
    by (auto simp: orphan_children_def elim!: rbind_OkE dest!: keeps_while [OF _ b])
  show "leave_parent q s = Inr s' \<Longrightarrow> keeps M s s'"
    by (auto simp: leave_parent_def elim!: rbind_OkE dest!: keeps_while [OF _ c])
qed
lemmas keeps_walks_after [keeps_intros] = keeps_walks [THEN keeps_after]

lemma keeps_report_exit: "report_exit N q st s = Inr s' \<Longrightarrow> keeps M s s'"
  by (auto simp: report_exit_def Let_def elim!: rbind_OkE split: if_splits) (rule keeps_refl keeps_update | (rule keeps_intros, assumption))+
lemmas keeps_report_exit_after [keeps_intros] = keeps_report_exit [THEN keeps_after]

lemma keeps_ends:
  "ExitFunc N st s = Inr (s', f) \<Longrightarrow> keeps M s s'" "ExitFunc_resume s = Inr (s', f) \<Longrightarrow> keeps M s s'"
  "WaitFunc_resume N s = Inr (s', r) \<Longrightarrow> keeps M s s'"
  by (auto simp: ExitFunc_def ExitFunc_resume_def WaitFunc_resume_def Let_def elim!: rbind_OkE split: if_splits) (rule keeps_refl keeps_update | (rule keeps_intros, assumption))+
lemmas keeps_ends_after [keeps_intros] = keeps_ends [THEN keeps_after]

lemma keeps_WaitFunc: "WaitFunc N info s = Inr (s', f) \<Longrightarrow> keeps M s s'"
  by (auto simp: WaitFunc_def Let_def elim!: rbind_OkE split: if_splits) (rule keeps_refl keeps_update | (rule keeps_intros, assumption))+
lemmas keeps_WaitFunc_after [keeps_intros] = keeps_WaitFunc [THEN keeps_after]


section \<open>Terminals\<close>

lemma keeps_lines:
  "wr_term i f s = Inr s' \<Longrightarrow> keeps M s s'" "addToLineTail p q s = Inr s' \<Longrightarrow> keeps M s s'"
  "addToProcTail p q s = Inr s' \<Longrightarrow> keeps M s s'"
  by (auto simp: wr_term_def addToLineTail_def addToProcTail_def elim!: rbind_OkE split: if_splits) (rule keeps_refl keeps_update | (rule keeps_intros, assumption))+
lemmas keeps_lines_after [keeps_intros] = keeps_lines [THEN keeps_after]

lemma keeps_TtyTransmit: "keeps M r s \<Longrightarrow> keeps M r (TtyTransmit tty buf n s)"
  by (simp add: TtyTransmit_def keeps_update)

lemma keeps_tty:
  "TtyTransmitFunc N tty info s = Inr (s', f) \<Longrightarrow> keeps M s s'" "TtyTransmitFunc_resume t s = Inr (s', r) \<Longrightarrow> keeps M s s'"
  "TtyWriteFunc N tty buf n info s = Inr (s', f) \<Longrightarrow> keeps M s s'" "TtyReadFunc tty s = Inr (s', f) \<Longrightarrow> keeps M s s'"
  by (auto simp: TtyTransmitFunc_def TtyTransmitFunc_resume_def TtyWriteFunc_def TtyReadFunc_def Let_def elim!: rbind_OkE split: if_splits)
    (rule keeps_refl keeps_update keeps_TtyTransmit | (rule keeps_intros, assumption))+
lemmas keeps_tty_after [keeps_intros] = keeps_tty [THEN keeps_after]

lemma keeps_TtyReceiveFunc: "TtyReceiveFunc N bs tty s = Inr (s', r) \<Longrightarrow> keeps M s s'"
proof -
  have h: "keeps M s (s\<lparr>heap_top := Suc (heap_top s)\<rparr>)" by (simp add: keeps_def typed_def heap_wf_def is_pcb_def)
  assume "TtyReceiveFunc N bs tty s = Inr (s', r)"
  then have "keeps M (s\<lparr>heap_top := Suc (heap_top s)\<rparr>) s'"
    by (auto simp: TtyReceiveFunc_def Let_def elim!: rbind_OkE split: if_splits) (rule keeps_refl keeps_update | (rule keeps_intros, assumption))+
  with h show ?thesis by (rule keeps_trans)
qed
lemmas keeps_TtyReceiveFunc_after [keeps_intros] = keeps_TtyReceiveFunc [THEN keeps_after]

section \<open>Traps\<close>

lemma keeps_delivered: "delivered info r = Inr (s', f) \<Longrightarrow> (\<And>g. r = Inr (s', g) \<Longrightarrow> keeps M s s') \<Longrightarrow> keeps M s s'"
  by (auto simp: delivered_def elim!: rbind_OkE)

lemma keeps_TrapKernelHandler: "TrapKernelHandler N cstr cstrs info s = Inr (s', f) \<Longrightarrow> keeps M s s'"
  by (auto simp: TrapKernelHandler_def delivered_def elim!: rbind_OkE split: trap_code.splits) (rule keeps_refl keeps_update | (rule keeps_intros, assumption))+

lemma keeps_report1: "report m s = Inr s' \<Longrightarrow> keeps M s s'"
  by (auto simp: report_def elim!: rbind_OkE split: option.splits) (rule keeps_refl keeps_update | (rule keeps_intros, assumption))+

lemma keeps_report: "fold_res report ms s = Inr s' \<Longrightarrow> keeps M s s'"
  by (blast intro: keeps_fold keeps_report1)
lemmas keeps_report_after [keeps_intros] = keeps_report [THEN keeps_after]

lemma keeps_exceptions:
  "TrapIllegalHandler N info s = Inr (s', f) \<Longrightarrow> keeps M s s'" "TrapMathHandler N info s = Inr (s', f) \<Longrightarrow> keeps M s s'"
  "TrapMemoryHandler N info s = Inr (s', f) \<Longrightarrow> keeps M s s'"
proof -
  show "TrapIllegalHandler N info s = Inr (s', f) \<Longrightarrow> keeps M s s'" "TrapMathHandler N info s = Inr (s', f) \<Longrightarrow> keeps M s s'"
    using keeps_report1 keeps_ends(1)
    by (auto simp: TrapIllegalHandler_def TrapMathHandler_def elim!: rbind_OkE) (blast intro: keeps_trans)+
  show "TrapMemoryHandler N info s = Inr (s', f) \<Longrightarrow> keeps M s s'"
    by (auto simp: TrapMemoryHandler_def Let_def elim!: rbind_OkE split: if_splits) (rule keeps_refl keeps_update | (rule keeps_intros, assumption))+
qed

lemma keeps_terminals:
  "TrapTTYReceiveHandler N bs info s = Inr (s', f) \<Longrightarrow> keeps M s s'" "TrapTTYTransmitHandler N info s = Inr (s', f) \<Longrightarrow> keeps M s s'"
  by (auto simp: TrapTTYReceiveHandler_def TrapTTYTransmitHandler_def elim!: rbind_OkE) (rule keeps_refl keeps_update | (rule keeps_intros, assumption))+

lemma keeps_resume: "resume N k s = Inr (s', f) \<Longrightarrow> keeps M s s'"
  by (cases k) (auto simp: KernelStart_resume_def intro: keeps_clock(3) elim!: rbind_OkE split: list.splits, (rule keeps_refl keeps_update | (rule keeps_intros, assumption))+)

lemma keeps_kruns: "kruns N s f s' f' \<Longrightarrow> keeps M s s'"
proof (induction rule: kruns.induct)
  case (kruns_switch f p1 p2 k s s1 k1 s2 f2 s3 f3)
  from keeps_ContextSwitch [OF kruns_switch(1)] keeps_resume [OF kruns_switch(2)] kruns_switch(4)
  show ?case by (blast intro: keeps_trans)
qed simp_all


lemma keeps_SetKernelBrk: "SetKernelBrk N a s = Inr (s', r) \<Longrightarrow> keeps M s s'"
proof -
  have f: "fold_res (\<lambda>page s. rbind (findFreePage s) (\<lambda>(s, newPage). wr_r1 (b + int page) (g newPage) s)) ps t = Inr u \<Longrightarrow> keeps M t u"
    for b g ps t u by (erule keeps_fold) (auto elim!: rbind_OkE, (rule keeps_refl keeps_update | (rule keeps_intros, assumption))+)
  show "SetKernelBrk N a s = Inr (s', r) \<Longrightarrow> keeps M s s'"
    by (auto simp: SetKernelBrk_def Let_def elim!: rbind_OkE split: if_splits)
      (rule keeps_refl keeps_update | (rule keeps_intros f [THEN keeps_after], assumption))+
qed

section \<open>Every state the kernel reaches\<close>

text \<open>Memory as the kernel finds it: arrays of the right lengths, and nothing allocated above \<open>heap_top\<close>.\<close>

definition boot_memory :: "machine \<Rightarrow> kstate \<Rightarrow> bool" where
  "boot_memory M s \<longleftrightarrow> length (region0Pt s) = PAGE_TABLE_LEN M \<and> length (region1Pt s) = PAGE_TABLE_LEN M \<and>
     (\<forall>v. length (r1_tables s v) = PAGE_TABLE_LEN M) \<and> (\<forall>f. length (frames s f) = PAGESIZE M) \<and> heap_wf s"

lemma rbind_pairE:
  assumes "rbind r (\<lambda>(a, b). f a b) = Inr y"
  obtains a b where "r = Inr (a, b)" "f a b = Inr y"
  using assms by (auto elim: rbind_OkE)

lemma rbind_tripleE:
  assumes "rbind r (\<lambda>(a, b, c). f a b c) = Inr y"
  obtains a b c where "r = Inr (a, b, c)" "f a b c = Inr y"
  using assms by (auto elim: rbind_OkE)

lemma KernelStart_typed:
  assumes "boot_memory M s" "KernelStart M terms0 info pmem_size orig_brk cmd_args s = Inr (s', f)"
  shows "typed M s' \<and> is_pcb s' (curr_proc s')"
proof -
  define b where "b = buildFreePages M pmem_size (WriteRegister REG_VECTOR_BASE (s\<lparr>currKernelBrk := orig_brk\<rparr>))"
  have "typed M b" using assms(1)
    by (simp add: b_def typed_def boot_memory_def buildFreePages_def WriteRegister_def heap_wf_def Let_def)
  obtain t1 where t1: "initPT M b = Inr t1" and
    "rbind (create_pcb M ((WriteRegister REG_VM_ENABLE (init_terms M terms0 t1))\<lparr>vm_enabled := True\<rparr>)) (\<lambda>(s, pcb1).
      rbind (wr_pcb pcb1 (region0_update (\<lambda>_. PT_region0Pt)) s) (\<lambda>s.
      let s = s\<lparr>curr_proc := pcb1\<rparr> in
      rbind (LoadProgram M ''idle'' cmd_args info PT_region0Pt s) (\<lambda>(s, info, _).
      let s = s\<lparr>idle_pcb := pcb1\<rparr> in
      rbind (create_pcb M s) (\<lambda>(s, pcb2).
      rbind (BuildRegion0 M pcb2 s) (\<lambda>s.
      Inr (s, Call_ContextSwitch SWITCH_NEW_PROC pcb1 pcb2 (K_KernelStart info cmd_args pcb2))))))) = Inr (s', f)"
    using assms(2) by (auto simp: KernelStart_def b_def Let_def elim!: rbind_OkE)
  note this(2)
  then obtain t2 pcb1 where c: "create_pcb M ((WriteRegister REG_VM_ENABLE (init_terms M terms0 t1))\<lparr>vm_enabled := True\<rparr>) = Inr (t2, pcb1)"
    and r: "rbind (wr_pcb pcb1 (region0_update (\<lambda>_. PT_region0Pt)) t2) (\<lambda>s.
      rbind (LoadProgram M ''idle'' cmd_args info PT_region0Pt (s\<lparr>curr_proc := pcb1\<rparr>)) (\<lambda>(s, info, _).
      rbind (create_pcb M (s\<lparr>idle_pcb := pcb1\<rparr>)) (\<lambda>(s, pcb2).
      rbind (BuildRegion0 M pcb2 s) (\<lambda>s.
      Inr (s, Call_ContextSwitch SWITCH_NEW_PROC pcb1 pcb2 (K_KernelStart info cmd_args pcb2)))))) = Inr (s', f)"
    unfolding Let_def by (rule rbind_pairE)
  from r obtain t3 where w: "wr_pcb pcb1 (region0_update (\<lambda>_. PT_region0Pt)) t2 = Inr t3"
    and "rbind (LoadProgram M ''idle'' cmd_args info PT_region0Pt (t3\<lparr>curr_proc := pcb1\<rparr>)) (\<lambda>(s, info, _).
      rbind (create_pcb M (s\<lparr>idle_pcb := pcb1\<rparr>)) (\<lambda>(s, pcb2).
      rbind (BuildRegion0 M pcb2 s) (\<lambda>s.
      Inr (s, Call_ContextSwitch SWITCH_NEW_PROC pcb1 pcb2 (K_KernelStart info cmd_args pcb2))))) = Inr (s', f)"
    by (rule rbind_OkE)
  note this(2)
  then obtain t4 x y where l: "LoadProgram M ''idle'' cmd_args info PT_region0Pt (t3\<lparr>curr_proc := pcb1\<rparr>) = Inr (t4, x, y)"
    and "rbind (create_pcb M (t4\<lparr>idle_pcb := pcb1\<rparr>)) (\<lambda>(s, pcb2).
      rbind (BuildRegion0 M pcb2 s) (\<lambda>s.
      Inr (s, Call_ContextSwitch SWITCH_NEW_PROC pcb1 pcb2 (K_KernelStart x cmd_args pcb2)))) = Inr (s', f)"
    by (rule rbind_tripleE)
  note this(2)
  then obtain t5 pcb2 where n: "create_pcb M (t4\<lparr>idle_pcb := pcb1\<rparr>) = Inr (t5, pcb2)" "BuildRegion0 M pcb2 t5 = Inr s'"
    by (rule rbind_pairE) (auto elim!: rbind_OkE)
  have e: "keeps M t4 s'"
    by (rule keeps_after [OF keeps_BuildRegion0 [OF n(2)] keeps_after [OF keeps_create_pcb [OF n(1)]]]) (intro keeps_update keeps_refl)
  have "keeps M b t2"
    by (rule keeps_after [OF keeps_create_pcb [OF c]])
      (intro keeps_update, simp add: init_terms_def, intro keeps_update keeps_initPT [OF t1])
  then have "typed M t2" using \<open>typed M b\<close> by (simp add: keeps_def)
  moreover have "is_pcb t2 pcb1" by (rule create_pcb_is_pcb [OF c])
  ultimately have "typed M t3" "is_pcb t3 pcb1" using keeps_heaps(1) [OF w, of M] by (simp_all add: keeps_def)
  moreover have "keeps M (t3\<lparr>curr_proc := pcb1\<rparr>) s'"
    by (rule keeps_after [OF e keeps_LoadProgram [OF l]])
  ultimately show ?thesis by (simp add: keeps_def)
qed

definition run_handler ::
    "machine \<Rightarrow> (kstate \<Rightarrow> 64 word \<Rightarrow> string) \<Rightarrow> (kstate \<Rightarrow> 64 word \<Rightarrow> string list) \<Rightarrow> 8 word list \<Rightarrow> handler \<Rightarrow> exc_info \<Rightarrow> kstate \<Rightarrow>
     (kstate \<times> exc_info flow) res" where
  "run_handler M cstr cstrs received h = (case h of
      H_Kernel \<Rightarrow> TrapKernelHandler M cstr cstrs | H_Clock \<Rightarrow> TrapClockHandler M | H_Illegal \<Rightarrow> TrapIllegalHandler M
    | H_Memory \<Rightarrow> TrapMemoryHandler M | H_Math \<Rightarrow> TrapMathHandler M
    | H_TTYReceive \<Rightarrow> TrapTTYReceiveHandler M received | H_TTYTransmit \<Rightarrow> TrapTTYTransmitHandler M)"

lemma keeps_handler: "run_handler N cstr cstrs bs h info s = Inr (s', f) \<Longrightarrow> keeps M s s'"
  by (cases h) (auto simp: run_handler_def intro: keeps_TrapKernelHandler keeps_clock keeps_exceptions keeps_terminals)

text \<open>A user process writes the pages that its page table lets it write.\<close>

definition user_step :: "kstate \<Rightarrow> kstate \<Rightarrow> bool" where
  "user_step s s' \<longleftrightarrow> s' = s\<lparr>frames := frames s'\<rparr> \<and> (\<forall>f. length (frames s' f) = length (frames s f)) \<and>
     (\<forall>f. frames s' f \<noteq> frames s f \<longrightarrow>
       (\<exists>e\<in>set (hw_table s (reg_ptr0 s)). valid e \<and> PROT_WRITE \<in> uprot e \<and> unat (pfn e) = f))"

inductive kernel_reach :: "machine \<Rightarrow> kstate \<Rightarrow> kstate \<Rightarrow> bool" for M s0 where
  reach_boot: "KernelStart M terms0 info pmem_size orig_brk cmd_args s0 = Inr (s1, f) \<Longrightarrow> kruns M s1 f s (Ret info') \<Longrightarrow>
    kernel_reach M s0 s"
| reach_trap: "kernel_reach M s0 s \<Longrightarrow> interruptVector t = Some h \<Longrightarrow> run_handler M cstr cstrs received h info s = Inr (s1, f) \<Longrightarrow>
    kruns M s1 f s' (Ret info') \<Longrightarrow> kernel_reach M s0 s'"
| reach_user: "kernel_reach M s0 s \<Longrightarrow> user_step s s' \<Longrightarrow> kernel_reach M s0 s'"
| reach_malloc: "kernel_reach M s0 s \<Longrightarrow> SetKernelBrk M addr s = Inr (s', r) \<Longrightarrow> kernel_reach M s0 s'"

lemma keeps_user_step: "user_step s s' \<Longrightarrow> keeps M s s'"
proof -
  assume u: "user_step s s'"
  then obtain g where "s' = s\<lparr>frames := g\<rparr>" by (auto simp: user_step_def)
  with u show ?thesis by (auto simp: user_step_def keeps_def typed_def heap_wf_def is_pcb_def)
qed

text \<open>C2: type soundness of the kernel. In every state that it reaches - from \<open>KernelStart\<close> on any memory whose
  arrays have their lengths, through any sequence of traps (each run to the next return to user
  mode, over all context switches), of stores by user processes and of moves of the kernel break -
  the page tables, the frame table and the frames have their lengths, allocated blocks lie below
  \<open>heap_top\<close>, and the current process has a process control block.\<close>

theorem reachable_typed:
  assumes "boot_memory M s0" "kernel_reach M s0 s"
  shows "typed M s \<and> is_pcb s (curr_proc s)"
  using assms(2)
proof (induction rule: kernel_reach.induct)
  case (reach_boot terms0 info pmem_size orig_brk cmd_args s1 f s info')
  from KernelStart_typed [OF assms(1) reach_boot(1)] keeps_kruns [OF reach_boot(2), of M] show ?case by (simp add: keeps_def)
next
  case (reach_trap s t h cstr cstrs received info s1 f s' info')
  from reach_trap.IH keeps_handler [OF reach_trap(3), of M] keeps_kruns [OF reach_trap(4), of M] show ?case by (simp add: keeps_def)
next
  case (reach_user s s')
  from reach_user.IH keeps_user_step [OF reach_user(2), of M] show ?case by (simp add: keeps_def)
next
  case (reach_malloc s addr s' r)
  from reach_malloc.IH keeps_SetKernelBrk [OF reach_malloc(2), of M] show ?case by (simp add: keeps_def)
qed


text \<open>A machine without any file, and whether it boots with the arguments \<open>args\<close>.\<close>

definition diskless :: machine where
  "diskless = tiny\<lparr>fs := \<lambda>_. None\<rparr>"

definition boots :: "string list \<Rightarrow> bool" where
  "boots args \<longleftrightarrow> (case KernelStart diskless (\<lambda>_. zero_term) zero_info 1024 640 args blank of
     Inl e \<Rightarrow> False
   | Inr (s, f) \<Rightarrow> (case kstep diskless (s, f) of Inl e \<Rightarrow> False | Inr (s, f) \<Rightarrow> (case f of Ret i \<Rightarrow> True | _ \<Rightarrow> False)))"

lemma boots_reach: "boots args \<Longrightarrow> \<exists>s. kernel_reach diskless blank s"
proof -
  assume "boots args"
  then obtain s1 f s i where b: "KernelStart diskless (\<lambda>_. zero_term) zero_info 1024 640 args blank = Inr (s1, f)"
      "kstep diskless (s1, f) = Inr (s, Ret i)"
    by (auto simp: boots_def split: sum.splits prod.splits flow.splits)
  have "kruns diskless s1 f s (Ret i)"
    using b(2) kruns_kstep [OF _ kruns_leave] by (cases f) (auto simp: kstep_def intro: kruns_leave)
  with b(1) show ?thesis by (blast intro: reach_boot)
qed

theorem reachable_typed_witness:
  "\<exists>s. kernel_reach diskless blank s \<and> typed diskless s \<and> is_pcb s (curr_proc s)"
proof -
  have "boots []" by code_simp
  then obtain s where "kernel_reach diskless blank s" using boots_reach by blast
  moreover have "boot_memory diskless blank"
    by (simp add: boot_memory_def blank_def diskless_def tiny_def PAGESIZE_def heap_wf_def)
  ultimately show ?thesis using reachable_typed by blast
qed

end
