(* ===== verification/Image.thy ===== *)
theory Image
  imports Load
begin

text \<open>
  Loading that succeeds: what the stores of \<open>LoadProgram\<close> (src/load.c) leave in memory, from the store of a
  byte through the page table up to the program and the arguments that the new process finds. \<open>upages\<close>
  describes the pages, \<open>patch\<close> a store into memory as a function of addresses, \<open>can_load\<close> when loading succeeds.
\<close>

section \<open>The pages of a user program\<close>

text \<open>The pages \<open>U\<close> of the current page table are mapped, page \<open>i\<close> to the frame \<open>\<phi> i\<close>, and those in \<open>W\<close> can be
  written by the kernel.\<close>

definition upages :: "machine \<Rightarrow> nat set \<Rightarrow> nat set \<Rightarrow> (nat \<Rightarrow> nat) \<Rightarrow> kstate \<Rightarrow> bool" where
  "upages M U W \<phi> s \<longleftrightarrow> U \<subseteq> {..<PAGE_TABLE_LEN M} \<and> inj_on \<phi> U \<and>
     (\<forall>i\<in>U. length (frames s (\<phi> i)) = PAGESIZE M) \<and>
     (\<forall>i\<in>U. \<exists>e. entry (reg_ptr0 s) s i = Some e \<and> valid e \<and> unat (pfn e) = \<phi> i \<and> PROT_READ \<in> uprot e) \<and>
     (\<forall>i\<in>U \<inter> W. \<exists>e. entry (reg_ptr0 s) s i = Some e \<and> PROT_WRITE \<in> kprot e)"

text \<open>The byte at the address \<open>b\<close>.\<close>

definition mem :: "machine \<Rightarrow> (nat \<Rightarrow> nat) \<Rightarrow> kstate \<Rightarrow> nat \<Rightarrow> 8 word" where
  "mem M \<phi> s b = frames s (\<phi> (b div PAGESIZE M)) ! (b mod PAGESIZE M)"

lemma entry_frames [simp]: "entry t (s\<lparr>frames := g\<rparr>) = entry t s"
  by (cases t) (simp_all add: entry_def tbl_def fun_eq_iff)

lemma tbl_frames [simp]: "tbl (s\<lparr>frames := g\<rparr>) t = tbl s t"
  by (cases t) (simp_all add: tbl_def)

lemma hw_pte_entry:
  assumes "hw_layout M" "entry (reg_ptr0 s) s (a div PAGESIZE M) = Some e" "a div PAGESIZE M < PAGE_TABLE_LEN M"
  shows "hw_pte M s a = Inr e"
proof -
  obtain ps where ps: "tbl s (reg_ptr0 s) = Inr ps" "a div PAGESIZE M < length ps" "ps ! (a div PAGESIZE M) = e"
    using assms(2) by (auto simp: entry_def split: sum.splits if_splits)
  have "a < VMEM_0_LIMIT M"
    using assms(1,3) by (simp add: hw_layout_def div_less_iff_less_mult PAGESIZE_pos)
  with ps show ?thesis by (simp add: hw_pte_def hw_table_tbl)
qed

lemma store_byte_mem:
  assumes "hw_layout M" "upages M U W \<phi> s" "a div PAGESIZE M \<in> U \<inter> W"
  shows "\<exists>g. store_byte M a v s = Inr (s\<lparr>frames := g\<rparr>) \<and> upages M U W \<phi> (s\<lparr>frames := g\<rparr>) \<and>
    (\<forall>i. length (g i) = length (frames s i)) \<and> (\<forall>i. i \<notin> \<phi> ` U \<longrightarrow> g i = frames s i) \<and>
    (\<forall>b. b div PAGESIZE M \<in> U \<longrightarrow> mem M \<phi> (s\<lparr>frames := g\<rparr>) b = (if b = a then v else mem M \<phi> s b))"
proof -
  let ?P = "PAGESIZE M"
  have i: "a div ?P \<in> U" "a div ?P < PAGE_TABLE_LEN M" using assms(2,3) by (auto simp: upages_def)
  obtain e where e: "entry (reg_ptr0 s) s (a div ?P) = Some e" "valid e" "unat (pfn e) = \<phi> (a div ?P)" "PROT_WRITE \<in> kprot e"
    using assms(2,3) i(1) unfolding upages_def by fastforce
  let ?f = "\<phi> (a div ?P)"
  let ?g = "(frames s)(?f := (frames s ?f)[a mod ?P := v])"
  have st: "store_byte M a v s = Inr (s\<lparr>frames := ?g\<rparr>)"
    using hw_pte_entry [OF assms(1) e(1) i(2)] e by (simp add: store_byte_def)
  have len: "\<forall>j\<in>U. length (?g (\<phi> j)) = ?P" using assms(2) i(1) by (auto simp: upages_def)
  have up: "upages M U W \<phi> (s\<lparr>frames := ?g\<rparr>)" using assms(2) len by (simp add: upages_def)
  have "mem M \<phi> (s\<lparr>frames := ?g\<rparr>) b = (if b = a then v else mem M \<phi> s b)" if b: "b div ?P \<in> U" for b
  proof (cases "b div ?P = a div ?P")
    case True
    have l: "a mod ?P < length (frames s ?f)" using assms(2) i(1) PAGESIZE_pos [of M] by (simp add: upages_def)
    have "b = a \<longleftrightarrow> b mod ?P = a mod ?P" using True by (metis div_mult_mod_eq)
    with True l show ?thesis by (simp add: mem_def nth_list_update)
  next
    case False
    then have "\<phi> (b div ?P) \<noteq> ?f" using assms(2) b i(1) by (auto simp: upages_def dest: inj_onD)
    with False show ?thesis by (auto simp: mem_def)
  qed
  moreover have "\<forall>j. length (?g j) = length (frames s j)" "\<forall>j. j \<notin> \<phi> ` U \<longrightarrow> ?g j = frames s j" using i(1) by auto
  ultimately show ?thesis using st up by blast
qed

text \<open>Memory after the bytes \<open>bs\<close> have been stored from \<open>a\<close> on.\<close>

definition patch :: "nat \<Rightarrow> 8 word list \<Rightarrow> (nat \<Rightarrow> 8 word) \<Rightarrow> nat \<Rightarrow> 8 word" where
  "patch a bs f b = (if a \<le> b \<and> b < a + length bs then bs ! (b - a) else f b)"

definition wrote :: "machine \<Rightarrow> nat set \<Rightarrow> nat set \<Rightarrow> (nat \<Rightarrow> nat) \<Rightarrow> (nat \<Rightarrow> 8 word) \<Rightarrow> kstate \<Rightarrow> kstate \<Rightarrow> bool" where
  "wrote M U W \<phi> f s s' \<longleftrightarrow> (\<exists>g. s' = s\<lparr>frames := g\<rparr>) \<and> upages M U W \<phi> s' \<and>
     (\<forall>i. length (frames s' i) = length (frames s i)) \<and> (\<forall>i. i \<notin> \<phi> ` U \<longrightarrow> frames s' i = frames s i) \<and>
     (\<forall>b. b div PAGESIZE M \<in> U \<longrightarrow> mem M \<phi> s' b = f b)"

definition in_pages :: "machine \<Rightarrow> nat set \<Rightarrow> nat \<Rightarrow> nat \<Rightarrow> bool" where
  "in_pages M V a n \<longleftrightarrow> (\<forall>b\<in>{a..<a + n}. b div PAGESIZE M \<in> V)"

lemma wrote_refl: "upages M U W \<phi> s \<Longrightarrow> wrote M U W \<phi> (mem M \<phi> s) s s"
  unfolding wrote_def by (intro conjI exI [of _ "frames s"]) simp_all

lemma patch_Nil [simp]: "patch a [] f = f"
  by (auto simp: patch_def fun_eq_iff)

lemma store_bytes_mem:
  assumes "hw_layout M" "upages M U W \<phi> s" "in_pages M (U \<inter> W) a (length bs)"
  shows "\<exists>s'. store_bytes M a bs s = Inr s' \<and> wrote M U W \<phi> (patch a bs (mem M \<phi> s)) s s'"
  using assms(2,3)
proof (induction bs arbitrary: a s)
  case Nil
  then show ?case by (simp add: wrote_refl)
next
  case (Cons v bs)
  have "a div PAGESIZE M \<in> U \<inter> W" using Cons.prems(2) unfolding in_pages_def by (rule bspec) simp
  then obtain g where g: "store_byte M a v s = Inr (s\<lparr>frames := g\<rparr>)" "upages M U W \<phi> (s\<lparr>frames := g\<rparr>)"
      "\<forall>b. b div PAGESIZE M \<in> U \<longrightarrow> mem M \<phi> (s\<lparr>frames := g\<rparr>) b = (if b = a then v else mem M \<phi> s b)"
      "\<forall>i. length (g i) = length (frames s i)" "\<forall>i. i \<notin> \<phi> ` U \<longrightarrow> g i = frames s i"
    using store_byte_mem [OF assms(1) Cons.prems(1)] by blast
  have "in_pages M (U \<inter> W) (Suc a) (length bs)" using Cons.prems(2) by (simp add: in_pages_def)
  then obtain s' where h: "store_bytes M (Suc a) bs (s\<lparr>frames := g\<rparr>) = Inr s'"
      "wrote M U W \<phi> (patch (Suc a) bs (mem M \<phi> (s\<lparr>frames := g\<rparr>))) (s\<lparr>frames := g\<rparr>) s'"
    using Cons.IH [OF g(2)] by blast
  have "patch (Suc a) bs (mem M \<phi> (s\<lparr>frames := g\<rparr>)) b = patch a (v # bs) (mem M \<phi> s) b" if "b div PAGESIZE M \<in> U" for b
    using g(3) that by (auto simp: patch_def nth_Cons' Suc_le_eq)
  moreover have "\<exists>g. s' = s\<lparr>frames := g\<rparr>" using h(2) by (auto simp: wrote_def)
  ultimately show ?case using g(1,4,5) h by (intro exI [of _ s']) (simp add: wrote_def)
qed

text \<open>Stores after others.\<close>

lemma store_more:
  assumes "hw_layout M" "wrote M U W \<phi> f s s1" "in_pages M (U \<inter> W) a (length bs)"
  shows "\<exists>s2. store_bytes M a bs s1 = Inr s2 \<and> wrote M U W \<phi> (patch a bs f) s s2"
proof -
  have s1: "\<exists>g. s1 = s\<lparr>frames := g\<rparr>" "upages M U W \<phi> s1" "\<forall>b. b div PAGESIZE M \<in> U \<longrightarrow> mem M \<phi> s1 b = f b"
      "\<forall>i. length (frames s1 i) = length (frames s i)" "\<forall>i. i \<notin> \<phi> ` U \<longrightarrow> frames s1 i = frames s i"
    using assms(2) by (simp_all add: wrote_def)
  obtain s2 where s2: "store_bytes M a bs s1 = Inr s2" "\<exists>g. s2 = s1\<lparr>frames := g\<rparr>" "upages M U W \<phi> s2"
      "\<forall>b. b div PAGESIZE M \<in> U \<longrightarrow> mem M \<phi> s2 b = patch a bs (mem M \<phi> s1) b"
      "\<forall>i. length (frames s2 i) = length (frames s1 i)" "\<forall>i. i \<notin> \<phi> ` U \<longrightarrow> frames s2 i = frames s1 i"
    using store_bytes_mem [OF assms(1) s1(2) assms(3)] unfolding wrote_def by blast
  have "\<exists>g. s2 = s\<lparr>frames := g\<rparr>" using s1(1) s2(2) by auto
  with s1(3-) s2 show ?thesis by (auto simp: wrote_def patch_def)
qed

lemma patch_append: "patch (a + length xs) ys (patch a xs f) = patch a (xs @ ys) f"
  by (auto simp: patch_def fun_eq_iff nth_append)

lemma patch_commute: "a + length xs \<le> b \<Longrightarrow> patch a xs (patch b ys f) = patch b ys (patch a xs f)"
  by (auto simp: patch_def fun_eq_iff)

lemma in_pages_sub: "in_pages M V a n \<Longrightarrow> a \<le> b \<Longrightarrow> b + m \<le> a + n \<Longrightarrow> in_pages M V b m"
  by (auto simp: in_pages_def)

section \<open>The argument block\<close>

primrec arg_ptrs :: "nat \<Rightarrow> string list \<Rightarrow> nat list" where
  "arg_ptrs cp [] = []"
| "arg_ptrs cp (a # as) = cp # arg_ptrs (cp + length a + 1) as"

definition ptr_bytes :: "nat list \<Rightarrow> 8 word list" where
  "ptr_bytes ps = concat (map (\<lambda>p. le_bytes (of_nat p)) ps)"

definition arg_strings :: "string list \<Rightarrow> 8 word list" where
  "arg_strings args = concat (map c_string args)"

lemma arg_lengths [simp]:
  "length (le_bytes w) = 8" "length (c_string a) = length a + 1" "length (arg_ptrs cp args) = length args"
  "length (ptr_bytes ps) = 8 * length ps" "length (arg_strings args) = args_size args"
proof -
  show "length (le_bytes w) = 8" "length (c_string a) = length a + 1" by (simp_all add: le_bytes_def c_string_def)
  show "length (arg_ptrs cp args) = length args" by (induction args arbitrary: cp) simp_all
  show "length (ptr_bytes ps) = 8 * length ps" by (induction ps) (simp_all add: ptr_bytes_def le_bytes_def)
  show "length (arg_strings args) = args_size args"
    by (induction args) (simp_all add: arg_strings_def args_size_def c_string_def)
qed

lemma load_argv_mem:
  assumes "hw_layout M" "wrote M U W \<phi> f s s1" "cpp + 8 * length args \<le> cp"
    "in_pages M (U \<inter> W) cpp (8 * length args)" "in_pages M (U \<inter> W) cp (args_size args)"
  shows "\<exists>s2. load_argv M cp cpp args s1 = Inr (s2, cpp + 8 * length args) \<and>
    wrote M U W \<phi> (patch cp (arg_strings args) (patch cpp (ptr_bytes (arg_ptrs cp args)) f)) s s2"
  using assms(2-)
proof (induction args arbitrary: cp cpp f s1)
  case Nil
  then show ?case by (simp add: arg_strings_def ptr_bytes_def)
next
  case (Cons a as)
  let ?l = "le_bytes (of_nat cp)" and ?c = "c_string a" and ?cp = "cp + length a + 1"
  let ?P = "ptr_bytes (arg_ptrs ?cp as)" and ?S = "arg_strings as"
  have sz: "args_size (a # as) = length a + 1 + args_size as" by (simp add: args_size_def)
  have "in_pages M (U \<inter> W) cpp (length ?l)" by (rule in_pages_sub [OF Cons.prems(3)]) simp_all
  from store_more [OF assms(1) Cons.prems(1) this]
  obtain u where u: "store_bytes M cpp ?l s1 = Inr u" "wrote M U W \<phi> (patch cpp ?l f) s u" by blast
  have "in_pages M (U \<inter> W) cp (length ?c)" by (rule in_pages_sub [OF Cons.prems(4)]) (simp_all add: sz)
  from store_more [OF assms(1) u(2) this]
  obtain v where v: "store_bytes M cp ?c u = Inr v" "wrote M U W \<phi> (patch cp ?c (patch cpp ?l f)) s v" by blast
  have "in_pages M (U \<inter> W) (cpp + 8) (8 * length as)" by (rule in_pages_sub [OF Cons.prems(3)]) simp_all
  moreover have "in_pages M (U \<inter> W) ?cp (args_size as)" by (rule in_pages_sub [OF Cons.prems(4)]) (simp_all add: sz)
  ultimately obtain s2 where s2: "load_argv M ?cp (cpp + 8) as v = Inr (s2, cpp + 8 + 8 * length as)"
      "wrote M U W \<phi> (patch ?cp ?S (patch (cpp + 8) ?P (patch cp ?c (patch cpp ?l f)))) s s2"
    using Cons.IH [OF v(2), of "cpp + 8" ?cp] Cons.prems(2) by auto
  have "patch (cpp + 8) ?P (patch cp ?c (patch cpp ?l f)) = patch cp ?c (patch (cpp + 8) ?P (patch cpp ?l f))"
    by (rule patch_commute) (use Cons.prems(2) in simp)
  also have "patch (cpp + 8) ?P (patch cpp ?l f) = patch cpp (?l @ ?P) f"
    using patch_append [of cpp ?l ?P f] by simp
  finally have "patch ?cp ?S (patch (cpp + 8) ?P (patch cp ?c (patch cpp ?l f))) = patch cp (?c @ ?S) (patch cpp (?l @ ?P) f)"
    using patch_append [of cp ?c ?S] by (simp add: add.assoc)
  moreover have "?c @ ?S = arg_strings (a # as)" "?l @ ?P = ptr_bytes (arg_ptrs cp (a # as))"
    by (simp_all add: arg_strings_def ptr_bytes_def)
  ultimately show ?case using u(1) v(1) s2 by (intro exI [of _ s2]) (simp add: add.assoc)
qed

definition arg_block :: "nat \<Rightarrow> string list \<Rightarrow> 8 word list" where
  "arg_block cp args = le_bytes (of_nat (length args)) @ ptr_bytes (arg_ptrs cp args) @ concat (replicate 3 (le_bytes 0))"

lemma length_arg_block [simp]: "length (arg_block cp args) = 8 * (length args + 4)"
  by (simp add: arg_block_def numeral_3_eq_3)

lemma load_args_mem:
  assumes "hw_layout M" "wrote M U W \<phi> f s s1" "unat (l_cp l) = cp" "unat (l_cpp l) = cpp" "cpp + 8 * (length args + 4) \<le> cp"
    "in_pages M (U \<inter> W) cpp (8 * (length args + 4))" "in_pages M (U \<inter> W) cp (args_size args)"
  shows "\<exists>s2. load_args M l args s1 = Inr s2 \<and>
    wrote M U W \<phi> (patch cp (arg_strings args) (patch cpp (arg_block cp args) f)) s s2"
proof -
  let ?l = "le_bytes (of_nat (length args))" and ?P = "ptr_bytes (arg_ptrs cp args)" and ?Z = "concat (replicate 3 (le_bytes 0))"
  let ?S = "arg_strings args" and ?z = "cpp + 8 + 8 * length args"
  have Z: "length ?Z = 24" by (simp add: numeral_3_eq_3)
  have "in_pages M (U \<inter> W) cpp (length ?l)" by (rule in_pages_sub [OF assms(6)]) simp_all
  from store_more [OF assms(1,2) this]
  obtain u where u: "store_bytes M cpp ?l s1 = Inr u" "wrote M U W \<phi> (patch cpp ?l f) s u" by blast
  have "in_pages M (U \<inter> W) (cpp + 8) (8 * length args)" by (rule in_pages_sub [OF assms(6)]) simp_all
  from load_argv_mem [OF assms(1) u(2) _ this assms(7)] assms(5)
  obtain v where v: "load_argv M cp (cpp + 8) args u = Inr (v, ?z)"
      "wrote M U W \<phi> (patch cp ?S (patch (cpp + 8) ?P (patch cpp ?l f))) s v" by auto
  have "in_pages M (U \<inter> W) ?z (length ?Z)" by (rule in_pages_sub [OF assms(6)]) (simp_all add: Z)
  from store_more [OF assms(1) v(2) this]
  obtain s2 where s2: "store_bytes M ?z ?Z v = Inr s2" "wrote M U W \<phi> (patch ?z ?Z (patch cp ?S (patch (cpp + 8) ?P (patch cpp ?l f)))) s s2" by blast
  have "patch ?z ?Z (patch cp ?S (patch (cpp + 8) ?P (patch cpp ?l f))) = patch cp ?S (patch ?z ?Z (patch (cpp + 8) ?P (patch cpp ?l f)))"
    by (rule patch_commute) (use assms(5) Z in simp)
  also have "patch ?z ?Z (patch (cpp + 8) ?P (patch cpp ?l f)) = patch cpp (arg_block cp args) f"
    using patch_append [of cpp ?l ?P f] patch_append [of cpp "?l @ ?P" ?Z f] by (simp add: arg_block_def add.assoc)
  finally have "patch ?z ?Z (patch cp ?S (patch (cpp + 8) ?P (patch cpp ?l f))) = patch cp ?S (patch cpp (arg_block cp args) f)" .
  with u(1) v(1) s2 show ?thesis by (simp add: load_args_def assms(3,4))
qed

section \<open>The layout as numbers\<close>

definition args_at :: "machine \<Rightarrow> string list \<Rightarrow> nat" where
  "args_at M args = USER_STACK_LIMIT M - args_size args"

definition sp_at :: "machine \<Rightarrow> string list \<Rightarrow> nat" where
  "sp_at M args = args_at M args div 16 * 16 - 8 * (length args + 4)"

lemma hw_layout_small:
  assumes "hw_layout M"
  shows "PAGESHIFT M < 31" "PAGE_TABLE_LEN M * PAGESIZE M < 2 ^ 31" "USER_STACK_LIMIT M < 2 ^ 31" "PAGESIZE M < 2 ^ 31"
    "USER_STACK_LIMIT M = (PAGE_TABLE_LEN M - KERNEL_STACK_PAGES M) * PAGESIZE M"
proof -
  have "2 * PAGE_TABLE_LEN M * PAGESIZE M < 2 ^ 31" "3 < PAGE_TABLE_LEN M" using assms unfolding hw_layout_def by metis+
  moreover have "PAGE_TABLE_LEN M * PAGESIZE M \<le> 2 * PAGE_TABLE_LEN M * PAGESIZE M" by simp
  ultimately show L: "PAGE_TABLE_LEN M * PAGESIZE M < 2 ^ 31" by linarith
  have "1 * PAGESIZE M \<le> PAGE_TABLE_LEN M * PAGESIZE M" using \<open>3 < PAGE_TABLE_LEN M\<close>
    by (intro mult_le_mono) simp_all
  with L show P: "PAGESIZE M < 2 ^ 31" by linarith
  show "PAGESHIFT M < 31" using P by (simp only: PAGESIZE_def power_strict_increasing_iff)
  show "USER_STACK_LIMIT M < 2 ^ 31" using kernel_stack_below [OF assms] assms by (simp add: hw_layout_def)
  show "USER_STACK_LIMIT M = (PAGE_TABLE_LEN M - KERNEL_STACK_PAGES M) * PAGESIZE M" using assms by (simp add: hw_layout_def)
qed

lemma unat_align: "unat (push_bit n (drop_bit n (w :: 64 word))) = unat w div 2 ^ n * 2 ^ n"
proof -
  have "unat w < 2 ^ LENGTH(64)" by (rule unsigned_less)
  then have "unat w div 2 ^ n * 2 ^ n < 2 ^ 64" 
    by (intro le_less_trans [OF div_times_less_eq_dividend]) simp
  then show ?thesis
    by (simp add: unsigned_push_bit_eq unat_drop_bit_eq drop_bit_nat_def push_bit_nat_def take_bit_nat_eq_self)
qed

lemma load_layout_eq:
  assumes hw: "hw_layout M" and sz: "unat (text_size li) < 2 ^ 31" "unat (data_size li) + unat (bss_size li) < 2 ^ 31"
    and fit: "args_size args + 8 * length args + 48 \<le> USER_STACK_LIMIT M"
  shows "unat (l_cp (load_layout M li args)) = args_at M args" "unat (l_cpp (load_layout M li args)) = sp_at M args"
    "text_npg (load_layout M li args) = int (unat (text_size li) div PAGESIZE M)"
    "data_bss_npg (load_layout M li args) = int ((unat (data_size li) + unat (bss_size li) + PAGESIZE M - 1) div PAGESIZE M)"
    "stack_npg (load_layout M li args) = int (USER_STACK_LIMIT M div PAGESIZE M - sp_at M args div PAGESIZE M)"
    "sp_at M args + 8 * (length args + 4) \<le> args_at M args"
proof -
  let ?L = "USER_STACK_LIMIT M" and ?A = "args_size args" and ?n = "length args" and ?P = "PAGESIZE M"
  let ?cp = "of_nat ?L - of_nat ?A :: 64 word"
  let ?cpp = "push_bit 4 (drop_bit 4 ?cp) - (of_nat ?n + 4) * 8 :: 64 word"
  note small = hw_layout_small [OF hw]
  have cp: "unat ?cp = args_at M args" using small(3) fit by (simp add: args_at_def unat_of_nat take_bit_nat_eq_self flip: of_nat_diff)
  have al: "8 * (?n + 4) \<le> args_at M args div 16 * 16" using fit by (simp add: args_at_def)
  have n8: "unat ((of_nat ?n + 4) * 8 :: 64 word) = 8 * (?n + 4)"
  proof -
    have "(of_nat ?n + 4) * 8 = (of_nat (8 * (?n + 4)) :: 64 word)" by simp
    moreover have "8 * (?n + 4) < 2 ^ 64" using fit small(3) by simp
    ultimately show ?thesis by (simp only: unat_of_nat mod_less len_bit0 len_num1) (simp add: take_bit_nat_eq_self)
  qed
  have cpp: "unat ?cpp = sp_at M args"
  proof -
    have "unat (push_bit 4 (drop_bit 4 ?cp)) = args_at M args div 16 * 16" by (simp only: unat_align cp) simp
    moreover from this have "(of_nat ?n + 4) * 8 \<le> push_bit 4 (drop_bit 4 ?cp)" using al by (simp only: word_le_nat_alt n8)
    ultimately show ?thesis by (simp only: unat_sub n8 sp_at_def)
  qed
  show "unat (l_cp (load_layout M li args)) = args_at M args" "unat (l_cpp (load_layout M li args)) = sp_at M args"
    by (simp_all only: load_layout_def Let_def layout.simps cp cpp)
  show "sp_at M args + 8 * (length args + 4) \<le> args_at M args" using al by (simp add: sp_at_def)
  have "unat (drop_bit (PAGESHIFT M) (text_size li)) < 2 ^ 31"
    using sz(1) unat_page [of M "text_size li"] by (simp add: le_less_trans [OF div_le_dividend])
  then show "text_npg (load_layout M li args) = int (unat (text_size li) div PAGESIZE M)"
    by (simp add: load_layout_def Let_def c_int_small unat_page)
  have db: "unat (data_size li + bss_size li) = unat (data_size li) + unat (bss_size li)"
    using sz(2) by (simp add: unat_word_ariths)
  have u: "unat (drop_bit (PAGESHIFT M) (UP_TO_PAGE M (data_size li + bss_size li))) =
      (unat (data_size li) + unat (bss_size li) + ?P - 1) div ?P"
    using unat_UP_TO_PAGE(1) [OF small(1), of "data_size li + bss_size li"] small(4) sz(2) db by simp
  have "(unat (data_size li) + unat (bss_size li) + ?P - 1) div ?P \<le> unat (data_size li) + unat (bss_size li)"
  proof (cases "unat (data_size li) + unat (bss_size li)")
    case 0
    then show ?thesis by simp
  next
    case (Suc k)
    have "(Suc k + ?P - 1) div ?P = k div ?P + 1" by (simp add: div_add_self2)
    then show ?thesis using Suc div_le_dividend [of k ?P] by simp
  qed
  with u sz(2) show "data_bss_npg (load_layout M li args) = int ((unat (data_size li) + unat (bss_size li) + ?P - 1) div ?P)"
    by (simp add: load_layout_def Let_def c_int_small)
  have "sp_at M args \<le> ?L" by (simp add: sp_at_def args_at_def)
  then have d: "DOWN_TO_PAGE M ?cpp \<le> of_nat ?L"
    using unat_DOWN_TO_PAGE_le [of M ?cpp] cpp small(3) by (simp add: word_le_nat_alt unat_of_nat take_bit_nat_eq_self)
  have "unat (DOWN_TO_PAGE M ?cpp) = sp_at M args div ?P * ?P"
    by (simp only: DOWN_TO_PAGE_def unat_align cpp PAGESIZE_def)
  with d have "unat (drop_bit (PAGESHIFT M) (of_nat ?L - DOWN_TO_PAGE M ?cpp)) = (?L - sp_at M args div ?P * ?P) div ?P"
    using small(3) by (simp add: unat_page unat_sub unat_of_nat take_bit_nat_eq_self)
  also have "\<dots> = ?L div ?P - sp_at M args div ?P"
    using small(5) by (metis PAGESIZE_pos diff_mult_distrib nonzero_mult_div_cancel_right less_not_refl2)
  finally have s: "unat (drop_bit (PAGESHIFT M) (of_nat ?L - DOWN_TO_PAGE M ?cpp)) = ?L div ?P - sp_at M args div ?P" .
  have "?L div ?P - sp_at M args div ?P < 2 ^ 31" using small(3) by (simp add: le_less_trans [OF diff_le_self] le_less_trans [OF div_le_dividend])
  with s show "stack_npg (load_layout M li args) = int (?L div ?P - sp_at M args div ?P)"
    by (simp add: load_layout_def Let_def c_int_small)
qed

section \<open>The stages of loading\<close>

definition ubyte :: "machine \<Rightarrow> kstate \<Rightarrow> nat \<Rightarrow> 8 word option" where
  "ubyte M s a = (case hw_pte M s a of Inl _ \<Rightarrow> None
     | Inr e \<Rightarrow> if valid e \<and> PROT_READ \<in> uprot e then Some (frames s (unat (pfn e)) ! (a mod PAGESIZE M)) else None)"

lemma ubyte_mem:
  assumes "hw_layout M" "upages M U W \<phi> s" "a div PAGESIZE M \<in> U"
  shows "ubyte M s a = Some (mem M \<phi> s a)"
proof -
  have i: "a div PAGESIZE M < PAGE_TABLE_LEN M" using assms(2,3) by (auto simp: upages_def)
  obtain e where e: "entry (reg_ptr0 s) s (a div PAGESIZE M) = Some e" "valid e" "unat (pfn e) = \<phi> (a div PAGESIZE M)" "PROT_READ \<in> uprot e"
    using assms(2,3) unfolding upages_def by blast
  with hw_pte_entry [OF assms(1) e(1) i] show ?thesis by (simp add: ubyte_def mem_def)
qed

lemma unat_c_pfn: "f < 2 ^ 20 \<Longrightarrow> unat (c_pfn (int f)) = f"
  by (simp add: unat_of_nat take_bit_nat_eq_self)

text \<open>A step that works on the table \<open>pt\<close> leaves the other tables alone and counts no frame twice.\<close>

definition table_step :: "ptref \<Rightarrow> kstate \<Rightarrow> kstate \<Rightarrow> bool" where
  "table_step pt s s' \<longleftrightarrow> (frames_wf s \<longrightarrow> frames_wf s' \<and> uncounted s \<le> uncounted s') \<and>
     (\<forall>t. t \<noteq> pt \<longrightarrow> hw_table s' t = hw_table s t)"

lemma flush_frame [simp]:
  "hw_table (WriteRegister (REG_TLB_FLUSH x) s) t = hw_table s t" "uncounted (WriteRegister (REG_TLB_FLUSH x) s) = uncounted s"
  "frames_wf (WriteRegister (REG_TLB_FLUSH x) s) = frames_wf s" "hw_table (s\<lparr>pcbs := h\<rparr>) t = hw_table s t"
  "uncounted (s\<lparr>pcbs := h\<rparr>) = uncounted s" "frames_wf (s\<lparr>pcbs := h\<rparr>) = frames_wf s"
  by (simp_all add: hw_table_def uncounted_def frames_wf_def free_list_def WriteRegister_def split: ptref.split)

lemma table_step_trans: "table_step pt s u \<Longrightarrow> table_step pt u s' \<Longrightarrow> table_step pt s s'"
  by (auto simp: table_step_def)

lemma table_step_fold:
  assumes "fold_res f xs s = Inr s'" "\<And>x s s'. f x s = Inr s' \<Longrightarrow> table_step pt s s'"
  shows "table_step pt s s'"
  using assms(1) by (rule fold_res_inv [where P = "table_step pt s"]) (simp add: table_step_def, blast intro: assms(2) table_step_trans)

lemma hw_table_put: "t' \<noteq> t \<Longrightarrow> hw_table (put_tbl t ps s) t' = hw_table s t'"
  by (auto simp: hw_table_def put_tbl_def split: ptref.split)

lemma table_step_wr_pte: "wr_pte pt i f s = Inr s' \<Longrightarrow> table_step pt s s'"
  by (auto simp: wr_pte_def table_step_def uncounted_def hw_table_put elim!: rbind_OkE)

lemma table_step_findFreePage:
  assumes "findFreePage s = Inr (s', f)"
  shows "table_step pt s s'"
proof -
  have "hw_table s' t = hw_table s t" for t
    using findFreePage_only [OF assms] by (auto simp: only_frames_def hw_table_def split: ptref.split elim!: ssubst)
  then show ?thesis using findFreePage_counted [OF _ assms] by (simp add: table_step_def uncounted_def)
qed

lemma table_step_setup_pte: "setup_pte pt up kp i s = Inr s' \<Longrightarrow> table_step pt s s'"
  by (auto simp: setup_pte_def elim!: rbind_OkE intro: table_step_trans table_step_findFreePage table_step_wr_pte)

lemma table_step_freePage:
  assumes "freePage f s = Inr s'"
  shows "table_step pt s s'"
proof -
  obtain n where n: "f = int n" "n < length (freePages s)"
    using assms by (auto simp: freePage_def set_freePages_def aset_Ok_iff elim!: rbind_OkE intro!: that [of "nat f"])
  then have s': "s' = s\<lparr>freePages := (freePages s)[n := PAGE_FREE], num_free_pages := num_free_pages s + 1\<rparr>"
    using freePage_Ok [OF n(2)] assms by simp
  have "uncounted s \<le> uncounted s'" "frames_wf s'" if wf: "frames_wf s"
  proof -
    show wf': "frames_wf s'" using wf s' by (simp add: frames_wf_def)
    have "length (filter (\<lambda>x. x = PAGE_FREE) ((freePages s)[n := PAGE_FREE])) \<le> Suc (length (filter (\<lambda>x. x = PAGE_FREE) (freePages s)))"
      using filter_update_count_inc [OF n(2), of "\<lambda>x. x = PAGE_FREE" PAGE_FREE]
        filter_update_count_same [OF n(2), of "\<lambda>x. x = PAGE_FREE" PAGE_FREE] by (cases "freePages s ! n = PAGE_FREE") simp_all
    then have "length (free_list s') \<le> Suc (length (free_list s))"
      unfolding length_free_list_eq [OF wf] length_free_list_eq [OF wf'] by (simp add: s')
    then show "uncounted s \<le> uncounted s'" by (simp add: uncounted_def s')
  qed
  then show ?thesis by (simp add: table_step_def s' hw_table_def split: ptref.split)
qed

lemma table_step_free_old: "load_free_old M pt s = Inr s' \<Longrightarrow> table_step pt s s'"
  unfolding load_free_old_def
  by (erule table_step_fold)
    (auto simp: free_old_page_def table_step_def [of pt s s for s] elim!: rbind_OkE split: if_splits
      intro: table_step_trans [OF table_step_freePage table_step_wr_pte])

lemma table_step_map:
  assumes "load_map M pt l s = Inr s'"
  shows "table_step pt s s'"
proof -
  obtain s0 s1 s2 s3 s4 where s: "fold_res (\<lambda>i. wr_pte pt (int i) (valid_update (\<lambda>_. False))) [0..<MEM_INVALID_PAGES M] s = Inr s0"
      "fold_res (setup_pte pt {PROT_READ, PROT_EXEC} {PROT_READ, PROT_WRITE}) (text_vpns M l) s0 = Inr s1"
      "fold_res (setup_pte pt {PROT_READ, PROT_WRITE} {PROT_READ, PROT_WRITE}) (data_vpns M l) s1 = Inr s2"
      "fold_res (setup_pte pt {PROT_READ, PROT_WRITE} {PROT_READ, PROT_WRITE}) (stack_vpns M l) s2 = Inr s3"
      "wr_pcb (curr_proc s3) (sp_update (\<lambda>_. c_ulong (int (USER_STACK_LIMIT M div PAGESIZE M) - stack_npg l))) s3 = Inr s4"
      "s' = WriteRegister (REG_TLB_FLUSH TLB_FLUSH_0) s4"
    using assms unfolding load_map_def by (auto elim!: rbind_OkE)
  have "table_step pt s s0" by (rule table_step_fold [OF s(1)]) (rule table_step_wr_pte)
  also have "table_step pt s0 s1" by (rule table_step_fold [OF s(2)]) (rule table_step_setup_pte)
  also (table_step_trans) have "table_step pt s1 s2" by (rule table_step_fold [OF s(3)]) (rule table_step_setup_pte)
  also (table_step_trans) have "table_step pt s2 s3" by (rule table_step_fold [OF s(4)]) (rule table_step_setup_pte)
  finally (table_step_trans) show ?thesis
    using wr_pcb_only [OF s(5)] s(6)
    by (auto simp: table_step_def)
qed

text \<open>What loading into the table \<open>pt\<close> leaves alone: the other tables, Region 1, and the frames outside \<open>F\<close>.\<close>

definition load_effect :: "ptref \<Rightarrow> nat set \<Rightarrow> kstate \<Rightarrow> kstate \<Rightarrow> bool" where
  "load_effect pt F s s' \<longleftrightarrow> only_mem (s\<lparr>pcbs := pcbs s'\<rparr>) s' \<and> region1Pt s' = region1Pt s \<and> frames_wf s' = frames_wf s \<and>
     uncounted s \<le> uncounted s' \<and> (\<forall>t. t \<noteq> pt \<longrightarrow> hw_table s' t = hw_table s t) \<and> (\<forall>i. length (frames s' i) = length (frames s i)) \<and> (\<forall>i. i \<notin> F \<longrightarrow> frames s' i = frames s i)"

lemma load_effect_trans: "load_effect pt F s u \<Longrightarrow> load_effect pt F u s' \<Longrightarrow> load_effect pt F s s'"
proof -
  assume a: "load_effect pt F s u" and b: "load_effect pt F u s'"
  have "only_mem (s\<lparr>pcbs := pcbs s'\<rparr>) (u\<lparr>pcbs := pcbs s'\<rparr>)" 
    by (rule only_mem_pcbs [where s = s and h = "pcbs u"]) (use a in \<open>simp add: load_effect_def\<close>)
  moreover have "only_mem (u\<lparr>pcbs := pcbs s'\<rparr>) s'" using b by (simp add: load_effect_def)
  ultimately have "only_mem (s\<lparr>pcbs := pcbs s'\<rparr>) s'" by (rule only_mem_trans)
  with a b show ?thesis by (simp add: load_effect_def)
qed

lemma load_effect_maps:
  assumes "only_maps s s'" "frames_wf s" "table_step pt s s'"
  shows "load_effect pt F s s'"
proof -
  have "only_mem s s'" by (rule only_maps_mem [OF assms(1)])
  moreover have "s\<lparr>pcbs := pcbs s'\<rparr> = s" using only_mapsD(1) [OF assms(1)] by simp
  ultimately show ?thesis using only_mapsD [OF assms(1)] assms(2,3) by (simp add: load_effect_def table_step_def)
qed

lemma load_effect_wrote:
  assumes "wrote M U W \<phi> f s s'" "\<phi> ` U \<subseteq> F"
  shows "load_effect pt F s s'" "free_list s' = free_list s" "pcbs s' = pcbs s" "entry t s' = entry t s" "tbl_len t n s' = tbl_len t n s"
proof -
  obtain g where g: "s' = s\<lparr>frames := g\<rparr>" using assms(1) by (auto simp: wrote_def)
  show "free_list s' = free_list s" "pcbs s' = pcbs s" "entry t s' = entry t s" "tbl_len t n s' = tbl_len t n s"
    by (simp_all add: g free_list_def tbl_len_def)
  have "\<forall>i. i \<notin> F \<longrightarrow> frames s' i = frames s i" using assms unfolding wrote_def by blast
  moreover have "\<forall>i. length (frames s' i) = length (frames s i)" using assms(1) unfolding wrote_def by blast
  ultimately show "load_effect pt F s s'" 
    by (simp add: load_effect_def g only_mem_def frames_wf_def uncounted_def free_list_def hw_table_def split: ptref.split)
qed

lemma load_effect_update:
  "load_effect pt F s (WriteRegister (REG_TLB_FLUSH x) s)" "load_effect pt F s (s\<lparr>pcbs := h\<rparr>)"
  by (simp_all add: load_effect_def) (simp_all add: WriteRegister_def only_mem_def)

lemma load_effect_tbl: "load_effect pt F s s' \<Longrightarrow> t \<noteq> pt \<Longrightarrow> tbl s' t = tbl s t"
  by (auto simp: load_effect_def tbl_def hw_table_def split: ptref.split dest!: spec [of _ t])

text \<open>The frame of each page of the new address space, and the pages themselves.\<close>

definition load_frame :: "nat list \<Rightarrow> nat \<Rightarrow> nat \<Rightarrow> nat \<Rightarrow> nat \<Rightarrow> nat" where
  "load_frame fl I N U i = (if i < I + N then fl ! (i - I) else fl ! (N + (U - 1 - i)))"

definition load_pages :: "nat \<Rightarrow> nat \<Rightarrow> nat \<Rightarrow> nat \<Rightarrow> nat set" where
  "load_pages I N U S = {I..<I + N} \<union> {U - S..<U}"

lemma load_frame_inj:
  assumes "distinct fl" "N + S \<le> length fl" "I + N + S \<le> U"
  shows "inj_on (load_frame fl I N U) (load_pages I N U S)"
proof (rule inj_onI)
  fix i j
  assume i: "i \<in> load_pages I N U S" and j: "j \<in> load_pages I N U S" and e: "load_frame fl I N U i = load_frame fl I N U j"
  define p where "p k = (if k < I + N then k - I else N + (U - 1 - k))" for k
  have f: "load_frame fl I N U k = fl ! p k" for k by (simp add: load_frame_def p_def)
  have "p i < length fl" "p j < length fl" using i j assms(2,3) by (auto simp: load_pages_def p_def)
  with e f assms(1) have "p i = p j" by (metis nth_eq_iff_index_eq)
  then show "i = j" using i j assms(3) by (auto simp: load_pages_def p_def split: if_splits)
qed

lemma load_map_pages:
  assumes "frames_wf s" "tbl_len pt n s" "text_npg l = int T" "data_bss_npg l = int D" "stack_npg l = int S"
    "U = USER_STACK_LIMIT M div PAGESIZE M" "I = MEM_INVALID_PAGES M" "I + T + D + S \<le> U" "U \<le> n" "n = PAGE_TABLE_LEN M"
    "T + D + S \<le> length (free_list s)" "curr_proc s = Some c" "pcbs s c = Some x"
    "reg_ptr0 s = pt" "\<forall>f<num_pages s. length (frames s f) = PAGESIZE M" "num_pages s \<le> 2 ^ 20"
  shows "\<exists>s'. load_map M pt l s = Inr s' \<and> reg_ptr0 s' = pt \<and> tbl_len pt n s' \<and> load_effect pt F s s' \<and>
    free_list s' = drop (T + D + S) (free_list s) \<and> pcbs s' = (pcbs s)(c \<mapsto> x\<lparr>sp := c_ulong (int (U - S))\<rparr>) \<and>
    (\<forall>j\<ge>U. entry pt s' j = entry pt s j) \<and>
    upages M (load_pages I (T + D) U S) UNIV (load_frame (free_list s) I (T + D) U) s'"
proof -
  let ?fl = "free_list s" and ?RW = "{PROT_READ, PROT_WRITE}"
  let ?\<phi> = "load_frame ?fl I (T + D) U"
  obtain s3 where s3: "load_map M pt l s = Inr (WriteRegister (REG_TLB_FLUSH TLB_FLUSH_0) (s3\<lparr>pcbs := (pcbs s)(c \<mapsto> x\<lparr>sp := c_ulong (int (U - S))\<rparr>)\<rparr>))"
      "only_maps s s3" "tbl_len pt n s3" "frames_wf s3" "free_list s3 = drop (T + D + S) (free_list s)"
    and e: "\<forall>j. entry pt s3 j =
       (if j < I then map_option (valid_update (\<lambda>_. False)) (entry pt s j)
        else if j < I + T then Some \<lparr>pfn = c_pfn (int (?fl ! (j - I))), uprot = {PROT_READ, PROT_EXEC}, kprot = ?RW, valid = True\<rparr>
        else if j < I + T + D then Some \<lparr>pfn = c_pfn (int (?fl ! (j - I))), uprot = ?RW, kprot = ?RW, valid = True\<rparr>
        else if U - S \<le> j \<and> j < U then Some \<lparr>pfn = c_pfn (int (?fl ! (T + D + (U - 1 - j)))), uprot = ?RW, kprot = ?RW, valid = True\<rparr>
        else entry pt s j)"
    using load_map_ok [OF assms(1-9) assms(11-13)] by blast
  let ?s = "WriteRegister (REG_TLB_FLUSH TLB_FLUSH_0) (s3\<lparr>pcbs := (pcbs s)(c \<mapsto> x\<lparr>sp := c_ulong (int (U - S))\<rparr>)\<rparr>)"
  have r: "reg_ptr0 ?s = pt" "frames ?s = frames s" using only_mapsD [OF s3(2)] assms(14) by (simp_all add: WriteRegister_def)
  have es: "entry pt ?s = entry pt s3" by simp
  have fr: "?fl ! k < num_pages s" if "k < T + D + S" for k
    using nth_mem [of k ?fl] that assms(11) by (simp add: set_free_list)
  have \<phi>: "?\<phi> i < num_pages s" if "i \<in> load_pages I (T + D) U S" for i
    using that assms(8) by (auto simp: load_pages_def load_frame_def intro!: fr)
  have p: "unat (c_pfn (int (?\<phi> i))) = ?\<phi> i" if "i \<in> load_pages I (T + D) U S" for i
    using \<phi> [OF that] assms(16) by (intro unat_c_pfn) simp
  have u: "\<exists>e. entry pt s3 i = Some e \<and> valid e \<and> unat (pfn e) = ?\<phi> i \<and> PROT_READ \<in> uprot e \<and> PROT_WRITE \<in> kprot e"
    if i: "i \<in> load_pages I (T + D) U S" for i
    using e [rule_format, of i] p [OF i] i assms(8) by (auto simp: load_pages_def load_frame_def add.assoc)
  have "upages M (load_pages I (T + D) U S) UNIV ?\<phi> ?s"
    unfolding upages_def r es
  proof (intro conjI ballI)
    show "load_pages I (T + D) U S \<subseteq> {..<PAGE_TABLE_LEN M}" using assms(8,9,10) by (auto simp: load_pages_def)
    show "inj_on ?\<phi> (load_pages I (T + D) U S)" using assms(8,11) by (intro load_frame_inj) simp_all
    show "length (frames s (?\<phi> i)) = PAGESIZE M" if "i \<in> load_pages I (T + D) U S" for i using \<phi> [OF that] assms(15) by simp
    show "\<exists>e. entry pt s3 i = Some e \<and> valid e \<and> unat (pfn e) = ?\<phi> i \<and> PROT_READ \<in> uprot e" if "i \<in> load_pages I (T + D) U S" for i
      using u [OF that] by blast
    show "\<exists>e. entry pt s3 i = Some e \<and> PROT_WRITE \<in> kprot e" if "i \<in> load_pages I (T + D) U S \<inter> UNIV" for i
      using u that by blast
  qed
  moreover have "tbl_len pt n ?s" using s3(3) by (simp add: tbl_len_def)
  moreover have "load_effect pt F s s3" 
  proof (rule load_effect_maps [OF s3(2) assms(1)])
    show "table_step pt s s3"
      using table_step_map [OF s3(1)]
      by (simp add: table_step_def)
  qed
  from load_effect_trans [OF load_effect_trans [OF this load_effect_update(2)] load_effect_update(1)]
  have "load_effect pt F s ?s" .
  moreover have "free_list ?s = drop (T + D + S) (free_list s)" "pcbs ?s = (pcbs s)(c \<mapsto> x\<lparr>sp := c_ulong (int (U - S))\<rparr>)"
    using s3(5) by simp_all
  moreover have "\<forall>j\<ge>U. entry pt ?s j = entry pt s j" using e assms(8) by auto
  ultimately show ?thesis using s3(1) r(1) by blast
qed

lemma unat_of_nat_small: "k < 2 ^ 31 \<Longrightarrow> unat (of_nat k :: 64 word) = k"
  by (simp add: unat_of_nat take_bit_nat_eq_self)

lemma in_pages_range:
  assumes "{i..<j} \<subseteq> V" "i * PAGESIZE M \<le> a" "a + n \<le> j * PAGESIZE M"
  shows "in_pages M V a n"
proof -
  have "b div PAGESIZE M \<in> V" if "a \<le> b" "b < a + n" for b
  proof -
    have "i \<le> b div PAGESIZE M" "b div PAGESIZE M < j" using that assms(2,3)
      by (simp_all add: less_eq_div_iff_mult_less_eq div_less_iff_less_mult)
    with assms(1) show ?thesis by auto
  qed
  then show ?thesis by (simp add: in_pages_def)
qed

text \<open>The contents of memory after loading: the program's bytes, zeros, the argument block and the strings.\<close>

definition loaded :: "machine \<Rightarrow> exe \<Rightarrow> string list \<Rightarrow> (nat \<Rightarrow> 8 word) \<Rightarrow> nat \<Rightarrow> 8 word" where
  "loaded M li args f =
     (let b = MEM_INVALID_PAGES M * PAGESIZE M; n = unat (text_size li) + unat (data_size li) in
      patch (args_at M args) (arg_strings args) (patch (sp_at M args) (arg_block (args_at M args) args)
        (patch (b + n) (replicate (unat (bss_size li)) 0) (patch b (take n (image li)) f))))"

lemma load_image_mem:
  assumes "hw_layout M" "upages M V UNIV \<phi> s" "n = unat (text_size li) + unat (data_size li)" "n < 2 ^ 31"
    "read_ret li (text_size li + data_size li) = int n" "n \<le> length (image li)" "{I..<I + T + D} \<subseteq> V" "n \<le> (T + D) * PAGESIZE M" "I = MEM_INVALID_PAGES M"
  shows "\<exists>s'. load_image M li s = Inr (s', True) \<and> wrote M V UNIV \<phi> (patch (I * PAGESIZE M) (take n (image li)) (mem M \<phi> s)) s s'"
proof -
  have N: "unat (text_size li + data_size li) = n" using assms(3,4) by (simp add: unat_word_ariths)
  have l: "length (take n (image li)) = n" using assms(6) by simp
  have "in_pages M (V \<inter> UNIV) (I * PAGESIZE M) (length (take n (image li)))"
    unfolding l by (rule in_pages_range [of I "I + T + D"]) (use assms(7,8) in \<open>simp_all add: algebra_simps\<close>)
  from store_more [OF assms(1) wrote_refl [OF assms(2)] this]
  obtain s' where "store_bytes M (I * PAGESIZE M) (take n (image li)) s = Inr s'"
      "wrote M V UNIV \<phi> (patch (I * PAGESIZE M) (take n (image li)) (mem M \<phi> s)) s s'" by blast
  with N assms(4,5,9) show ?thesis by (simp add: load_image_def Let_def c_int_small)
qed

lemma load_protect_mem:
  assumes "hw_layout M" "upages M V UNIV \<phi> s" "reg_ptr0 s = pt" "tbl_len pt n s" "n = PAGE_TABLE_LEN M" "I = MEM_INVALID_PAGES M"
    "text_npg l = int T" "unat (text_size li) = T * PAGESIZE M" "unat (data_size li) + unat (bss_size li) \<le> D * PAGESIZE M"
    "{I..<I + T + D} \<subseteq> V" "(I + T + D) * PAGESIZE M < 2 ^ 31" "\<phi> ` V \<subseteq> F" "frames_wf s"
  shows "\<exists>s'. load_protect M li pt l s = Inr s' \<and> load_effect pt F s s' \<and> free_list s' = free_list s \<and> pcbs s' = pcbs s \<and> tbl_len pt n s' \<and> upages M V (- {I..<I + T}) \<phi> s' \<and>
    (\<forall>a. a div PAGESIZE M \<in> V \<longrightarrow>
       mem M \<phi> s' a = patch (I * PAGESIZE M + unat (text_size li) + unat (data_size li)) (replicate (unat (bss_size li)) 0) (mem M \<phi> s) a) \<and>
    (\<forall>j. entry pt s' j = (if I \<le> j \<and> j < I + T then map_option (kprot_update (\<lambda>_. {PROT_READ, PROT_EXEC})) (entry pt s j) else entry pt s j))"
proof -
  let ?P = "PAGESIZE M" and ?b = "I * PAGESIZE M + unat (text_size li) + unat (data_size li)" and ?z = "replicate (unat (bss_size li)) (0 :: 8 word)"
  have V: "V \<subseteq> {..<n}" using assms(2,5) by (simp add: upages_def)
  have tv: "text_vpns M l = map int [I..<I + T]" using upto_upt [of I "I + T"] assms(6,7) by (simp add: text_vpns_def)
  have "{I..<I + T} \<subseteq> {I..<I + T + D}" by auto
  with V assms(10) have "set [I..<I + T] \<subseteq> {..<n}" unfolding set_upt by (meson order_trans)
  from wr_ptes [OF assms(4) distinct_upt this] obtain u where
    u: "fold_res (\<lambda>i. wr_pte pt i (kprot_update (\<lambda>_. {PROT_READ, PROT_EXEC}))) (map int [I..<I + T]) s = Inr u" "tbl_len pt n u" "only_maps s u" "free_list u = free_list s" "frames_wf u = frames_wf s"
      "\<forall>j. entry pt u j = (if j \<in> set [I..<I + T] then map_option (kprot_update (\<lambda>_. {PROT_READ, PROT_EXEC})) (entry pt s j) else entry pt s j)"
    by blast
  let ?u = "WriteRegister (REG_TLB_FLUSH TLB_FLUSH_0) u"
  have f: "reg_ptr0 ?u = pt" "frames ?u = frames s" using only_mapsD [OF u(3)] assms(3) by (simp_all add: WriteRegister_def)
  have eu: "entry pt ?u j = (if I \<le> j \<and> j < I + T then map_option (kprot_update (\<lambda>_. {PROT_READ, PROT_EXEC})) (entry pt s j) else entry pt s j)" for j
    using u(6) by simp
  have up: "upages M V (- {I..<I + T}) \<phi> ?u"
    using assms(2) unfolding upages_def f(1) f(2) assms(3) eu by fastforce
  have m: "mem M \<phi> ?u = mem M \<phi> s" by (simp add: mem_def fun_eq_iff f(2))
  have "in_pages M (V \<inter> - {I..<I + T}) ?b (length ?z)"
    by (rule in_pages_range [of "I + T" "I + T + D"]) (use assms(8-10) in \<open>auto simp: algebra_simps\<close>)
  from store_more [OF assms(1) wrote_refl [OF up] this]
  obtain s' where s': "store_bytes M ?b ?z ?u = Inr s'" "wrote M V (- {I..<I + T}) \<phi> (patch ?b ?z (mem M \<phi> s)) ?u s'" using m by auto
  have "?b < 2 ^ 31" using assms(8,9,11) by (simp add: algebra_simps)
  then have "I * ?P < 2 ^ 31" by simp
  note unat_of_nat_small = unat_of_nat_small [OF this]
  from \<open>?b < 2 ^ 31\<close> have a: "unat (of_nat (MEM_INVALID_PAGES M * ?P) + text_size li + data_size li) = ?b"
    by (simp only: unat_word_ariths(1) unat_of_nat_small assms(6) [symmetric]) simp
  note w = load_effect_wrote [OF s'(2) assms(12)]
  have "load_effect pt F s u"
    by (rule load_effect_maps [OF u(3) assms(13) table_step_fold [OF u(1)]]) (rule table_step_wr_pte)
  from load_effect_trans [OF load_effect_trans [OF this load_effect_update(1)] w(1)]
  have "load_effect pt F s s'" .
  moreover have "free_list s' = free_list s" "pcbs s' = pcbs s" "tbl_len pt n s'" "entry pt s' = entry pt ?u"
    using w(2-5) u(2,4) only_mapsD(1) [OF u(3)] by (simp_all add: tbl_len_def)
  moreover have "load_protect M li pt l s = Inr s'" by (simp only: load_protect_def Let_def tv a rbind_Ok u(1) s'(1))
  ultimately show ?thesis using s'(2) m eu by (intro exI [of _ s']) (simp add: wrote_def)
qed

text \<open>A program that can be loaded with these arguments: the file is complete, its text fills whole pages, and it
  fits into Region 0. The number of frames it needs.\<close>

definition exe_fits :: "machine \<Rightarrow> string list \<Rightarrow> exe \<Rightarrow> bool" where
  "exe_fits M args li \<longleftrightarrow>
     hw_layout M \<and> li_status li = LI_SUCCESS \<and> PAGESIZE M dvd unat (text_size li) \<and>
     unat (text_size li) + unat (data_size li) < 2 ^ 31 \<and> unat (data_size li) + unat (bss_size li) < 2 ^ 31 \<and>
     length (image li) = unat (text_size li) + unat (data_size li) \<and>
     read_ret li (text_size li + data_size li) = int (unat (text_size li) + unat (data_size li)) \<and>
     args_size args + 8 * length args + 48 \<le> USER_STACK_LIMIT M \<and> fits_virtual M (load_layout M li args)"

definition load_frames :: "layout \<Rightarrow> nat" where
  "load_frames l = nat (text_npg l + data_bss_npg l + stack_npg l)"

text \<open>Loading can succeed: there are enough frames, by the counter of free frames and by the frames that are
  free (initialisation lets the two differ), and the caller's page table is the current one.\<close>

definition can_load :: "machine \<Rightarrow> string \<Rightarrow> string list \<Rightarrow> exe \<Rightarrow> ptref \<Rightarrow> kstate \<Rightarrow> bool" where
  "can_load M name args li pt s \<longleftrightarrow>
     fs M name = Some li \<and> exe_fits M args li \<and>
     int (load_frames (load_layout M li args)) \<le> num_free_pages s \<and> load_frames (load_layout M li args) \<le> length (free_list s) \<and>
     frames_wf s \<and> num_pages s \<le> 2 ^ 20 \<and> (\<forall>f<num_pages s. length (frames s f) = PAGESIZE M) \<and>
     reg_ptr0 s = pt \<and> tbl_len pt (PAGE_TABLE_LEN M) s \<and>
     (\<forall>f\<in>owned_frames pt (PAGE_TABLE_LEN M - KERNEL_STACK_PAGES M) s. f < num_pages s) \<and>
     (\<exists>c x. curr_proc s = Some c \<and> pcbs s c = Some x)"

lemma more_free:
  assumes "num_pages s' = num_pages s" "\<forall>f. freePages s ! f = PAGE_FREE \<longrightarrow> freePages s' ! f = PAGE_FREE"
  shows "length (free_list s) \<le> length (free_list s')"
proof -
  have "set (free_list s) \<subseteq> set (free_list s')" using assms by (auto simp: set_free_list)
  then have "card (set (free_list s)) \<le> card (set (free_list s'))" by (intro card_mono) simp_all
  then show ?thesis by (simp add: distinct_card)
qed

text \<open>The pages of the text, the data and the stack.\<close>

definition user_pages :: "machine \<Rightarrow> exe \<Rightarrow> string list \<Rightarrow> nat set" where
  "user_pages M li args =
     {MEM_INVALID_PAGES M..<MEM_INVALID_PAGES M + unat (text_size li) div PAGESIZE M +
        (unat (data_size li) + unat (bss_size li) + PAGESIZE M - 1) div PAGESIZE M} \<union>
     {sp_at M args div PAGESIZE M..<USER_STACK_LIMIT M div PAGESIZE M}"

text \<open>The layout of a program that can be loaded, in pages.\<close>

lemma can_load_layout:
  assumes "can_load M name args li pt s" "I = MEM_INVALID_PAGES M" "U = USER_STACK_LIMIT M div PAGESIZE M"
  shows "\<exists>T D S. text_npg (load_layout M li args) = int T \<and> data_bss_npg (load_layout M li args) = int D \<and>
    stack_npg (load_layout M li args) = int S \<and> unat (text_size li) = T * PAGESIZE M \<and>
    unat (data_size li) + unat (bss_size li) \<le> D * PAGESIZE M \<and> U = PAGE_TABLE_LEN M - KERNEL_STACK_PAGES M \<and>
    I + T + D + S \<le> U \<and> sp_at M args div PAGESIZE M = U - S \<and> user_pages M li args = load_pages I (T + D) U S"
proof -
  let ?P = "PAGESIZE M" and ?l = "load_layout M li args"
  define T where "T = unat (text_size li) div ?P"
  define D where "D = (unat (data_size li) + unat (bss_size li) + ?P - 1) div ?P"
  define S where "S = U - sp_at M args div ?P"
  have hw: "hw_layout M" and sz: "unat (text_size li) < 2 ^ 31" "unat (data_size li) + unat (bss_size li) < 2 ^ 31"
    and fit: "args_size args + 8 * length args + 48 \<le> USER_STACK_LIMIT M" and fv: "fits_virtual M ?l" and tx: "?P dvd unat (text_size li)"
    using assms(1) unfolding can_load_def exe_fits_def by simp_all
  note L = load_layout_eq [OF hw sz fit]
  have npg: "text_npg ?l = int T" "data_bss_npg ?l = int D" "stack_npg ?l = int S"
    by (simp_all add: L T_def D_def S_def assms(3))
  have TP: "unat (text_size li) = T * ?P" using tx by (simp add: T_def)
  have DP: "unat (data_size li) + unat (bss_size li) \<le> D * ?P"
    using less_ceil_div [of ?P D "unat (data_size li) + unat (bss_size li)"] by (simp add: D_def)
  have U: "U = PAGE_TABLE_LEN M - KERNEL_STACK_PAGES M" using hw_layout_small(5) [OF hw] assms(3) by simp
  have "sp_at M args div ?P \<le> U" unfolding assms(3) by (intro div_le_mono) (simp add: sp_at_def args_at_def)
  then have US: "sp_at M args div ?P = U - S" by (simp add: S_def)
  have "user_pages M li args = load_pages I (T + D) U S"
    unfolding load_pages_def user_pages_def US T_def D_def assms(2,3) by (simp add: add.assoc)
  moreover have "I + T + D + S \<le> U" using fv U npg assms(2) by (simp add: fits_virtual_def)
  ultimately show ?thesis using npg TP DP U US by blast
qed

text \<open>The new pages, and then their contents.\<close>

lemma load_frame_in:
  assumes "i \<in> load_pages I N U S" "N + S \<le> length fl" "I + N + S \<le> U"
  shows "load_frame fl I N U i \<in> set fl"
  using assms by (auto simp: load_pages_def load_frame_def)

lemma load_space:
  assumes "can_load M name args li pt s" "curr_proc s = Some c" "pcbs s c = Some x" "base = PAGE_TABLE_LEN M - KERNEL_STACK_PAGES M"
    "F = set (free_list s) \<union> owned_frames pt base s" "l = load_layout M li args"
  shows "\<exists>s1 s2 \<phi>. load_free_old M pt s = Inr s1 \<and> load_map M pt l s1 = Inr s2 \<and>
    reg_ptr0 s2 = pt \<and> tbl_len pt (PAGE_TABLE_LEN M) s2 \<and> upages M (user_pages M li args) UNIV \<phi> s2 \<and> \<phi> ` user_pages M li args \<subseteq> F \<and>
    load_effect pt F s s2 \<and> pcbs s2 = (pcbs s)(c \<mapsto> x\<lparr>sp := c_ulong (int (sp_at M args div PAGESIZE M))\<rparr>) \<and>
    (\<forall>j\<ge>base. entry pt s2 j = entry pt s j) \<and>
    (owned_frames pt base s = {} \<longrightarrow> free_list s2 = drop (load_frames l) (free_list s))"
proof -
  let ?n = "PAGE_TABLE_LEN M"
  define I where "I = MEM_INVALID_PAGES M"
  have base: "base = USER_STACK_LIMIT M div PAGESIZE M"
    using assms(1,4) hw_layout_small(5) [of M] by (simp add: can_load_def exe_fits_def)
  have hw: "hw_layout M" and fp: "load_frames l \<le> length (free_list s)" and wf: "frames_wf s"
    and np: "num_pages s \<le> 2 ^ 20" and fl: "\<forall>f<num_pages s. length (frames s f) = PAGESIZE M" and r: "reg_ptr0 s = pt" and tl: "tbl_len pt ?n s"
    and ow: "\<forall>f\<in>owned_frames pt base s. f < num_pages s"
    using assms(1) unfolding can_load_def exe_fits_def assms(4,6) by simp_all
  obtain T D S where npg: "text_npg l = int T" "data_bss_npg l = int D" "stack_npg l = int S" and US: "sp_at M args div PAGESIZE M = base - S"
    and fitsU: "I + T + D + S \<le> base" and V: "user_pages M li args = load_pages I (T + D) base S"
    using can_load_layout [OF assms(1) I_def base] unfolding assms(6) by blast
  obtain s1 where s1: "load_free_old M pt s = Inr s1" "only_maps s s1" "tbl_len pt ?n s1" "length (freePages s1) = length (freePages s)"
      "\<forall>j. entry pt s1 j = (if j < base then map_option (valid_update (\<lambda>_. False)) (entry pt s j) else entry pt s j)"
      "\<forall>f. freePages s1 ! f = (if f \<in> owned_frames pt base s then PAGE_FREE else freePages s ! f)"
    using load_free_old_ok [OF hw tl assms(4)] ow wf unfolding frames_wf_def by auto
  note s1' = only_mapsD [OF s1(2)]
  have F: "set (free_list s1) \<subseteq> F" using s1(6) s1'(5) assms(5) by (auto simp: set_free_list split: if_splits)
  have same: "free_list s1 = free_list s" if "owned_frames pt base s = {}" using s1(6) s1'(5) that by (simp add: free_list_def)
  have "length (free_list s) \<le> length (free_list s1)" by (rule more_free [OF s1'(5)]) (simp add: s1(6))
  then have free: "T + D + S \<le> length (free_list s1)" using fp npg by (simp add: load_frames_def)
  have wf1: "frames_wf s1" using wf s1(4) s1'(5) by (simp add: frames_wf_def)
  have e1: "load_effect pt F s s1" by (rule load_effect_maps [OF s1(2) wf table_step_free_old [OF s1(1)]])
  have "base \<le> ?n" by (simp add: assms(4))
  from load_map_pages [OF wf1 s1(3) npg base I_def fitsU this refl free, of c x F] obtain s2 where
    s2: "load_map M pt l s1 = Inr s2" "reg_ptr0 s2 = pt" "tbl_len pt ?n s2" "load_effect pt F s1 s2"
      "free_list s2 = drop (T + D + S) (free_list s1)" "pcbs s2 = (pcbs s)(c \<mapsto> x\<lparr>sp := c_ulong (int (base - S))\<rparr>)"
      "\<forall>j\<ge>base. entry pt s2 j = entry pt s1 j" "upages M (user_pages M li args) UNIV (load_frame (free_list s1) I (T + D) base) s2"
    using assms(2,3) r fl np s1' unfolding V by auto
  have "load_frame (free_list s1) I (T + D) base ` user_pages M li args \<subseteq> F"
    using load_frame_in [of _ I "T + D" base S "free_list s1"] free fitsU F unfolding V by auto
  moreover have "load_frames l = T + D + S" by (simp add: npg load_frames_def)
  ultimately show ?thesis
    using s1(1,5) s2 same load_effect_trans [OF e1 s2(4)] unfolding US by (intro exI [of _ s1] exI [of _ s2]) auto
qed

lemma load_contents:
  assumes "can_load M name args li pt s0" "reg_ptr0 s = pt" "tbl_len pt (PAGE_TABLE_LEN M) s" "upages M (user_pages M li args) UNIV \<phi> s"
    "\<phi> ` user_pages M li args \<subseteq> F" "base = PAGE_TABLE_LEN M - KERNEL_STACK_PAGES M" "frames_wf s"
  shows "\<exists>s1 s2 s3. load_image M li s = Inr (s1, True) \<and> load_protect M li pt (load_layout M li args) s1 = Inr s2 \<and>
    load_args M (load_layout M li args) args s2 = Inr s3 \<and> upages M (user_pages M li args) {} \<phi> s3 \<and>
    load_effect pt F s s3 \<and> free_list s3 = free_list s \<and> pcbs s3 = pcbs s \<and> tbl_len pt (PAGE_TABLE_LEN M) s3 \<and>
    (\<forall>j\<ge>base. entry pt s3 j = entry pt s j) \<and>
    (\<forall>b. b div PAGESIZE M \<in> user_pages M li args \<longrightarrow> mem M \<phi> s3 b = loaded M li args (mem M \<phi> s) b)"
proof -
  let ?P = "PAGESIZE M" and ?n = "PAGE_TABLE_LEN M" and ?l = "load_layout M li args"
  let ?N = "unat (text_size li) + unat (data_size li)" and ?V = "user_pages M li args"
  define I where "I = MEM_INVALID_PAGES M"
  define U where "U = USER_STACK_LIMIT M div ?P"
  have hw: "hw_layout M" and fit: "args_size args + 8 * length args + 48 \<le> USER_STACK_LIMIT M"
    and sz: "?N < 2 ^ 31" "unat (data_size li) + unat (bss_size li) < 2 ^ 31"
    and im: "?N \<le> length (image li)" "read_ret li (text_size li + data_size li) = int ?N"
    using assms(1) unfolding can_load_def exe_fits_def by simp_all
  have tz: "unat (text_size li) < 2 ^ 31" using sz(1) by simp
  note L = load_layout_eq [OF hw tz sz(2) fit] and small = hw_layout_small [OF hw]
  obtain T D S where npg: "text_npg ?l = int T" and TP: "unat (text_size li) = T * ?P" and DP: "unat (data_size li) + unat (bss_size li) \<le> D * ?P"
    and Ueq: "U = ?n - KERNEL_STACK_PAGES M" and fitsU: "I + T + D + S \<le> U" and US: "sp_at M args div ?P = U - S"
    and V: "?V = load_pages I (T + D) U S"
    using can_load_layout [OF assms(1) I_def U_def] by blast
  have IV: "{I..<I + T + D} \<subseteq> ?V" "{U - S..<U} \<subseteq> ?V - {I..<I + T}" using fitsU by (auto simp: V load_pages_def)
  have "?N \<le> (T + D) * ?P" using TP DP by (simp add: algebra_simps)
  then obtain s1 where s1: "load_image M li s = Inr (s1, True)" "wrote M ?V UNIV \<phi> (patch (I * ?P) (take ?N (image li)) (mem M \<phi> s)) s s1"
    using load_image_mem [OF hw assms(4) refl sz(1) im(2,1) IV(1) _ I_def] by blast
  have r1: "reg_ptr0 s1 = pt" "tbl_len pt ?n s1" "upages M ?V UNIV \<phi> s1" using s1(2) assms(2,3) by (auto simp: wrote_def tbl_len_def)
  have wf1: "frames_wf s1" using load_effect_wrote(1) [OF s1(2) assms(5), of pt] assms(7) by (simp add: load_effect_def)
  have m1: "mem M \<phi> s1 b = patch (I * ?P) (take ?N (image li)) (mem M \<phi> s) b" if "b div ?P \<in> ?V" for b
    using s1(2) that by (simp add: wrote_def)
  have "(I + T + D) * ?P \<le> ?n * ?P" using fitsU Ueq by (intro mult_le_mono1) simp
  with small(2) have big: "(I + T + D) * ?P < 2 ^ 31" by linarith
  obtain s2 where s2: "load_protect M li pt ?l s1 = Inr s2"
      "load_effect pt F s1 s2" "free_list s2 = free_list s1" "pcbs s2 = pcbs s1" "tbl_len pt ?n s2" "upages M ?V (- {I..<I + T}) \<phi> s2"
      "\<forall>b. b div ?P \<in> ?V \<longrightarrow> mem M \<phi> s2 b = patch (I * ?P + unat (text_size li) + unat (data_size li)) (replicate (unat (bss_size li)) 0) (mem M \<phi> s1) b"
      "\<forall>j. entry pt s2 j = (if I \<le> j \<and> j < I + T then map_option (kprot_update (\<lambda>_. {PROT_READ, PROT_EXEC})) (entry pt s1 j) else entry pt s1 j)"
    using load_protect_mem [OF hw r1(3) r1(1) r1(2) refl I_def npg TP DP IV(1) big assms(5) wf1] by blast
  have W: "{U - S..<U} \<subseteq> ?V \<inter> - {I..<I + T}" using IV(2) by auto
  have lo: "(U - S) * ?P \<le> sp_at M args" by (simp flip: US)
  have hi: "args_at M args + args_size args \<le> U * ?P" using fit small(5) by (simp add: args_at_def U_def)
  have "in_pages M (?V \<inter> - {I..<I + T}) (sp_at M args) (8 * (length args + 4))"
    by (rule in_pages_range [OF W lo]) (use L(6) hi in simp)
  moreover have "in_pages M (?V \<inter> - {I..<I + T}) (args_at M args) (args_size args)"
    by (rule in_pages_range [OF W _ hi]) (use L(6) lo in simp)
  ultimately obtain s3 where s3: "load_args M ?l args s2 = Inr s3"
      "wrote M ?V (- {I..<I + T}) \<phi> (patch (args_at M args) (arg_strings args) (patch (sp_at M args) (arg_block (args_at M args) args)
        (mem M \<phi> s2))) s2 s3"
    using load_args_mem [OF hw wrote_refl [OF s2(6)] L(1) L(2) L(6)] by blast
  have "mem M \<phi> s3 b = loaded M li args (mem M \<phi> s) b" if b: "b div ?P \<in> ?V" for b
    using s3(2) s2(7) [rule_format, OF b] m1 [OF b] b by (simp add: wrote_def loaded_def Let_def I_def patch_def add.assoc)
  moreover have "upages M ?V (- {I..<I + T}) \<phi> s3" using s3(2) unfolding wrote_def by blast
  then have "upages M ?V {} \<phi> s3" by (simp add: upages_def)
  moreover
  note w1 = load_effect_wrote [OF s1(2) assms(5)] and w3 = load_effect_wrote [OF s3(2) assms(5)]
  have "load_effect pt F s s3" by (rule load_effect_trans [OF load_effect_trans [OF w1(1) s2(2)] w3(1)])
  moreover have "free_list s3 = free_list s" "pcbs s3 = pcbs s" "tbl_len pt ?n s3"
    using w1(2,3) s2(3-5) w3(2,3,5) by simp_all
  moreover have "\<forall>j\<ge>base. entry pt s3 j = entry pt s j" using w1(4) s2(8) w3(4) fitsU Ueq assms(6) by auto
  ultimately show ?thesis using s1(1) s2(1) s3(1) by blast
qed

lemma LoadProgram_ok:
  assumes "can_load M name args li pt s" "curr_proc s = Some c" "pcbs s c = Some x" "base = PAGE_TABLE_LEN M - KERNEL_STACK_PAGES M"
    "F = set (free_list s) \<union> owned_frames pt base s" "l = load_layout M li args"
  shows "\<exists>s' \<phi> f. LoadProgram M name args info pt s =
      Inr (s', info\<lparr>i_sp := of_nat (sp_at M args), i_pc := li_entry li, i_regs := replicate (NUM_REGS M) 0, i_psr := 0\<rparr>, 0) \<and>
    upages M (user_pages M li args) {} \<phi> s' \<and> (\<forall>b. b div PAGESIZE M \<in> user_pages M li args \<longrightarrow> mem M \<phi> s' b = loaded M li args f b) \<and>
    load_effect pt F s s' \<and> tbl_len pt (PAGE_TABLE_LEN M) s' \<and> (\<forall>j\<ge>base. entry pt s' j = entry pt s j) \<and>
    pcbs s' = (pcbs s)(c \<mapsto> x\<lparr>brk := c_ulong (data_bss_npg l + text_npg l + int (MEM_INVALID_PAGES M)),
      sp := c_ulong (int (sp_at M args div PAGESIZE M))\<rparr>) \<and>
    (owned_frames pt base s = {} \<longrightarrow> free_list s' = drop (load_frames l) (free_list s))"
proof -
  let ?x = "x\<lparr>brk := c_ulong (data_bss_npg l + text_npg l + int (MEM_INVALID_PAGES M))\<rparr>"
  let ?s = "s\<lparr>pcbs := (pcbs s)(c \<mapsto> ?x)\<rparr>"
  have can: "can_load M name args li pt ?s"
    using assms(1-3) by (simp add: can_load_def exe_fits_def frames_wf_def owned_frames_def tbl_len_def)
  have F: "F = set (free_list ?s) \<union> owned_frames pt base ?s" by (simp add: assms(5) owned_frames_def)
  have cx: "curr_proc ?s = Some c" "pcbs ?s c = Some ?x" using assms(2) by simp_all
  obtain s1 s2 \<phi> where s2: "load_free_old M pt ?s = Inr s1" "load_map M pt l s1 = Inr s2" "reg_ptr0 s2 = pt"
      "tbl_len pt (PAGE_TABLE_LEN M) s2" "upages M (user_pages M li args) UNIV \<phi> s2" "\<phi> ` user_pages M li args \<subseteq> F" "load_effect pt F ?s s2"
      "pcbs s2 = (pcbs ?s)(c \<mapsto> ?x\<lparr>sp := c_ulong (int (sp_at M args div PAGESIZE M))\<rparr>)" "\<forall>j\<ge>base. entry pt s2 j = entry pt ?s j"
      "owned_frames pt base ?s = {} \<longrightarrow> free_list s2 = drop (load_frames l) (free_list ?s)"
    using load_space [OF can cx assms(4) F assms(6)] by blast
  have wf: "frames_wf s2" using s2(7) can by (simp add: load_effect_def can_load_def exe_fits_def)
  obtain s3 s4 s5 where s5: "load_image M li s2 = Inr (s3, True)" "load_protect M li pt l s3 = Inr s4" "load_args M l args s4 = Inr s5"
      "upages M (user_pages M li args) {} \<phi> s5" "load_effect pt F s2 s5" "free_list s5 = free_list s2" "pcbs s5 = pcbs s2"
      "tbl_len pt (PAGE_TABLE_LEN M) s5" "\<forall>j\<ge>base. entry pt s5 j = entry pt s2 j"
      "\<forall>b. b div PAGESIZE M \<in> user_pages M li args \<longrightarrow> mem M \<phi> s5 b = loaded M li args (mem M \<phi> s2) b"
    using load_contents [OF can s2(3-6) assms(4) wf] unfolding assms(6) by blast
  have "unat (l_cpp l) = sp_at M args" unfolding assms(6) using can by (intro load_layout_eq(2)) (simp_all add: can_load_def exe_fits_def)
  moreover have "of_nat (unat (l_cpp l)) = l_cpp l" by simp
  ultimately have "l_cpp l = of_nat (sp_at M args)" by simp
  then have "load_replace M li l args info pt ?s =
      Inr (s5, info\<lparr>i_sp := of_nat (sp_at M args), i_pc := li_entry li, i_regs := replicate (NUM_REGS M) 0, i_psr := 0\<rparr>, 0)"
    using s2(1,2) s5(1-3) by (simp add: load_replace_def Let_def)
  moreover have "fits_physical l s"
    using assms(1) by (simp add: can_load_def fits_physical_def load_frames_def flip: assms(6) split: if_splits)
  then have "LoadProgram M name args info pt s = load_replace M li l args info pt ?s"
    using can assms(2,3) by (simp add: LoadProgram_def Let_def can_load_def exe_fits_def fits_physical_def assms(6))
  moreover have "load_effect pt F s s5"
    by (rule load_effect_trans [OF load_effect_trans [OF load_effect_update(2) s2(7)] s5(5)])
  moreover have "owned_frames pt base ?s = owned_frames pt base s" by (simp add: owned_frames_def)
  ultimately show ?thesis using s2(8-10) s5(4,6-10) by (intro exI [of _ s5] exI [of _ \<phi>] exI [of _ "mem M \<phi> s2"]) simp
qed

section \<open>The program that was loaded\<close>

lemma loaded_space:
  assumes "can_load M name args li pt s" "b = MEM_INVALID_PAGES M * PAGESIZE M" "k < unat (text_size li) + unat (data_size li) + unat (bss_size li)"
  shows "(b + k) div PAGESIZE M \<in> user_pages M li args" "b + k < sp_at M args"
proof -
  let ?P = "PAGESIZE M" and ?I = "MEM_INVALID_PAGES M" and ?U = "USER_STACK_LIMIT M div PAGESIZE M"
  obtain T D S where TP: "unat (text_size li) = T * ?P" and DP: "unat (data_size li) + unat (bss_size li) \<le> D * ?P"
    and fits: "?I + T + D + S \<le> ?U" and US: "sp_at M args div ?P = ?U - S"
    and V: "user_pages M li args = load_pages ?I (T + D) ?U S"
    using can_load_layout [OF assms(1) refl refl] by blast
  have "k < (T + D) * ?P" using assms(3) TP DP by (simp add: algebra_simps)
  then have lt: "b + k < (?I + T + D) * ?P" using assms(2) by (simp add: algebra_simps)
  moreover have "?I * ?P \<le> b + k" using assms(2) by simp
  ultimately have "?I \<le> (b + k) div ?P" "(b + k) div ?P < ?I + T + D"
    by (simp_all only: less_eq_div_iff_mult_less_eq div_less_iff_less_mult PAGESIZE_pos)
  then show "(b + k) div ?P \<in> user_pages M li args" by (simp add: V load_pages_def)
  have "(?I + T + D) * ?P \<le> (?U - S) * ?P" using fits by (intro mult_le_mono1) simp
  also have "\<dots> \<le> sp_at M args" by (simp flip: US)
  finally show "b + k < sp_at M args" using lt by simp
qed

lemma args_space:
  assumes "can_load M name args li pt s" "sp_at M args \<le> b" "b < USER_STACK_LIMIT M"
  shows "b div PAGESIZE M \<in> user_pages M li args"
proof -
  have hw: "hw_layout M" using assms(1) by (simp add: can_load_def exe_fits_def)
  have "b div PAGESIZE M < USER_STACK_LIMIT M div PAGESIZE M"
    using assms(3) hw_layout_small(5) [OF hw] by (simp add: div_less_iff_less_mult)
  with assms(2) show ?thesis by (simp add: user_pages_def div_le_mono)
qed

lemma sp_below:
  assumes "can_load M name args li pt s"
  shows "sp_at M args + 8 * (length args + 4) \<le> args_at M args" "args_at M args + args_size args = USER_STACK_LIMIT M"
    "USER_STACK_LIMIT M < 2 ^ 31"
proof -
  have hw: "hw_layout M" and sz: "unat (text_size li) < 2 ^ 31" "unat (data_size li) + unat (bss_size li) < 2 ^ 31"
    and fit: "args_size args + 8 * length args + 48 \<le> USER_STACK_LIMIT M" using assms by (simp_all add: can_load_def exe_fits_def)
  show "sp_at M args + 8 * (length args + 4) \<le> args_at M args" by (rule load_layout_eq(6) [OF hw sz fit])
  show "args_at M args + args_size args = USER_STACK_LIMIT M" using fit by (simp add: args_at_def)
  show "USER_STACK_LIMIT M < 2 ^ 31" by (rule hw_layout_small(3) [OF hw])
qed

lemma loaded_image:
  assumes "can_load M name args li pt s" "b = MEM_INVALID_PAGES M * PAGESIZE M" "n = unat (text_size li) + unat (data_size li)"
    "upages M (user_pages M li args) W \<phi> s'" "\<forall>a. a div PAGESIZE M \<in> user_pages M li args \<longrightarrow> mem M \<phi> s' a = loaded M li args f a"
  shows "\<forall>k<n. ubyte M s' (b + k) = Some (image li ! k)" "\<forall>k<unat (bss_size li). ubyte M s' (b + n + k) = Some 0"
proof -
  have hw: "hw_layout M" and len: "length (image li) = n" using assms(1,3) by (simp_all add: can_load_def exe_fits_def)
  have u: "ubyte M s' (b + k) = Some (if k < n then image li ! k else 0)" if k: "k < n + unat (bss_size li)" for k
  proof -
    have "(b + k) div PAGESIZE M \<in> user_pages M li args" "b + k < sp_at M args"
      using loaded_space [OF assms(1,2)] k assms(3) by simp_all
    with ubyte_mem [OF hw assms(4)] assms(5) sp_below(1) [OF assms(1)] k len show ?thesis
      by (auto simp: loaded_def Let_def patch_def simp flip: assms(2,3))
  qed
  show "\<forall>k<n. ubyte M s' (b + k) = Some (image li ! k)" using u by simp
  show "\<forall>k<unat (bss_size li). ubyte M s' (b + n + k) = Some 0" using u [of "n + k" for k] by (simp add: add.assoc)
qed

text \<open>C8: loading succeeds and the process sees the program. When everything fits, \<open>LoadProgram\<close> returns 0; the
  exception frame has the entry point, the stack pointer at the argument block, zero registers and a user-mode
  PSR; and the user reads the text and data of the file from \<open>MEM_INVALID_SIZE\<close> on, and then zeros for the bss.
  No other page table changes, and no frame but those that were free or belonged to the old program, apart from the
  frame that the table itself is kept in, which the model holds in \<open>r1_tables\<close>.\<close>

theorem LoadProgram_builds_image:
  assumes "can_load M name args li pt s" "b = MEM_INVALID_PAGES M * PAGESIZE M" "n = unat (text_size li) + unat (data_size li)"
    "F = set (free_list s) \<union> owned_frames pt (PAGE_TABLE_LEN M - KERNEL_STACK_PAGES M) s"
  shows "\<exists>s'. LoadProgram M name args info pt s =
      Inr (s', info\<lparr>i_sp := of_nat (sp_at M args), i_pc := li_entry li, i_regs := replicate (NUM_REGS M) 0, i_psr := 0\<rparr>, 0) \<and>
    (\<forall>k<n. ubyte M s' (b + k) = Some (image li ! k)) \<and> (\<forall>k<unat (bss_size li). ubyte M s' (b + n + k) = Some 0) \<and>
    (\<forall>f. f \<notin> F \<longrightarrow> frames s' f = frames s f) \<and> (\<forall>t. t \<noteq> pt \<longrightarrow> tbl s' t = tbl s t)"
proof -
  obtain c x where c: "curr_proc s = Some c" "pcbs s c = Some x" using assms(1) unfolding can_load_def by blast
  obtain s' \<phi> f where s': "LoadProgram M name args info pt s =
      Inr (s', info\<lparr>i_sp := of_nat (sp_at M args), i_pc := li_entry li, i_regs := replicate (NUM_REGS M) 0, i_psr := 0\<rparr>, 0)"
    "upages M (user_pages M li args) {} \<phi> s'" "\<forall>a. a div PAGESIZE M \<in> user_pages M li args \<longrightarrow> mem M \<phi> s' a = loaded M li args f a"
    "load_effect pt F s s'"
    using LoadProgram_ok [OF assms(1) c refl assms(4) refl, of info] by blast
  have "\<forall>f. f \<notin> F \<longrightarrow> frames s' f = frames s f" "\<forall>t. t \<noteq> pt \<longrightarrow> tbl s' t = tbl s t"
    using s'(4) load_effect_tbl [OF s'(4)] by (simp_all add: load_effect_def)
  with s'(1) loaded_image [OF assms(1-3) s'(2,3)] show ?thesis by blast
qed

section \<open>The arguments as main sees them\<close>

text \<open>A word of the user's memory, a string, and the argument vector found at the stack pointer.\<close>

definition le_word :: "8 word list \<Rightarrow> 64 word" where
  "le_word bs = foldr (\<lambda>b w. push_bit 8 w OR ucast b) bs 0"

definition user_word :: "machine \<Rightarrow> kstate \<Rightarrow> nat \<Rightarrow> 64 word option" where
  "user_word M s a = map_option le_word (those (map (\<lambda>i. ubyte M s (a + i)) [0..<8]))"

fun user_string :: "machine \<Rightarrow> kstate \<Rightarrow> nat \<Rightarrow> nat \<Rightarrow> string option" where
  "user_string M s 0 a = None"
| "user_string M s (Suc n) a = (case ubyte M s a of None \<Rightarrow> None
     | Some b \<Rightarrow> if b = 0 then Some [] else map_option (Cons (char_of (unat b))) (user_string M s n (Suc a)))"

definition user_args :: "machine \<Rightarrow> kstate \<Rightarrow> nat \<Rightarrow> string list option" where
  "user_args M s a = (case user_word M s a of None \<Rightarrow> None
     | Some argc \<Rightarrow> those (map (\<lambda>i. case user_word M s (a + 8 + 8 * i) of None \<Rightarrow> None
         | Some p \<Rightarrow> user_string M s (USER_STACK_LIMIT M) (unat p)) [0..<unat argc]))"

lemma those_map_Some: "(\<And>x. x \<in> set xs \<Longrightarrow> f x = Some (g x)) \<Longrightarrow> those (map f xs) = Some (map g xs)"
  by (induction xs) auto

lemma le_word_take: "le_word (map (\<lambda>i. ucast (drop_bit (8 * i) w)) [m..<m + d]) = take_bit (8 * d) (drop_bit (8 * m) w)"
proof (induction d arbitrary: m)
  case 0
  then show ?case by (simp add: le_word_def)
next
  case (Suc d)
  let ?l = "map (\<lambda>i. ucast (drop_bit (8 * i) w)) [Suc m..<Suc m + d] :: 8 word list"
  have "map (\<lambda>i. ucast (drop_bit (8 * i) w)) [m..<m + Suc d] = ucast (drop_bit (8 * m) w) # ?l"
    by (simp add: upt_conv_Cons del: upt_Suc)
  then have "le_word (map (\<lambda>i. ucast (drop_bit (8 * i) w)) [m..<m + Suc d]) = push_bit 8 (le_word ?l) OR ucast (ucast (drop_bit (8 * m) w) :: 8 word)"
    by (simp add: le_word_def)
  also have "le_word ?l = take_bit (8 * d) (drop_bit (8 * Suc m) w)" by (rule Suc.IH)
  also have "push_bit 8 (take_bit (8 * d) (drop_bit (8 * Suc m) w)) OR ucast (ucast (drop_bit (8 * m) w) :: 8 word) =
      take_bit (8 * Suc d) (drop_bit (8 * m) w)"
  proof (rule bit_word_eqI)
    fix n
    assume "n < LENGTH(64)"
    then show "bit (push_bit 8 (take_bit (8 * d) (drop_bit (8 * Suc m) w)) OR ucast (ucast (drop_bit (8 * m) w) :: 8 word)) n =
        bit (take_bit (8 * Suc d) (drop_bit (8 * m) w)) n"
      by (cases "n < 8") (auto simp: bit_simps)
  qed
  finally show ?case .
qed

lemma le_word_bytes: "le_word (le_bytes w) = w"
  using le_word_take [of w 0 8] by (simp add: le_bytes_def take_bit_word_eq_self)

lemma user_word_le:
  assumes "\<And>j. j < 8 \<Longrightarrow> ubyte M s (a + j) = Some (le_bytes w ! j)"
  shows "user_word M s a = Some w"
proof -
  have "those (map (\<lambda>i. ubyte M s (a + i)) [0..<8]) = Some (map (\<lambda>i. le_bytes w ! i) [0..<8])"
    by (rule those_map_Some) (use assms in simp)
  also have "map (\<lambda>i. le_bytes w ! i) [0..<8] = le_bytes w" using map_nth [of "le_bytes w"] by simp
  finally show ?thesis by (simp add: user_word_def le_word_bytes)
qed

lemma of_char_byte: "unat (of_char c :: 8 word) = of_char c"
proof -
  have "(of_char c :: 8 word) = of_nat (of_char c)" by (rule of_nat_of_char [symmetric])
  then show ?thesis by (simp only: unat_of_nat) (simp add: take_bit_nat_eq_self)
qed

lemma user_string_c:
  assumes "\<And>j. j \<le> length cs \<Longrightarrow> ubyte M s (a + j) = Some (c_string cs ! j)" "CHR 0x00 \<notin> set cs" "length cs < n"
  shows "user_string M s n a = Some cs"
  using assms
proof (induction cs arbitrary: a n)
  case Nil
  then show ?case by (cases n) (simp_all add: c_string_def)
next
  case (Cons c cs)
  obtain m where n: "n = Suc m" "length cs < m" using Cons.prems(3) by (cases n) auto
  have b: "ubyte M s a = Some (of_char c)" using Cons.prems(1) [of 0] by (simp add: c_string_def)
  have "of_char c \<noteq> (0 :: 8 word)"
  proof
    assume "of_char c = (0 :: 8 word)"
    then have "(of_char c :: nat) = 0" using of_char_byte [of c] by simp
    then have "c = CHR 0x00" using char_of_char [of c, where 'a = nat] by (simp add: char_of_def)
    with Cons.prems(2) show False by simp
  qed
  moreover have "user_string M s m (Suc a) = Some cs"
    using Cons.prems(2) n(2) Cons.prems(1) [of "Suc j" for j] by (intro Cons.IH) (simp_all add: c_string_def)
  ultimately show ?case by (simp add: n(1) b of_char_byte)
qed

lemma ptr_bytes_nth: "i < length ps \<Longrightarrow> j < 8 \<Longrightarrow> ptr_bytes ps ! (8 * i + j) = le_bytes (of_nat (ps ! i)) ! j"
proof (induction ps arbitrary: i)
  case (Cons p ps)
  then show ?case by (cases i) (simp_all add: ptr_bytes_def nth_append)
qed simp

lemma arg_block_nth:
  assumes "j < 8"
  shows "arg_block cp args ! j = le_bytes (of_nat (length args)) ! j"
    "i < length args \<Longrightarrow> arg_block cp args ! (8 + 8 * i + j) = le_bytes (of_nat (arg_ptrs cp args ! i)) ! j"
  using assms ptr_bytes_nth [of i "arg_ptrs cp args" j] by (simp_all add: arg_block_def nth_append)

lemma arg_strings_nth:
  assumes "i < length args"
  shows "cp \<le> arg_ptrs cp args ! i" "arg_ptrs cp args ! i + length (args ! i) < cp + args_size args"
    "j \<le> length (args ! i) \<Longrightarrow> arg_strings args ! (arg_ptrs cp args ! i - cp + j) = c_string (args ! i) ! j"
  using assms
proof (induction args arbitrary: i cp)
  case (Cons a as)
  { case 1 show ?case using Cons.IH(1) [of "i - 1" "cp + length a + 1"] 1 by (cases i) simp_all }
  { case 2 show ?case using Cons.IH(2) [of "i - 1" "cp + length a + 1"] 2 by (cases i) (simp_all add: args_size_def) }
  { case 3
    show ?case
    proof (cases i)
      case 0
      then show ?thesis using 3 by (simp add: arg_strings_def nth_append)
    next
      case (Suc k)
      then have k: "k < length as" using 3 by simp
      note ih = Cons.IH(1) [OF k, of "cp + length a + 1"] Cons.IH(3) [OF _ k, of "cp + length a + 1"]
      let ?o = "arg_ptrs (cp + length a + 1) as ! k - (cp + length a + 1) + j"
      have "arg_ptrs cp (a # as) ! i - cp + j = length (c_string a) + ?o" using ih(1) Suc by simp
      then show ?thesis using ih(2) 3 Suc by (simp only: arg_strings_def list.map concat.simps nth_append_length_plus) simp
    qed }
qed simp_all

lemma loaded_args:
  assumes "can_load M name args li pt s" "\<forall>a\<in>set args. CHR 0x00 \<notin> set a"
    "upages M (user_pages M li args) W \<phi> s'" "\<forall>a. a div PAGESIZE M \<in> user_pages M li args \<longrightarrow> mem M \<phi> s' a = loaded M li args f a"
  shows "user_args M s' (unat (of_nat (sp_at M args) :: 64 word)) = Some args"
proof -
  let ?sp = "sp_at M args" and ?cp = "args_at M args" and ?n = "length args"
  have hw: "hw_layout M" using assms(1) by (simp add: can_load_def exe_fits_def)
  note sp = sp_below [OF assms(1)]
  have byte: "ubyte M s' a = Some (loaded M li args f a)" if "?sp \<le> a" "a < USER_STACK_LIMIT M" for a
    using ubyte_mem [OF hw assms(3)] assms(4) args_space [OF assms(1) that] by simp
  have block: "ubyte M s' (?sp + k) = Some (arg_block ?cp args ! k)" if "k < 8 * (?n + 4)" for k
    using byte [of "?sp + k"] that sp by (simp add: loaded_def Let_def patch_def)
  have str: "ubyte M s' (?cp + k) = Some (arg_strings args ! k)" if "k < args_size args" for k
    using byte [of "?cp + k"] that sp by (simp add: loaded_def Let_def patch_def)
  have argc: "user_word M s' ?sp = Some (of_nat ?n)"
    using block arg_block_nth(1) by (intro user_word_le) simp
  have argv: "user_word M s' (?sp + 8 + 8 * i) = Some (of_nat (arg_ptrs ?cp args ! i))" if i: "i < ?n" for i
  proof (rule user_word_le)
    show "ubyte M s' (?sp + 8 + 8 * i + j) = Some (le_bytes (of_nat (arg_ptrs ?cp args ! i)) ! j)" if j: "j < 8" for j
      using block [of "8 + 8 * i + j"] arg_block_nth(2) [OF j i] i j by (simp add: add.assoc)
  qed
  have arg: "user_string M s' (USER_STACK_LIMIT M) (unat (of_nat (arg_ptrs ?cp args ! i) :: 64 word)) = Some (args ! i)" if i: "i < ?n" for i
  proof -
    let ?p = "arg_ptrs ?cp args ! i"
    note p = arg_strings_nth(1,2) [OF i, of ?cp]
    have "ubyte M s' (?p + j) = Some (c_string (args ! i) ! j)" if j: "j \<le> length (args ! i)" for j
      using str [of "?p - ?cp + j"] arg_strings_nth(3) [OF i j, of ?cp] p j by simp
    then have "user_string M s' (USER_STACK_LIMIT M) ?p = Some (args ! i)"
      using assms(2) i p sp by (intro user_string_c) simp_all
    moreover have "?p < 2 ^ 31" using p sp by simp
    ultimately show ?thesis by (simp only: unat_of_nat_small)
  qed
  have "?n < 2 ^ 31" "?sp < 2 ^ 31" using sp by simp_all
  then have "user_args M s' (unat (of_nat ?sp :: 64 word)) = Some (map (\<lambda>i. args ! i) [0..<?n])"
    by (simp only: user_args_def unat_of_nat_small argc option.case) (rule those_map_Some, simp add: argv arg)
  then show ?thesis by (simp add: map_nth)
qed

text \<open>C9: the arguments survive the copy. When a program has been loaded, what its \<open>main\<close> finds
  through the stack pointer - \<open>argc\<close>, the pointers of \<open>argv\<close>, and the strings up to their zero
  bytes - is the argument list that was given to \<open>LoadProgram\<close>.\<close>

theorem LoadProgram_args_roundtrip:
  assumes "can_load M name args li pt s" "\<forall>a\<in>set args. CHR 0x00 \<notin> set a"
  shows "\<exists>s' info'. LoadProgram M name args info pt s = Inr (s', info', 0) \<and> user_args M s' (unat (i_sp info')) = Some args"
proof -
  obtain c x where c: "curr_proc s = Some c" "pcbs s c = Some x" using assms(1) unfolding can_load_def by blast
  obtain s' \<phi> f where s': "LoadProgram M name args info pt s =
      Inr (s', info\<lparr>i_sp := of_nat (sp_at M args), i_pc := li_entry li, i_regs := replicate (NUM_REGS M) 0, i_psr := 0\<rparr>, 0)"
    "upages M (user_pages M li args) {} \<phi> s'" "\<forall>a. a div PAGESIZE M \<in> user_pages M li args \<longrightarrow> mem M \<phi> s' a = loaded M li args f a"
    using LoadProgram_ok [OF assms(1) c refl refl refl, of info] by blast
  show ?thesis using s'(1) loaded_args [OF assms s'(2,3)] by simp
qed

section \<open>Loading on the small machine\<close>

definition demo_load :: kstate where
  "demo_load = demo_brk\<lparr>reg_ptr0 := PT_region0Pt\<rparr>"

lemma demo_can_load: "can_load tiny ''init'' [''init'', ''a''] tiny_exe PT_region0Pt demo_load"
proof -
  have P: "PAGESIZE tiny = 64" and U: "USER_STACK_LIMIT tiny = 384" and A: "args_size [''init'', ''a''] = 7"
    by (simp_all add: tiny_def PAGESIZE_def args_size_def)
  have sp: "sp_at tiny [''init'', ''a''] = 320" by (simp add: sp_at_def args_at_def U A)
  have "unat (text_size tiny_exe) = 64" "unat (data_size tiny_exe) = 8" "unat (bss_size tiny_exe) = 4" by (simp_all add: tiny_exe_def)
  moreover from this have "text_npg (load_layout tiny tiny_exe [''init'', ''a'']) = 1" "data_bss_npg (load_layout tiny tiny_exe [''init'', ''a'']) = 1"
      "stack_npg (load_layout tiny tiny_exe [''init'', ''a'']) = 1"
    by (subst load_layout_eq [OF hw_layout_tiny], simp_all add: A U P sp)+
  moreover have "owned_frames PT_region0Pt 6 demo_load = {}" "tbl_len PT_region0Pt 8 demo_load"
    by (auto simp: owned_frames_def region0Pt_entry region0Pt_len demo_load_def demo_brk_def blank_def zero_pte_def)
  ultimately show ?thesis
    using hw_layout_tiny demo_brk_frames
    by (simp add: can_load_def exe_fits_def A U P fits_virtual_def load_frames_def)
      (simp add: tiny_def tiny_exe_def demo_load_def demo_brk_def blank_def frames_wf_def free_list_def)
qed

theorem LoadProgram_builds_image_witness:
  "\<exists>s' info'. LoadProgram tiny ''init'' [''init'', ''a''] zero_info PT_region0Pt demo_load = Inr (s', info', 0) \<and>
     i_pc info' = 64 \<and> i_sp info' = 320 \<and> ubyte tiny s' 64 = Some 7 \<and> ubyte tiny s' 135 = Some 7 \<and> ubyte tiny s' 136 = Some 0"
proof -
  have m: "64 = MEM_INVALID_PAGES tiny * PAGESIZE tiny" "72 = unat (text_size tiny_exe) + unat (data_size tiny_exe)"
    "unat (bss_size tiny_exe) = 4" "image tiny_exe = replicate 72 7" "li_entry tiny_exe = 64" "sp_at tiny [''init'', ''a''] = 320"
    by (simp_all add: tiny_def tiny_exe_def PAGESIZE_def sp_at_def args_at_def args_size_def)
  from LoadProgram_builds_image [OF demo_can_load m(1,2) refl, of zero_info] obtain s' where
    s': "LoadProgram tiny ''init'' [''init'', ''a''] zero_info PT_region0Pt demo_load =
      Inr (s', zero_info\<lparr>i_sp := 320, i_pc := 64, i_regs := replicate (NUM_REGS tiny) 0, i_psr := 0\<rparr>, 0)"
    "\<forall>k<72. ubyte tiny s' (64 + k) = Some 7" "\<forall>k<4. ubyte tiny s' (64 + 72 + k) = Some 0"
    by (auto simp: m(3-6))
  show ?thesis using s'(1) s'(2) [rule_format, of 0] s'(2) [rule_format, of 71] s'(3) [rule_format, of 0] by simp
qed

theorem LoadProgram_args_roundtrip_witness:
  "\<exists>s' info'. LoadProgram tiny ''init'' [''init'', ''a''] zero_info PT_region0Pt demo_load = Inr (s', info', 0) \<and>
     user_args tiny s' (unat (i_sp info')) = Some [''init'', ''a'']"
  by (rule LoadProgram_args_roundtrip [OF demo_can_load]) simp

end
