(* ===== verification/Fork.thy ===== *)
theory Fork
  imports Traps
begin

text \<open>
  A fork from the kernel call to user mode: \<open>TrapKernelHandler\<close>, \<open>ForkFunc\<close> (src/fork.c), \<open>ContextSwitch\<close>
  with \<open>SwitchFork\<close> (src/contextswitch.c), and the return of both processes.
\<close>

section \<open>From \<open>Fork\<close> to the child\<close>

lemma BorrowR1Page_cong:
  assumes "map valid (region1Pt t) = map valid (region1Pt s)"
  shows "BorrowR1Page M t = BorrowR1Page M s"
proof -
  have l: "length (region1Pt t) = length (region1Pt s)" using arg_cong [OF assms, of length] by simp
  have v: "i < length (region1Pt s) \<Longrightarrow> valid (region1Pt t ! i) = valid (region1Pt s ! i)" for i
    using arg_cong [OF assms, of "\<lambda>vs. vs ! i"] l by simp
  have "BorrowR1Page_loop M vs t = BorrowR1Page_loop M vs s" for vs
  proof (induction vs)
    case (Cons a vs)
    let ?p = "int (a div PAGESIZE M) - int (PAGE_TABLE_LEN M)"
    show ?case
    proof (cases "0 \<le> ?p \<and> nat ?p < length (region1Pt s)")
      case True
      then show ?thesis using Cons v [of "nat ?p"] l by (simp add: Let_def rd_r1_def aget_def)
    next
      case False
      then show ?thesis using l by (auto simp: Let_def rd_r1_def aget_def)
    qed
  qed simp
  then show ?thesis by (simp add: BorrowR1Page_def)
qed

lemma fork_made_ready:
  assumes "fork_made M v fl n s f" "n = heap_top s" "ready_repr s qs" "curr_proc s = Some c" "pcbs f n \<noteq> None"
    "pcbs f c = Some z"
  shows "ready_repr (f\<lparr>pcbs := (pcbs f)(c \<mapsto> w)\<rparr>) qs"
proof -
  have om: "only_mem (s\<lparr>pcbs := pcbs f, heap_top := Suc n, next_proc_id := int_inc (next_proc_id s)\<rparr>) f"
    and b: "\<And>d. d \<noteq> n \<Longrightarrow> map_option bare (pcbs f d) = map_option bare (pcbs s d)"
    using assms(1) by (simp_all add: fork_made_def)
  have v: "items f = items s" "exiteds f = exiteds s" "lines f = lines s" "heap_top f = Suc n" "queue_head f = queue_head s"
      "queue_tail f = queue_tail s" "queue_size f = queue_size s" "curr_proc f = Some c"
    using only_memD [OF om] assms(4) by simp_all
  have "pcbs f d = None" if "Suc n \<le> d" for d
  proof -
    have "pcbs s d = None" using that assms(2,3) by (simp add: ready_repr_def heap_wf_def)
    with b [of d] that show ?thesis by simp
  qed
  moreover have "c < Suc n" using assms(6) calculation by (metis not_less option.distinct(1))
  ultimately have "heap_wf (f\<lparr>pcbs := (pcbs f)(c \<mapsto> w)\<rparr>)"
    using assms(2,3) v by (auto simp: ready_repr_def heap_wf_def)
  moreover have "is_pcb (f\<lparr>pcbs := (pcbs f)(c \<mapsto> w)\<rparr>) p" if ip: "is_pcb s p" for p
  proof -
    obtain d y where d: "p = Some d" "pcbs s d = Some y" by (rule is_pcbE [OF ip])
    then have "pcbs f d \<noteq> None" using b [of d] assms(5) by (cases "d = n") auto
    with d show ?thesis by (auto simp: is_pcb_def)
  qed
  ultimately show ?thesis
    by (intro ready_repr_moved [OF assms(3)]) (use v in \<open>simp_all add: is_pcb_def\<close>)
qed

text \<open>What a fork needs: a mapped parent, two pages of Region 1, and frames for two kernel stacks and one
  address space.\<close>

definition fork_ready :: "machine \<Rightarrow> nat \<Rightarrow> pcb \<Rightarrow> pte list \<Rightarrow> nat \<Rightarrow> nat \<Rightarrow> kstate \<Rightarrow> bool" where
  "fork_ready M c x ps v k s \<longleftrightarrow> hw_layout M \<and> frames_wf s \<and> num_pages s \<le> 2 ^ 20 \<and>
     curr_proc s = Some c \<and> pcbs s c = Some x \<and> process_id x \<noteq> next_proc_id s \<and>
     reg_ptr0 s = region0 x \<and> tbl s (region0 x) = Inr ps \<and> length ps = PAGE_TABLE_LEN M \<and>
     length (region1Pt s) = PAGE_TABLE_LEN M \<and> length (r1_tables s v) = PAGE_TABLE_LEN M \<and>
     (\<exists>s1. findFreeVirtualPage M s = Inr (s1, int v)) \<and> k + PAGE_TABLE_LEN M < length (freePages s) \<and>
     BorrowR1Page M (s\<lparr>region1Pt := (region1Pt s)[v := (region1Pt s ! v)\<lparr>valid := True\<rparr>]\<rparr>) = Inr (int k) \<and>
     (\<forall>e\<in>set ps. valid e \<longrightarrow> PROT_READ \<in> kprot e \<and> unat (pfn e) \<notin> set (free_list s)) \<and>
     KERNEL_STACK_PAGES M + length (filter valid ps) \<le> length (removeAll (v + PAGE_TABLE_LEN M) (free_list s))"

lemma Fork_to_child:
  assumes "fork_ready M c x ps v k s" "child_q s c cs" "ready_repr s qs" "n = heap_top s"
  shows "\<exists>f s' cs' y z. ForkFunc M info s = Inr (f, Call_ContextSwitch SWITCH_FORK (Some c) (Some n) (K_ForkFunc info (Some n))) \<and>
    kstep M (f, Call_ContextSwitch SWITCH_FORK (Some c) (Some n) (K_ForkFunc info (Some n))) = Inr (s', Ret (set_result 0 info)) \<and>
    curr_proc s' = Some n \<and> reg_ptr0 s' = PT_R1 v \<and> ready_repr s' (qs @ [Some c]) \<and>
    pcbs s' n = Some y \<and> process_id y = next_proc_id s \<and> brk y = brk x \<and> sp y = sp x \<and>
    pcbs s' c = Some z \<and> bare z = bare (x\<lparr>ctx := K_ForkFunc info (Some n)\<rparr>) \<and>
    tbl s' (region0 x) = Inr ps \<and> tbl s' (PT_R1 v) = Inr cs' \<and> length cs' = PAGE_TABLE_LEN M \<and>
    k \<noteq> v \<and> set (free_list s') \<subseteq> insert (k + PAGE_TABLE_LEN M) (set (free_list s) - {v + PAGE_TABLE_LEN M}) \<and>
    (\<forall>g. g \<notin> set (free_list s) \<longrightarrow> frames s' g = frames s g) \<and>
    (\<forall>i<PAGE_TABLE_LEN M. valid (cs' ! i) = valid (ps ! i) \<and> (valid (ps ! i) \<longrightarrow>
       uprot (cs' ! i) = uprot (ps ! i) \<and> kprot (cs' ! i) = kprot (ps ! i) \<and>
       unat (pfn (cs' ! i)) \<in> set (free_list s) - {v + PAGE_TABLE_LEN M} \<and>
       (unat (pfn (cs' ! i)) \<in> set (free_list s') \<longrightarrow> unat (pfn (cs' ! i)) = k + PAGE_TABLE_LEN M) \<and>
       frames s' (unat (pfn (cs' ! i))) = frames s (unat (pfn (ps ! i)))))"
proof -
  let ?L = "PAGE_TABLE_LEN M" and ?K = "K_ForkFunc info (Some n)"
  define fl where "fl = removeAll (v + ?L) (free_list s)"
  have M: "hw_layout M" "frames_wf s" "num_pages s \<le> 2 ^ 20" "curr_proc s = Some c" "pcbs s c = Some x" "process_id x \<noteq> next_proc_id s"
    "reg_ptr0 s = region0 x" "tbl s (region0 x) = Inr ps" "length ps = ?L" "length (region1Pt s) = ?L" "length (r1_tables s v) = ?L"
    "k + ?L < length (freePages s)"
    "BorrowR1Page M (s\<lparr>region1Pt := (region1Pt s)[v := (region1Pt s ! v)\<lparr>valid := True\<rparr>]\<rparr>) = Inr (int k)"
    "\<forall>e\<in>set ps. valid e \<longrightarrow> PROT_READ \<in> kprot e \<and> unat (pfn e) \<notin> set (free_list s)"
    "KERNEL_STACK_PAGES M + length (filter valid ps) \<le> length fl"
    using assms(1) by (simp_all add: fork_ready_def fl_def)
  obtain s1 where v: "findFreeVirtualPage M s = Inr (s1, int v)" using assms(1) by (auto simp: fork_ready_def)
  have wf: "heap_wf s" using assms(3) by (simp add: ready_repr_def)
  have "KERNEL_STACK_PAGES M \<le> length fl" using M(15) by simp
  from ForkFunc_made [OF M(1) wf M(4,5) assms(2) M(2) v M(10,11) fl_def this refl assms(4), of info]
  obtain f y where f: "ForkFunc M info s = Inr (f, Call_ContextSwitch SWITCH_FORK (Some c) (Some n) ?K)"
      "pcbs f n = Some y" "process_id y = next_proc_id s" "brk y = brk x" "sp y = sp x" "region0 y = PT_R1 v" "free_vpn y = of_nat v"
      "fork_made M v fl n s f" by blast
  have m: "frames_wf f" "free_list f = drop (KERNEL_STACK_PAGES M) fl" "tbl_len (PT_R1 v) ?L f" "frames f = frames s"
      "length (freePages f) = length (freePages s)" "v < ?L" "\<not> valid (region1Pt s ! v)" "tbl f (region0 x) = Inr ps"
    using f(8) M(8) by (simp_all add: fork_made_def)
  obtain e where e: "valid e" "region1Pt f = (region1Pt s)[v := e]" using f(8) by (auto simp: fork_made_def)
  have om: "only_mem (s\<lparr>pcbs := pcbs f, heap_top := Suc n, next_proc_id := int_inc (next_proc_id s)\<rparr>) f"
    using f(8) by (simp add: fork_made_def)
  have o: "curr_proc f = Some c" "reg_ptr0 f = region0 x" "num_pages f = num_pages s"
    using only_memD [OF om] M(4,7) by simp_all
  have cn: "c \<noteq> n" using wf assms(4) M(5) by (auto simp: heap_wf_def)
  then have "map_option bare (pcbs f c) = Some (bare x)" using f(8) M(5) by (simp add: fork_made_def)
  then obtain x' where x': "pcbs f c = Some x'" "bare x' = bare x" by auto
  let ?x = "x'\<lparr>ctx := ?K\<rparr>"
  let ?g = "f\<lparr>pcbs := (pcbs f)(c \<mapsto> ?x)\<rparr>"
  have rx: "region0 ?x = region0 x" using bare_fields [OF x'(2)] by simp
  have "PT_R1 v \<noteq> region0 x" using M(8) m(7) by (auto simp: tbl_def split: ptref.splits if_splits)
  then have ne: "region0 y \<noteq> region0 ?x" using f(6) rx by simp
  obtain cs0 where cs0: "tbl f (PT_R1 v) = Inr cs0" "length cs0 = ?L" using m(3) by (auto simp: tbl_len_def)
  have "map valid (region1Pt ?g) = map valid (region1Pt (s\<lparr>region1Pt := (region1Pt s)[v := (region1Pt s ! v)\<lparr>valid := True\<rparr>]\<rparr>))"
    using e by (simp add: map_update)
  from BorrowR1Page_cong [OF this] have b: "BorrowR1Page M ?g = Inr (int k)" using M(13) by simp
  have fl: "free_list ?g = drop (KERNEL_STACK_PAGES M) fl" using m(2) by simp
  have sub: "set (free_list ?g) \<subseteq> set (free_list s) - {v + ?L}" unfolding fl by (auto simp: fl_def dest: in_set_dropD)
  have "k \<noteq> v"
    using BorrowR1Page_Ok(3) [OF M(13,1)] m(6) M(10) by auto
  have us: "\<forall>e\<in>set ps. valid e \<longrightarrow> PROT_READ \<in> kprot e \<and> unat (pfn e) \<notin> set (free_list ?g)" using M(14) sub by blast
  have "pcbs f n \<noteq> None" using f(2) by simp
  note rd = fork_made_ready [OF f(8) assms(4,3) M(4) this x'(1), of ?x]
  have g: "pcbs ?g c = Some ?x" "pcbs ?g n = Some y" "reg_ptr0 ?g = region0 ?x" "tbl ?g (region0 ?x) = Inr ps" "tbl ?g (region0 y) = Inr cs0"
      "length (region1Pt ?g) = ?L" "k + ?L < length (freePages ?g)" "frames_wf ?g" "num_pages ?g \<le> 2 ^ 20"
      "length (filter valid ps) \<le> length (free_list ?g)"
    using f(2,6) cn o rx m cs0 e(2) M fl by (simp_all add: frames_wf_def)
  obtain s' cs' where s': "SwitchFork M (Some c) (Some n) ?g = Inr (s', Some n)" "curr_proc s' = Some n"
      "reg_ptr0 s' = PT_R1 (unat (free_vpn y))" "pcbs s' = (pcbs ?g)(n \<mapsto> y\<lparr>ctx := ctx ?x\<rparr>)" "ready_repr s' (qs @ [Some c])"
      "tbl s' (region0 ?x) = Inr ps" "tbl s' (region0 y) = Inr cs'" "length cs' = ?L"
      "set (free_list s') \<subseteq> insert (k + ?L) (set (drop (length (filter valid ps)) (free_list ?g)))"
      "\<forall>h. h \<notin> set (free_list ?g) \<longrightarrow> frames s' h = frames ?g h"
    and pages: "\<forall>i<?L. valid (cs' ! i) = valid (ps ! i) \<and> (valid (ps ! i) \<longrightarrow>
       uprot (cs' ! i) = uprot (ps ! i) \<and> kprot (cs' ! i) = kprot (ps ! i) \<and>
       unat (pfn (cs' ! i)) = free_list ?g ! rank ps i \<and> frames s' (unat (pfn (cs' ! i))) = frames ?g (unat (pfn (ps ! i))))"
    using SwitchFork_ok [OF M(1) g(1,2) ne g(3-5) M(9) cs0(2) g(6) b g(7-10) us rd] by blast
  have fg: "frames ?g = frames s" using m(4) by simp
  have "?L < 2 ^ 20" using M(1) by (simp add: hw_layout_def)
  then have fv: "unat (free_vpn y) = v" using f(7) m(6) by (simp add: unat_of_nat take_bit_nat_eq_self)
  have child: "unat (pfn (cs' ! i)) \<in> set (free_list s) - {v + ?L} \<and> (unat (pfn (cs' ! i)) \<in> set (free_list s') \<longrightarrow> unat (pfn (cs' ! i)) = k + ?L)"
    if "i < ?L" "valid (ps ! i)" for i
  proof -
    have r: "rank ps i < length (filter valid ps)" using rank_less [of i ?L ps] that M(9) by (simp add: rank_def)
    then have lt: "rank ps i < length (free_list ?g)" using g(10) by simp
    have eq: "unat (pfn (cs' ! i)) = free_list ?g ! rank ps i" using pages that by blast
    have "free_list ?g ! rank ps i \<notin> set (drop (length (filter valid ps)) (free_list ?g))"
    proof
      assume "free_list ?g ! rank ps i \<in> set (drop (length (filter valid ps)) (free_list ?g))"
      then obtain j where "j < length (free_list ?g) - length (filter valid ps)"
          "free_list ?g ! (length (filter valid ps) + j) = free_list ?g ! rank ps i" by (auto simp: in_set_conv_nth)
      with distinct_free_list [of ?g] lt r show False by (auto simp: nth_eq_iff_index_eq)
    qed
    moreover have "free_list ?g ! rank ps i \<in> set (free_list s) - {v + ?L}" using sub lt by (meson nth_mem subsetD)
    ultimately show ?thesis using s'(9) eq by auto
  qed
  have "set (free_list s') \<subseteq> insert (k + ?L) (set (free_list s) - {v + ?L})" using s'(9) sub by (auto dest: in_set_dropD)
  moreover note \<open>k \<noteq> v\<close>
  moreover have "\<forall>g. g \<notin> set (free_list s) \<longrightarrow> frames s' g = frames s g" using s'(10) sub m(4) by auto
  moreover have "kstep M (f, Call_ContextSwitch SWITCH_FORK (Some c) (Some n) ?K) = Inr (s', Ret (set_result 0 info))"
    using x'(1) s'(1,2,4) by (simp add: kstep_def ContextSwitch_def ForkFunc_resume_def)
  moreover have "pcbs s' c = Some ?x" "bare ?x = bare (x\<lparr>ctx := ?K\<rparr>)"
    using s'(4) cn x'(2) by (simp_all add: bare_ctx)
  moreover have "pcbs s' n = Some (y\<lparr>ctx := ?K\<rparr>)" using s'(4) by simp
  moreover have "\<forall>i<?L. valid (cs' ! i) = valid (ps ! i) \<and> (valid (ps ! i) \<longrightarrow>
       uprot (cs' ! i) = uprot (ps ! i) \<and> kprot (cs' ! i) = kprot (ps ! i) \<and>
       unat (pfn (cs' ! i)) \<in> set (free_list s) - {v + ?L} \<and> (unat (pfn (cs' ! i)) \<in> set (free_list s') \<longrightarrow> unat (pfn (cs' ! i)) = k + ?L) \<and>
       frames s' (unat (pfn (cs' ! i))) = frames s (unat (pfn (ps ! i))))"
    using pages [unfolded fg] child by blast
  ultimately show ?thesis using f(1,3-5) s'(2,3,5,6,7,8) f(6) rx fv
    by (intro exI [of _ f] exI [of _ s'] exI [of _ cs'] exI [of _ "y\<lparr>ctx := ?K\<rparr>"] exI [of _ ?x]) simp
qed

text \<open>C3: from the kernel call to user mode. When the resources of a fork are there, the call creates a
  process, switches to it and leaves the kernel in the child, which sees the result 0; the parent
  is last in the ready queue, and whenever it runs again it leaves the kernel with the id of the
  child as its result.\<close>

theorem Fork_enters_child:
  assumes "fork_ready M c x ps v k s" "child_q s c cs" "ready_repr s qs" "i_code info = YALNIX_FORK"
  shows "\<exists>s1 fl s' n z. TrapKernelHandler M cstr cstrs info s = Inr (s1, fl) \<and>
    kruns M s1 fl s' (Ret (set_result 0 info)) \<and> curr_proc s' = Some n \<and> pcbs s n = None \<and> reg_ptr0 s' = PT_R1 v \<and>
    pid_of s' (Some n) = Some (next_proc_id s) \<and> ready_repr s' (qs @ [Some c]) \<and> pcbs s' c = Some z \<and>
    (\<forall>t. curr_proc t = Some c \<longrightarrow> pid_of t (Some c) = Some (process_id x) \<longrightarrow> pid_of t (Some n) = Some (next_proc_id s) \<longrightarrow>
       resume M (ctx z) t = Inr (t, Ret (set_result (next_proc_id s) info)))"
proof -
  let ?n = "heap_top s"
  obtain f s' y z where f: "ForkFunc M info s = Inr (f, Call_ContextSwitch SWITCH_FORK (Some c) (Some ?n) (K_ForkFunc info (Some ?n)))"
      "kstep M (f, Call_ContextSwitch SWITCH_FORK (Some c) (Some ?n) (K_ForkFunc info (Some ?n))) = Inr (s', Ret (set_result 0 info))"
      "curr_proc s' = Some ?n" "reg_ptr0 s' = PT_R1 v" "ready_repr s' (qs @ [Some c])" "pcbs s' ?n = Some y"
      "process_id y = next_proc_id s" "pcbs s' c = Some z" "bare z = bare (x\<lparr>ctx := K_ForkFunc info (Some ?n)\<rparr>)"
    using Fork_to_child [OF assms(1-3) refl, of info] by blast
  have "ctx z = K_ForkFunc info (Some ?n)" using bare_fields(9) [OF f(9)] by simp
  moreover have "process_id x \<noteq> next_proc_id s" using assms(1) by (simp add: fork_ready_def)
  moreover have "pcbs s ?n = None" using assms(3) by (simp add: ready_repr_def heap_wf_def)
  ultimately show ?thesis
    using f assms(4) kruns_kstep [OF f(2) kruns_leave]
    by (intro exI [of _ f] exI [of _ "Call_ContextSwitch SWITCH_FORK (Some c) (Some ?n) (K_ForkFunc info (Some ?n))"]
        exI [of _ s'] exI [of _ ?n] exI [of _ z])
      (auto simp: TrapKernelHandler_def delivered_def ForkFunc_resume_def pid_of_simps)
qed


definition demo_parent :: kstate where
  "demo_parent = demo_fork\<lparr>next_proc_id := 3, freePages := (freePages demo_fork)[13 := PAGE_USED]\<rparr>"

lemma demo_parent_ready:
  "fork_ready tiny 2 (zero_pcb\<lparr>region0 := PT_region0Pt\<rparr>) ((replicate 8 zero_pte)[3 := r0_initial 9]) 4 0 demo_parent"
  "child_q demo_parent 2 []" "ready_repr demo_parent []" "free_list demo_parent = [0, 1, 2, 3, 4, 5, 6, 7, 8, 10, 11, 12, 14, 15]"
proof -
  let ?x = "zero_pcb\<lparr>region0 := PT_region0Pt\<rparr>" and ?ps = "(replicate 8 zero_pte)[3 := r0_initial 9]"
  have L: "PAGE_TABLE_LEN tiny = 8" "KERNEL_STACK_PAGES tiny = 2" "PAGESIZE tiny = 64" "VMEM_1_LIMIT tiny = 1024" "kbrk_addr tiny = 600"
     "VMEM_1_BASE tiny = 512"
    by (simp_all add: tiny_def PAGESIZE_def)
  have "free_list demo_parent = removeAll 13 (free_list demo_fork)"
    using free_list_reserved [of 13 demo_fork] demo_fork_facts(1) by (simp add: demo_parent_def free_list_def demo_fork_def)
  then show fl: "free_list demo_parent = [0, 1, 2, 3, 4, 5, 6, 7, 8, 10, 11, 12, 14, 15]"
    by (simp add: demo_fork_facts(2) upt_conv_Cons)
  have v: "valid (r0_initial 9)" "PROT_READ \<in> kprot (r0_initial 9)" "unat (pfn (r0_initial 9)) = 9" "\<not> valid zero_pte"
    by (simp_all add: r0_initial_def zero_pte_def)
  have d: "curr_proc demo_parent = Some 2" "pcbs demo_parent 2 = Some ?x" "reg_ptr0 demo_parent = PT_region0Pt" "next_proc_id demo_parent = 3"
    "tbl demo_parent PT_region0Pt = Inr ?ps" "length (r1_tables demo_parent 4) = 8" "num_pages demo_parent = 16"
    "length (freePages demo_parent) = 16" "region1Pt demo_parent = (replicate 8 zero_pte)[5 := r0_initial 13]"
    by (simp_all add: demo_parent_def demo_fork_def demo_def blank_def tbl_def)
  have "down_addrs 64 832 600 = 832 # down_addrs 64 768 600" "down_addrs 64 768 600 = 768 # down_addrs 64 704 600"
    using down_addrs.simps [of 64 832 600] down_addrs.simps [of 64 768 600] by simp_all
  moreover have "rd_r1 demo_parent 5 = Inr (r0_initial 13)" "rd_r1 demo_parent 4 = Inr zero_pte" "valid (r0_initial 13)"
    by (simp_all add: rd_r1_def d aget_def r0_initial_def)
  moreover have "\<exists>u. set_freePages 12 PAGE_USED demo_parent = Inr u" by (simp add: set_freePages_def d aset_def)
  ultimately have ff: "\<exists>s1. findFreeVirtualPage tiny demo_parent = Inr (s1, int 4)"
    using v by (auto simp: findFreeVirtualPage_def L Let_def)
  let ?u = "demo_parent\<lparr>region1Pt := (region1Pt demo_parent)[4 := (region1Pt demo_parent ! 4)\<lparr>valid := True\<rparr>]\<rparr>"
  have "addrs 64 512 1024 = 512 # addrs 64 576 1024" using addrs.simps [of 64 512 1024] by simp
  moreover have "rd_r1 ?u 0 = Inr zero_pte" by (simp add: rd_r1_def d aget_def)
  ultimately have b: "BorrowR1Page tiny ?u = Inr (int 0)" using v by (simp add: BorrowR1Page_def L)
  have "length (filter valid ?ps) = 1" "\<forall>e\<in>set ?ps. valid e \<longrightarrow> PROT_READ \<in> kprot e \<and> unat (pfn e) \<notin> set (free_list demo_parent)"
    using v by (auto simp: fl numeral_eq_Suc)
  moreover have "frames_wf demo_parent" using demo_fork_facts(1) by (simp add: demo_parent_def frames_wf_def)
  ultimately show "fork_ready tiny 2 ?x ?ps 4 0 demo_parent"
    using d ff b hw_layout_tiny by (simp add: fork_ready_def L fl zero_pcb_def)
  show "child_q demo_parent 2 []" by (simp add: child_q_def d zero_pcb_def)
  show "ready_repr demo_parent []"
    by (rule ready_repr_moved [OF demo_fork_facts(3)])
      (use demo_fork_facts(3) in \<open>auto simp: demo_parent_def ready_repr_def is_pcb_def heap_wf_def\<close>)
qed

theorem Fork_enters_child_witness:
  "\<exists>s1 fl s' n. TrapKernelHandler tiny (\<lambda>_ _. []) (\<lambda>_ _. []) (zero_info\<lparr>i_code := YALNIX_FORK\<rparr>) demo_parent = Inr (s1, fl) \<and>
     kruns tiny s1 fl s' (Ret (set_result 0 (zero_info\<lparr>i_code := YALNIX_FORK\<rparr>))) \<and> curr_proc s' = Some n \<and>
     pid_of s' (Some n) = Some 3 \<and> ready_repr s' [Some 2]"
proof -
  have "i_code (zero_info\<lparr>i_code := YALNIX_FORK\<rparr>) = YALNIX_FORK" by simp
  note f = Fork_enters_child [OF demo_parent_ready(1-3) this, of "\<lambda>_ _. []" "\<lambda>_ _. []"]
  have "next_proc_id demo_parent = 3" by (simp add: demo_parent_def)
  with f show ?thesis by auto
qed


end
