(* ===== verification/Userland.thy ===== *)
theory Userland
  imports Machine
begin

text \<open>
  The user programs (src/idle.c, init1.c to init15.c, execTest.c, execTestProg.c): what each does between one
  kernel call and the next, as a tree of interactions with the machine and the kernel, and which of them end.
  \<open>prog\<close> is a codatatype, since a program may go on for ever; \<open>U_turn\<close> is a turn of a loop with an empty body.
  The user library around \<open>main\<close> and the space on the user stack are not modelled.
\<close>

section \<open>Programs\<close>

text \<open>A kernel call of the user library, with its arguments. \<open>Wait\<close> and \<open>Exit\<close> are in \<open>prog\<close>.\<close>

datatype ucall =
    U_Fork
  | U_GetPid
  | U_Delay int
  | U_Brk "64 word"
  | U_Exec string "string list"
  | U_TtyWrite int string nat

codatatype prog =
    U_write int string nat prog
  | U_TracePrintf int string "int list" prog
  | U_Pause prog
  | U_turn prog
  | U_call ucall "int \<Rightarrow> prog"
  | U_Wait "int \<Rightarrow> int \<Rightarrow> prog"
  | U_Exit int

abbreviation nl :: string where "nl \<equiv> [CHR 0x0A]"

primcorec pause_loop :: "prog \<Rightarrow> prog" where
  "pause_loop rest = U_Pause (pause_loop rest)"

primcorec recurse :: "prog \<Rightarrow> prog" where
  "recurse rest = U_TracePrintf 0 (''recursing '' @ nl) [] (recurse rest)"

primcorec write_loop :: "string \<Rightarrow> prog \<Rightarrow> prog" where
  "write_loop buf rest = U_call (U_TtyWrite 1 buf 2) (\<lambda>_. write_loop buf rest)"

primcorec empty_loop :: "prog \<Rightarrow> prog" where
  "empty_loop rest = U_turn (empty_loop rest)"

section \<open>The test programs\<close>

definition idle_main :: prog where
  "idle_main = U_write 2 (''idle!'' @ nl) 6 (pause_loop (U_Exit 0))"

definition init1 :: prog where
  "init1 = U_write 0 (''init1!'' @ nl) 6 (U_Exit 0)"

definition init2 :: prog where
  "init2 = U_write 0 (''init2!'' @ nl) 6 (
     U_call U_GetPid (\<lambda>pid. U_TracePrintf 0 (''init2 pid is: %i'' @ nl) [pid] (
     U_Exit 0)))"

definition init3 :: prog where
  "init3 = U_write 0 (''init3! testing Delay'' @ nl) 6 (
     U_call U_GetPid (\<lambda>pid. U_TracePrintf 0 (''init2 pid is: %i'' @ nl) [pid] (
     U_call (U_Delay 4) (\<lambda>_.
     U_call (U_Delay 2) (\<lambda>_.
     U_Exit 0)))))"

definition init4 :: prog where
  "init4 = U_write 0 (''init3! testing Delay'' @ nl) 6 (
     U_call U_GetPid (\<lambda>pid. U_TracePrintf 0 (''init2 pid is: %i'' @ nl) [pid] (
     U_call (U_Brk 200000) (\<lambda>_.
     U_call (U_Delay 4) (\<lambda>_.
     U_call (U_Delay 2) (\<lambda>_.
     U_Exit 0))))))"

definition init8 :: prog where
  "init8 = (let buf = [CHR ''a''] @ nl in
     write_loop buf (U_call (U_TtyWrite 1 buf 2) (\<lambda>_.
     U_Exit 0)))"

definition init9 :: prog where
  "init9 = empty_loop (U_Exit 0)"

definition init10 :: prog where
  "init10 = U_write 0 (''init10! Testing Fork!'' @ nl) 6 (
     U_call U_Fork (\<lambda>x.
     U_call U_GetPid (\<lambda>pid. U_TracePrintf 0 (''child pid is: %i'' @ nl) [pid] (
     U_TracePrintf 0 (''currentForkReturn is: %i'' @ nl) [x] (
     U_Exit 0)))))"

definition init11 :: prog where
  "init11 = U_write 0 (''init11! Testing Fork with multiple !'' @ nl) 6 (
     U_call U_Fork (\<lambda>x.
     if x \<noteq> 0
     then U_call U_GetPid (\<lambda>pid. U_TracePrintf 0 (''child pid is: %i'' @ nl) [pid] (
          U_TracePrintf 0 (''spawned child: %i'' @ nl) [x] (
          U_call U_Fork (\<lambda>z.
          if z \<noteq> 0
          then U_TracePrintf 0 (''spawned child: %i'' @ nl) [z] (
               U_call U_Fork (\<lambda>y.
               if y \<noteq> 0
               then U_TracePrintf 0 (''spawned child: %i'' @ nl) [y] (U_Exit 0)
               else U_Exit 0))
          else U_Exit 0))))
     else U_Exit 0))"

text \<open>The end of \<open>init12\<close> and \<open>init13\<close>, and their second and third fork.\<close>

definition init12_end :: prog where
  "init12_end = U_Wait (\<lambda>_ status. U_write 0 (''Everything done'' @ nl) 15 (U_Exit 0))"

definition init12_forks :: prog where
  "init12_forks =
     U_call U_Fork (\<lambda>z.
     if z \<noteq> 0
     then U_TracePrintf 0 (''spawned child: %i'' @ nl) [z] (
          U_call U_Fork (\<lambda>y.
          if y \<noteq> 0
          then U_TracePrintf 0 (''spawned child: %i'' @ nl) [y] init12_end
          else init12_end))
     else init12_end)"

definition init12 :: prog where
  "init12 = U_write 0 (''init12! Testing Fork and wait with multiple !'' @ nl) 10 (
     U_call U_Fork (\<lambda>x.
     if x \<noteq> 0
     then U_call U_GetPid (\<lambda>pid. U_TracePrintf 0 (''pid is: %i'' @ nl) [pid] (
          U_TracePrintf 0 (''spawned child: %i'' @ nl) [x] (
          U_TracePrintf 0 (''waiting for child!: %i'' @ nl) [x] (
          U_write 0 (''we in parent now'' @ nl) 10 (
          U_Wait (\<lambda>_ status.
          U_TracePrintf 0 (''done waiting for child! status: %i'' @ nl) [status]
          init12_forks))))))
     else U_call U_GetPid (\<lambda>pid.
          U_TracePrintf 0 (''Delaying in the child! child pid is: %i'' @ nl) [pid] (
          U_write 0 (''we in child'' @ nl) 10 (
          U_call (U_Delay 4) (\<lambda>_.
          U_write 0 (''we done delaying in child'' @ nl) 10 (
          U_call U_GetPid (\<lambda>pid.
          U_TracePrintf 0 (''Done Delaying in the child! child pid is: %i'' @ nl) [pid]
          init12_end))))))))"

definition init13 :: prog where
  "init13 = U_write 0 (''init13! Testing Fork and wait with exec!'' @ nl) 10 (
     U_call U_Fork (\<lambda>x.
     if x \<noteq> 0
     then U_call U_GetPid (\<lambda>pid. U_TracePrintf 0 (''pid is: %i'' @ nl) [pid] (
          U_TracePrintf 0 (''spawned child: %i'' @ nl) [x] (
          U_TracePrintf 0 (''waiting for child!: %i'' @ nl) [x] (
          U_write 0 (''we in parent now'' @ nl) 15 (
          U_Wait (\<lambda>_ status.
          U_write 0 (''Done waiting for child'' @ nl) 20 (
          U_TracePrintf 0 (''done waiting for child! status: %i'' @ nl) [status]
          init12_forks)))))))
     else U_call U_GetPid (\<lambda>pid.
          U_TracePrintf 0 (''Delaying in the child! child pid is: %i'' @ nl) [pid] (
          U_write 0 (''we in child'' @ nl) 10 (
          U_call (U_Exec ''execTestProg'' [''execTestProg'']) (\<lambda>_.
          U_write 0 (''we done executing in child'' @ nl) 10 (
          U_call U_GetPid (\<lambda>pid.
          U_TracePrintf 0 (''Done executing in the child! child pid is: %i'' @ nl) [pid]
          init12_end))))))))"

definition init15 :: prog where
  "init15 = U_TracePrintf 0 (''starting recursing '' @ nl) [] (
     recurse (U_TracePrintf 0 (''-------bugggingggg '' @ nl) [] (
     U_Exit 0)))"

definition execTest :: prog where
  "execTest = U_write 0 (''execTesting! testing Exec'' @ nl) 6 (
     U_call (U_Exec ''execTestProg'' [''execTestProg'']) (\<lambda>_.
     U_call (U_Delay 4) (\<lambda>_.
     U_call (U_Delay 2) (\<lambda>_.
     U_Exit 0))))"

definition execTestProg :: prog where
  "execTestProg = U_write 0 (''execTestProg! testing Exec'' @ nl) 15 (
     U_call U_GetPid (\<lambda>pid. U_TracePrintf 0 (''PID of execTestProg: %i'' @ nl) [pid] (
     U_call (U_Delay 4) (\<lambda>_.
     U_call (U_Delay 2) (\<lambda>_.
     U_Exit 0)))))"

definition userland :: "string \<Rightarrow> prog option" where
  "userland = map_of [(''idle'', idle_main), (''init1'', init1), (''init2'', init2), (''init3'', init3), (''init4'', init4),
     (''init8'', init8), (''init9'', init9), (''init10'', init10), (''init11'', init11), (''init12'', init12),
     (''init13'', init13), (''init15'', init15), (''execTest'', execTest), (''execTestProg'', execTestProg)]"

section \<open>Which programs end\<close>

text \<open>
  Running a program alone for at most \<open>n\<close> steps. \<open>ans i\<close> is the answer to its \<open>i\<close>-th kernel call and what
  \<open>Wait\<close> leaves in \<open>status\<close>. An \<open>Exec\<close> that succeeds - of a program that exists, with an answer that is
  not negative - goes on with the other program. The result is the status of \<open>Exit\<close>.
\<close>

primrec exits_within :: "nat \<Rightarrow> (nat \<Rightarrow> int \<times> int) \<Rightarrow> prog \<Rightarrow> int option" where
  "exits_within 0 ans p = (case p of U_Exit st \<Rightarrow> Some st | _ \<Rightarrow> None)"
| "exits_within (Suc n) ans p =
     (case p of
        U_write fd t k p \<Rightarrow> exits_within n ans p
      | U_TracePrintf l t xs p \<Rightarrow> exits_within n ans p
      | U_Pause p \<Rightarrow> exits_within n ans p
      | U_turn p \<Rightarrow> exits_within n ans p
      | U_call c k \<Rightarrow>
          (let r = fst (ans 0); next = (\<lambda>i. ans (Suc i)) in
           case c of
             U_Exec name args \<Rightarrow>
               (case userland name of
                  Some q \<Rightarrow> exits_within n next (if 0 \<le> r then q else k r)
                | None \<Rightarrow> exits_within n next (k ERROR))
           | _ \<Rightarrow> exits_within n next (k r))
      | U_Wait k \<Rightarrow> exits_within n (\<lambda>i. ans (Suc i)) (k (fst (ans 0)) (snd (ans 0)))
      | U_Exit st \<Rightarrow> Some st)"

lemma exits_loops:
  "exits_within n ans (pause_loop r) = None" "exits_within n ans (recurse r) = None"
  "exits_within n ans (write_loop b r) = None" "exits_within n ans (empty_loop r) = None"
proof -
  show "exits_within n ans (pause_loop r) = None" by (induction n; subst pause_loop.code) simp_all
  show "exits_within n ans (recurse r) = None" by (induction n; subst recurse.code) simp_all
  show "exits_within n ans (write_loop b r) = None"
    by (induction n arbitrary: ans; subst write_loop.code) (simp_all add: Let_def)
  show "exits_within n ans (empty_loop r) = None" by (induction n; subst empty_loop.code) simp_all
qed

lemma exits_never:
  "exits_within n ans idle_main = None" "exits_within n ans init8 = None" "exits_within n ans init9 = None" "exits_within n ans init15 = None"
proof -
  show "exits_within n ans idle_main = None" by (cases n) (simp_all only: idle_main_def exits_within.simps prog.case exits_loops)
  show "exits_within n ans init8 = None" by (simp only: init8_def Let_def exits_loops)
  show "exits_within n ans init9 = None" by (simp only: init9_def exits_loops)
  show "exits_within n ans init15 = None" by (cases n) (simp_all only: init15_def exits_within.simps prog.case exits_loops)
qed

text \<open>Programs all of whose runs end with \<open>Exit(0)\<close>.\<close>

inductive ends :: "prog \<Rightarrow> bool" where
  ends_Exit: "ends (U_Exit 0)"
| ends_write: "ends p \<Longrightarrow> ends (U_write fd t k p)"
| ends_Trace: "ends p \<Longrightarrow> ends (U_TracePrintf l t xs p)"
| ends_call: "(\<And>r. ends (k r)) \<Longrightarrow> (\<And>name args. c \<noteq> U_Exec name args) \<Longrightarrow> ends (U_call c k)"
| ends_exec: "(\<And>r. ends (k r)) \<Longrightarrow> userland name = Some q \<Longrightarrow> ends q \<Longrightarrow> ends (U_call (U_Exec name args) k)"
| ends_Wait: "(\<And>r st. ends (k r st)) \<Longrightarrow> ends (U_Wait k)"

lemma ends_if: "(b \<Longrightarrow> ends p) \<Longrightarrow> (\<not> b \<Longrightarrow> ends q) \<Longrightarrow> ends (if b then p else q)"
  by simp

lemma ends_exits: "ends p \<Longrightarrow> \<exists>n. exits_within n ans p = Some 0"
proof (induction arbitrary: ans rule: ends.induct)
  case ends_Exit
  show ?case by (rule exI [of _ 0]) simp
next
  case (ends_write p fd t k)
  then obtain n where "exits_within n ans p = Some 0" by blast
  then show ?case by (intro exI [of _ "Suc n"]) simp
next
  case (ends_Trace p l t xs)
  then obtain n where "exits_within n ans p = Some 0" by blast
  then show ?case by (intro exI [of _ "Suc n"]) simp
next
  case (ends_call k c)
  then obtain n where "exits_within n (\<lambda>i. ans (Suc i)) (k (fst (ans 0))) = Some 0" by blast
  with ends_call.hyps(2) show ?case by (intro exI [of _ "Suc n"]) (simp add: Let_def split: ucall.split)
next
  case (ends_exec k name q args)
  then obtain n where "exits_within n (\<lambda>i. ans (Suc i)) (if 0 \<le> fst (ans 0) then q else k (fst (ans 0))) = Some 0"
    by (cases "0 \<le> fst (ans 0)") (simp, blast)+
  with ends_exec.hyps(2) show ?case by (intro exI [of _ "Suc n"]) (simp add: Let_def)
next
  case (ends_Wait k)
  then obtain n where "exits_within n (\<lambda>i. ans (Suc i)) (k (fst (ans 0)) (snd (ans 0))) = Some 0" by blast
  then show ?case by (intro exI [of _ "Suc n"]) simp
qed

lemmas ends_rules = ends_Exit ends_write ends_Trace ends_call ends_Wait ends_if ucall.distinct ucall.distinct [symmetric]

lemma ends_execTestProg: "ends execTestProg"
  unfolding execTestProg_def by (intro ends_rules)

lemma ends_programs:
  "ends init1" "ends init2" "ends init3" "ends init4" "ends init10" "ends init11" "ends init12"
  unfolding init1_def init2_def init3_def init4_def init10_def init11_def init12_def init12_forks_def init12_end_def
  by (intro ends_rules)+

lemma ends_exec_programs: "ends init13" "ends execTest"
proof -
  have u: "userland ''execTestProg'' = Some execTestProg" by (simp add: userland_def)
  show "ends init13" "ends execTest"
    unfolding init13_def execTest_def init12_forks_def init12_end_def
    by (intro ends_rules ends_exec [OF _ u ends_execTestProg])+
qed

text \<open>C38: which test programs end. Whatever the kernel answers, every one of them calls \<open>Exit(0)\<close> in the end,
  but for \<open>idle\<close>, \<open>init8\<close>, \<open>init9\<close> and \<open>init15\<close>, whose loop or recursion has no end: the
  statements after it, among them \<open>Exit\<close>, are never reached.\<close>

theorem user_programs_exit:
  assumes "userland name = Some p"
  shows "if name \<in> {''idle'', ''init8'', ''init9'', ''init15''} then \<forall>n ans. exits_within n ans p = None
    else \<forall>ans. \<exists>n. exits_within n ans p = Some 0"
proof -
  have "name \<in> {''idle'', ''init8'', ''init9'', ''init15''} \<and> p \<in> {idle_main, init8, init9, init15} \<or>
    name \<notin> {''idle'', ''init8'', ''init9'', ''init15''} \<and> ends p"
    using assms ends_programs ends_exec_programs ends_execTestProg
    by (simp add: userland_def split: if_splits)
  then show ?thesis using exits_never ends_exits by auto
qed

theorem user_programs_exit_witness:
  "(\<exists>n. exits_within n (\<lambda>_. (7, 0)) init13 = Some 0) \<and> exits_within 1000 (\<lambda>_. (7, 0)) init9 = None"
proof -
  have "userland ''init13'' = Some init13" "userland ''init9'' = Some init9" by (simp_all add: userland_def)
  from this [THEN user_programs_exit] show ?thesis by simp
qed

end
