(* ===== verification/System.thy ===== *)
theory System
  imports Fork Userland
begin

text \<open>
  User programs and the kernel together. A state of the system is the state of the kernel, what is left of the
  running program, what is left of the programs whose processes are switched out, and the output so far.
  A step is a statement of the running program; for a kernel call it is the whole way through the trap, the
  handler and the context switches up to the next instruction in user mode. Interrupts between the statements
  are not part of this relation.
\<close>

section \<open>User programs on top of the kernel\<close>

text \<open>
  What the user library leaves in the exception frame for a kernel call: the code, and the arguments in
  the registers from 1 on. Strings are passed by address; \<open>exec_name\<close> and \<open>exec_args\<close> are what the
  kernel finds there.
\<close>

definition call_frame :: "ucall \<Rightarrow> exc_info \<Rightarrow> exc_info" where
  "call_frame c info = (case c of
     U_Fork \<Rightarrow> info\<lparr>i_code := YALNIX_FORK\<rparr>
   | U_GetPid \<Rightarrow> info\<lparr>i_code := YALNIX_GETPID\<rparr>
   | U_Delay n \<Rightarrow> info\<lparr>i_code := YALNIX_DELAY, i_regs := (i_regs info)[1 := c_ulong n]\<rparr>
   | U_Brk a \<Rightarrow> info\<lparr>i_code := YALNIX_BRK, i_regs := (i_regs info)[1 := a]\<rparr>
   | U_Exec name args \<Rightarrow> info\<lparr>i_code := YALNIX_EXEC\<rparr>
   | U_TtyWrite tty buf n \<Rightarrow>
       info\<lparr>i_code := YALNIX_TTY_WRITE, i_regs := (i_regs info)[1 := c_ulong tty, 3 := of_nat n]\<rparr>)"

definition exec_name :: "ucall \<Rightarrow> string" where
  "exec_name c = (case c of U_Exec name args \<Rightarrow> name | _ \<Rightarrow> [])"

definition exec_args :: "ucall \<Rightarrow> string list" where
  "exec_args c = (case c of U_Exec name args \<Rightarrow> args | _ \<Rightarrow> [])"

text \<open>How a program goes on when its kernel call returns with the frame \<open>info\<close>. A program that was loaded
  starts at its beginning.\<close>

definition after_call :: "ucall \<Rightarrow> (int \<Rightarrow> prog) \<Rightarrow> exc_info \<Rightarrow> prog" where
  "after_call c k info =
     (let r = c_int (reg info 0) in
      case c of U_Exec name args \<Rightarrow> (case userland name of Some q \<Rightarrow> if r = 0 then q else k r | None \<Rightarrow> k r)
      | _ \<Rightarrow> k r)"

text \<open>
  A run of the kernel, with the user contexts. A context switch saves what is left of the running
  program together with the kernel context, in the first process; \<open>SwitchNewProc\<close> and \<open>SwitchFork\<close> copy the saved
  context to the second process. The processor then goes on with the context of the second one.
\<close>

type_synonym cont = "exc_info \<Rightarrow> prog"

definition save_cont :: "switch_fn \<Rightarrow> nat \<Rightarrow> nat \<Rightarrow> cont \<Rightarrow> (nat \<Rightarrow> cont option) \<Rightarrow> (nat \<Rightarrow> cont option)" where
  "save_cont f p1 p2 w u =
     (if f = SWITCH_NEW_PROC \<or> f = SWITCH_FORK then u(p1 \<mapsto> w, p2 \<mapsto> w) else u(p1 \<mapsto> w))"

inductive uruns :: "machine \<Rightarrow> (nat \<Rightarrow> cont option) \<Rightarrow> cont \<Rightarrow> kstate \<Rightarrow> exc_info flow \<Rightarrow>
    (nat \<Rightarrow> cont option) \<Rightarrow> kstate \<Rightarrow> prog \<Rightarrow> bool" for M where
  uruns_leave: "uruns M u w s (Ret info) u s (w info)"
| uruns_switch: "ContextSwitch M f (Some p1) (Some p2) k s = Inr (s1, k1) \<Longrightarrow> save_cont f p1 p2 w u = u1 \<Longrightarrow> u1 p2 = Some w1 \<Longrightarrow>
    resume M k1 s1 = Inr (s2, f2) \<Longrightarrow> uruns M u1 w1 s2 f2 u3 s3 p \<Longrightarrow>
    uruns M u w s (Call_ContextSwitch f (Some p1) (Some p2) k) u3 s3 p"

datatype event = Out_write int string | Out_trace string "int list"

record system =
  kernel :: kstate
  running :: prog
  saved :: "nat \<Rightarrow> cont option"
  outputs :: "event list"

text \<open>
  The hardware hands the kernel a frame with all \<open>NUM_REGS\<close> registers. Otherwise nothing is assumed of
  the frame of a call but what the user library puts into it.
\<close>

definition full_frame :: "machine \<Rightarrow> exc_info \<Rightarrow> bool" where
  "full_frame M info \<longleftrightarrow> length (i_regs info) = NUM_REGS M"

inductive ustep :: "machine \<Rightarrow> system \<Rightarrow> system \<Rightarrow> bool" for M where
  u_write: "running S = U_write fd t n p \<Longrightarrow>
    ustep M S (S\<lparr>running := p, outputs := outputs S @ [Out_write fd (take n t)]\<rparr>)"
| u_trace: "running S = U_TracePrintf l t xs p \<Longrightarrow>
    ustep M S (S\<lparr>running := p, outputs := outputs S @ [Out_trace t xs]\<rparr>)"
| u_pause: "running S = U_Pause p \<Longrightarrow> ustep M S (S\<lparr>running := p\<rparr>)"
| u_turn: "running S = U_turn p \<Longrightarrow> ustep M S (S\<lparr>running := p\<rparr>)"
| u_call: "running S = U_call c k \<Longrightarrow> full_frame M info \<Longrightarrow>
    TrapKernelHandler M (\<lambda>_ _. exec_name c) (\<lambda>_ _. exec_args c) (call_frame c info) (kernel S) = Inr (s1, f) \<Longrightarrow>
    uruns M (saved S) (after_call c k) s1 f u s2 p \<Longrightarrow>
    ustep M S (S\<lparr>kernel := s2, running := p, saved := u\<rparr>)"
| u_wait: "running S = U_Wait k \<Longrightarrow> full_frame M info \<Longrightarrow>
    TrapKernelHandler M (\<lambda>_ _. []) (\<lambda>_ _. []) (info\<lparr>i_code := YALNIX_WAIT\<rparr>) (kernel S) = Inr (s1, f) \<Longrightarrow>
    uruns M (saved S) (\<lambda>i. k (c_int (reg i 0)) stored) s1 f u s2 p \<Longrightarrow>
    ustep M S (S\<lparr>kernel := s2, running := p, saved := u\<rparr>)"
| u_exit: "running S = U_Exit st \<Longrightarrow> full_frame M info \<Longrightarrow>
    TrapKernelHandler M (\<lambda>_ _. []) (\<lambda>_ _. []) (info\<lparr>i_code := YALNIX_EXIT, i_regs := (i_regs info)[1 := c_ulong st]\<rparr>) (kernel S)
      = Inr (s1, f) \<Longrightarrow>
    uruns M (saved S) (\<lambda>_. U_Exit st) s1 f u s2 p \<Longrightarrow>
    ustep M S (S\<lparr>kernel := s2, running := p, saved := u\<rparr>)"

inductive_cases uruns_RetE: "uruns M u w s (Ret info) u' s' p"
inductive_cases uruns_switchE: "uruns M u w s (Call_ContextSwitch f p1 p2 k) u' s' p"

section \<open>Steps of the system\<close>

lemma reg_set_result: "i_regs info \<noteq> [] \<Longrightarrow> reg (set_result r info) 0 = c_ulong r"
  by (simp add: reg_def set_result_def)

text \<open>Which step a program takes is determined by its first statement.\<close>

lemma ustep_iff:
  "running S = U_write fd t n p \<Longrightarrow> ustep M S S' \<longleftrightarrow> S' = S\<lparr>running := p, outputs := outputs S @ [Out_write fd (take n t)]\<rparr>"
  "running S = U_TracePrintf l t xs p \<Longrightarrow> ustep M S S' \<longleftrightarrow> S' = S\<lparr>running := p, outputs := outputs S @ [Out_trace t xs]\<rparr>"
  "running S = U_call c k \<Longrightarrow> ustep M S S' \<longleftrightarrow> (\<exists>info s1 f u s2 p. full_frame M info \<and>
     TrapKernelHandler M (\<lambda>_ _. exec_name c) (\<lambda>_ _. exec_args c) (call_frame c info) (kernel S) = Inr (s1, f) \<and>
     uruns M (saved S) (after_call c k) s1 f u s2 p \<and> S' = S\<lparr>kernel := s2, running := p, saved := u\<rparr>)"
  by (auto elim!: ustep.cases intro: ustep.intros) blast

lemma full_frame_exists: "\<exists>info. full_frame M info"
  by (rule exI [of _ "zero_info\<lparr>i_regs := replicate (NUM_REGS M) 0\<rparr>"]) (simp add: full_frame_def)

lemma full_frame_result:
  assumes "full_frame M info" "0 < NUM_REGS M" "- (2 ^ 31) \<le> r" "r < 2 ^ 31"
  shows "c_int (reg (set_result r (info\<lparr>i_code := d\<rparr>)) 0) = r"
proof -
  have "i_regs (info\<lparr>i_code := d\<rparr>) \<noteq> []" using assms(1,2) by (auto simp: full_frame_def)
  then show ?thesis using assms(3,4) by (simp add: reg_set_result c_int_c_ulong)
qed

lemma uruns_Ret: "uruns M u w s (Ret info) u' s' p \<longleftrightarrow> u' = u \<and> s' = s \<and> p = w info"
  by (auto elim: uruns_RetE intro: uruns_leave)

text \<open>\<open>GetPid\<close> returns to the same program, with the id of the current process.\<close>

lemma GetPid_step:
  assumes "running S = U_call U_GetPid k" "pid_of (kernel S) (curr_proc (kernel S)) = Some pid" "- (2 ^ 31) \<le> pid" "pid < 2 ^ 31"
    "0 < NUM_REGS M"
  shows "ustep M S S' \<longleftrightarrow> S' = S\<lparr>running := k pid\<rparr>"
proof -
  have "GetPid (curr_proc (kernel S)) (kernel S) = Inr pid"
    using assms(2) by (auto simp: GetPid_def pid_of_def split: sum.splits option.splits)
  then have "TrapKernelHandler M (\<lambda>_ _. exec_name U_GetPid) (\<lambda>_ _. exec_args U_GetPid) (call_frame U_GetPid info) (kernel S) =
      Inr (kernel S, Ret (set_result pid (call_frame U_GetPid info)))" for info
    by (simp add: TrapKernelHandler_def call_frame_def)
  moreover have "after_call U_GetPid k (set_result pid (call_frame U_GetPid info)) = k pid" if "full_frame M info" for info
    using full_frame_result [OF that assms(5,3,4)] by (simp add: after_call_def call_frame_def)
  moreover have "S\<lparr>kernel := kernel S, running := q, saved := saved S\<rparr> = S\<lparr>running := q\<rparr>" for q by simp
  ultimately show ?thesis
    using full_frame_exists [of M] by (auto simp: ustep_iff(3) [OF assms(1)] uruns_Ret)
qed

text \<open>\<open>Fork\<close> returns to the same program in the child, with 0; what is left of it in the parent is saved.\<close>

lemma Fork_step:
  assumes "running S = U_call U_Fork w" "fork_ready M c x ps v k (kernel S)" "child_q (kernel S) c cs" "ready_repr (kernel S) qs"
    "n = heap_top (kernel S)" "0 < NUM_REGS M" "u = (saved S)(c \<mapsto> after_call U_Fork w, n \<mapsto> after_call U_Fork w)"
  shows "\<exists>S'. ustep M S S'"
    "ustep M S S' \<Longrightarrow> \<exists>s' y. S' = S\<lparr>kernel := s', running := w 0, saved := u\<rparr> \<and>
       curr_proc s' = Some n \<and> pcbs s' n = Some y \<and> process_id y = next_proc_id (kernel S) \<and> ready_repr s' (qs @ [Some c])"
proof -
  let ?s = "kernel S" and ?i = "\<lambda>info. call_frame U_Fork info" and ?w = "after_call U_Fork w"
  let ?f = "\<lambda>info. Call_ContextSwitch SWITCH_FORK (Some c) (Some n) (K_ForkFunc (?i info) (Some n))"
  have w: "?w (set_result 0 (?i info)) = w 0" if "full_frame M info" for info
    using full_frame_result [OF that assms(6), of 0] by (simp add: after_call_def call_frame_def)
  have run: "\<exists>f s' y. TrapKernelHandler M (\<lambda>_ _. exec_name U_Fork) (\<lambda>_ _. exec_args U_Fork) (?i info) ?s = Inr (f, ?f info) \<and>
      (\<forall>u' t p. uruns M (saved S) ?w f (?f info) u' t p \<longleftrightarrow> u' = u \<and> t = s' \<and> p = ?w (set_result 0 (?i info))) \<and>
      curr_proc s' = Some n \<and> pcbs s' n = Some y \<and> process_id y = next_proc_id ?s \<and> ready_repr s' (qs @ [Some c])" for info
  proof -
    obtain f s' y where f: "ForkFunc M (?i info) ?s = Inr (f, ?f info)" "kstep M (f, ?f info) = Inr (s', Ret (set_result 0 (?i info)))"
        "curr_proc s' = Some n" "ready_repr s' (qs @ [Some c])" "pcbs s' n = Some y" "process_id y = next_proc_id ?s"
      using Fork_to_child [OF assms(2-5), of "?i info"] by blast
    have t: "TrapKernelHandler M (\<lambda>_ _. exec_name U_Fork) (\<lambda>_ _. exec_args U_Fork) (?i info) ?s = Inr (f, ?f info)"
      using f(1) by (simp add: TrapKernelHandler_def delivered_def call_frame_def)
    obtain s1 k1 where c: "ContextSwitch M SWITCH_FORK (Some c) (Some n) (K_ForkFunc (?i info) (Some n)) f = Inr (s1, k1)"
        "resume M k1 s1 = Inr (s', Ret (set_result 0 (?i info)))"
      using f(2) by (auto simp: kstep_def rbind_eq_Ok_iff)
    have u: "save_cont SWITCH_FORK c n ?w (saved S) = u" "u n = Some ?w" by (simp_all add: save_cont_def assms(7))
    have "uruns M (saved S) ?w f (?f info) u' t p \<longleftrightarrow> u' = u \<and> t = s' \<and> p = ?w (set_result 0 (?i info))" for u' t p
      using c u by (auto simp: uruns_Ret elim!: uruns_switchE intro: uruns_switch [OF c(1) _ _ c(2)])
    with t f show ?thesis by blast
  qed
  obtain info where "full_frame M info" using full_frame_exists [of M] by blast
  with run [of info] show "\<exists>S'. ustep M S S'" unfolding ustep_iff(3) [OF assms(1)] by blast
  assume "ustep M S S'"
  then obtain info s1 f u' s2 p where st: "full_frame M info"
      "TrapKernelHandler M (\<lambda>_ _. exec_name U_Fork) (\<lambda>_ _. exec_args U_Fork) (?i info) ?s = Inr (s1, f)"
      "uruns M (saved S) ?w s1 f u' s2 p" "S' = S\<lparr>kernel := s2, running := p, saved := u'\<rparr>"
    unfolding ustep_iff(3) [OF assms(1)] by blast
  with run [of info] w [OF st(1)] show "\<exists>s' y. S' = S\<lparr>kernel := s', running := w 0, saved := u\<rparr> \<and>
       curr_proc s' = Some n \<and> pcbs s' n = Some y \<and> process_id y = next_proc_id ?s \<and> ready_repr s' (qs @ [Some c])"
    by auto
qed

text \<open>A call of \<open>GetPid\<close> and two reports, the first one of the id.\<close>

lemma GetPid_reports:
  assumes "running T = U_call U_GetPid (\<lambda>q. U_TracePrintf l a [q] (U_TracePrintf l' b xs r))"
    "pid_of (kernel T) (curr_proc (kernel T)) = Some pid" "- (2 ^ 31) \<le> pid" "pid < 2 ^ 31" "0 < NUM_REGS M"
  shows "(\<exists>T3 T4. ustep M T T3 \<and> ustep M T3 T4 \<and> ustep M T4 S') \<longleftrightarrow>
    S' = T\<lparr>running := r, outputs := outputs T @ [Out_trace a [pid], Out_trace b xs]\<rparr>"
proof -
  define A where "A = T\<lparr>running := U_TracePrintf l a [pid] (U_TracePrintf l' b xs r)\<rparr>"
  define B where "B = T\<lparr>running := U_TracePrintf l' b xs r, outputs := outputs T @ [Out_trace a [pid]]\<rparr>"
  have "ustep M T T3 \<longleftrightarrow> T3 = A" for T3 using GetPid_step [OF assms, of T3] by (simp add: A_def)
  moreover have "ustep M A T4 \<longleftrightarrow> T4 = B" for T4
    by (subst ustep_iff(2) [of A l a "[pid]"]) (simp_all add: A_def B_def)
  moreover have "ustep M B S' \<longleftrightarrow> S' = T\<lparr>running := r, outputs := outputs T @ [Out_trace a [pid], Out_trace b xs]\<rparr>"
    by (subst ustep_iff(2) [of B l' b xs]) (simp_all add: B_def)
  ultimately show ?thesis by simp
qed

text \<open>C12: the test program \<open>init10\<close> on the kernel, when the resources of a fork are there. It can take five
  steps, and whatever the frames of its kernel calls contain, these five steps lead to the same
  place, if no interrupt comes between them: the child runs and has reported its own process id, which is the next one,
  and the value 0 of \<open>Fork\<close>, and is about to exit. The parent waits in the ready queue, and its program
  will go on behind its \<open>Fork\<close>, with the value in the register of results.\<close>

theorem init10_child_reports:
  assumes "running S = init10" "fork_ready M c x ps v k (kernel S)" "child_q (kernel S) c cs" "ready_repr (kernel S) qs"
    "pid = next_proc_id (kernel S)" "- (2 ^ 31) \<le> pid" "pid < 2 ^ 31" "0 < NUM_REGS M"
  shows "(\<exists>S'. (ustep M ^^ 5) S S') \<and> (\<forall>S'. (ustep M ^^ 5) S S' \<longrightarrow> running S' = U_Exit 0 \<and>
    outputs S' = outputs S @ [Out_write 0 ''init10'', Out_trace (''child pid is: %i'' @ nl) [pid],
      Out_trace (''currentForkReturn is: %i'' @ nl) [0]] \<and>
    pid_of (kernel S') (curr_proc (kernel S')) = Some pid \<and> ready_repr (kernel S') (qs @ [Some c]) \<and>
    (\<exists>w. saved S' c = Some w \<and> (\<forall>info. w info = U_call U_GetPid (\<lambda>q. U_TracePrintf 0 (''child pid is: %i'' @ nl) [q] (
       U_TracePrintf 0 (''currentForkReturn is: %i'' @ nl) [c_int (reg info 0)] (U_Exit 0))))))"
proof -
  let ?t = "\<lambda>x pid. U_TracePrintf 0 (''child pid is: %i'' @ nl) [pid] (U_TracePrintf 0 (''currentForkReturn is: %i'' @ nl) [x] (U_Exit 0))"
  let ?k = "\<lambda>x. U_call U_GetPid (?t x)" and ?n = "heap_top (kernel S)"
  define u where "u = (saved S)(c \<mapsto> after_call U_Fork ?k, ?n \<mapsto> after_call U_Fork ?k)"
  define S1 where "S1 = S\<lparr>running := U_call U_Fork ?k, outputs := outputs S @ [Out_write 0 ''init10'']\<rparr>"
  have r: "running S = U_write 0 (''init10! Testing Fork!'' @ nl) 6 (U_call U_Fork ?k)"
    using assms(1) by (simp add: init10_def)
  have 1: "ustep M S T \<longleftrightarrow> T = S1" for T
    by (subst ustep_iff(1) [OF r]) (simp add: S1_def eval_nat_numeral)
  have S1: "running S1 = U_call U_Fork ?k" "kernel S1 = kernel S" "saved S1 = saved S" by (simp_all add: S1_def)
  note F = Fork_step [OF S1(1), unfolded S1(2,3), OF assms(2-4) refl assms(8) u_def]
  have five: "(ustep M ^^ 5) S S' \<longleftrightarrow> (\<exists>T. ustep M S1 T \<and> (\<exists>T3 T4. ustep M T T3 \<and> ustep M T3 T4 \<and> ustep M T4 S'))" for S'
    using 1 by (auto simp: eval_nat_numeral relcompp_apply)
  have from_T: "(\<forall>S'. (\<exists>T3 T4. ustep M T T3 \<and> ustep M T3 T4 \<and> ustep M T4 S') \<longleftrightarrow> S' = T\<lparr>running := U_Exit 0, outputs := outputs T @
        [Out_trace (''child pid is: %i'' @ nl) [pid], Out_trace (''currentForkReturn is: %i'' @ nl) [0]]\<rparr>) \<and>
      outputs T = outputs S1 \<and> saved T = u \<and> pid_of (kernel T) (curr_proc (kernel T)) = Some pid \<and> ready_repr (kernel T) (qs @ [Some c])"
    if step: "ustep M S1 T" for T
  proof -
    obtain s' y where T: "T = S1\<lparr>kernel := s', running := ?k 0, saved := u\<rparr>" "curr_proc s' = Some ?n" "pcbs s' ?n = Some y"
        "process_id y = pid" "ready_repr s' (qs @ [Some c])" using F(2) [OF step] assms(5) by blast
    then have "running T = ?k 0" "pid_of (kernel T) (curr_proc (kernel T)) = Some pid" by (simp_all add: pid_of_simps)
    then show ?thesis using GetPid_reports [OF _ _ assms(6-8)] T(1,5) by simp
  qed
  have "\<exists>S'. (ustep M ^^ 5) S S'" unfolding five using F(1) from_T by blast
  moreover have "running S' = U_Exit 0 \<and>
      outputs S' = outputs S @ [Out_write 0 ''init10'', Out_trace (''child pid is: %i'' @ nl) [pid],
        Out_trace (''currentForkReturn is: %i'' @ nl) [0]] \<and>
      pid_of (kernel S') (curr_proc (kernel S')) = Some pid \<and> ready_repr (kernel S') (qs @ [Some c]) \<and>
      saved S' c = Some (after_call U_Fork ?k)" if run: "(ustep M ^^ 5) S S'" for S'
  proof -
    obtain T where "ustep M S1 T" "\<exists>T3 T4. ustep M T T3 \<and> ustep M T3 T4 \<and> ustep M T4 S'" using run five by blast
    with from_T [of T] show ?thesis by (auto simp: u_def S1_def)
  qed
  moreover have "after_call U_Fork ?k info = ?k (c_int (reg info 0))" for info by (simp add: after_call_def)
  ultimately show ?thesis by blast
qed

theorem init10_child_reports_witness:
  "\<exists>S'. (ustep tiny ^^ 5) \<lparr>kernel = demo_parent, running = init10, saved = (\<lambda>_. None), outputs = []\<rparr> S' \<and>
    outputs S' = [Out_write 0 ''init10'', Out_trace (''child pid is: %i'' @ nl) [3], Out_trace (''currentForkReturn is: %i'' @ nl) [0]]"
proof -
  let ?S = "\<lparr>kernel = demo_parent, running = init10, saved = (\<lambda>_. None), outputs = []\<rparr>"
  have "next_proc_id demo_parent = 3" "0 < NUM_REGS tiny" by (simp_all add: demo_parent_def tiny_def)
  with init10_child_reports [of ?S tiny 2 _ _ 4 0 "[]" "[]" 3] demo_parent_ready show ?thesis by fastforce
qed

end
